(* ===== verification/Orbit_Prelude.thy ===== *)
theory Orbit_Prelude
  imports Main "HOL-Library.Word" "HOL-Library.Multiset"
begin

text \<open>
  Shared vocabulary of the development: the machine integer types of the C code, the
  faults a C operation can end in, results that are either a fault or a value, and the
  list and word lemmas several components use.

  A C function that can only return is a HOL function into its result type. A C function
  that can dereference a null pointer, leave an array, block on a lock it holds, or run
  for ever, returns \<open>'a res\<close>: \<open>Inl\<close> of the fault, or \<open>Inr\<close> of the value.
\<close>

section \<open>Machine integers\<close>

type_synonym u8 = "8 word"
type_synonym u16 = "16 word"
type_synonym u32 = "32 word"
type_synonym u64 = "64 word"

unbundle bit_operations_syntax

section \<open>Collections\<close>

text \<open>The definitions of a component's operations that its frame and preservation lemmas unfold together.\<close>

named_theorems step_defs "definitions of the operations a frame or preservation lemma ranges over"

section \<open>Faults and results\<close>

datatype fault =
    Null_Deref          \<comment> \<open>a read or write through a null (or near-null) pointer\<close>
  | Out_Of_Bounds       \<comment> \<open>an access outside the array or heap block\<close>
  | Use_After_Free      \<comment> \<open>a use of a heap block that was freed or moved away\<close>
  | Self_Deadlock       \<comment> \<open>a default mutex locked again by the thread that holds it\<close>
  | No_Return           \<comment> \<open>unbounded recursion or an endless loop\<close>
  | Div_Zero            \<comment> \<open>integer division by zero\<close>
  | Indeterminate       \<comment> \<open>the value of a function that falls off its end is used\<close>
  | Exits               \<comment> \<open>the code prints a message and ends the program\<close>

type_synonym 'a res = "fault + 'a"

definition and_then :: "'a res \<Rightarrow> ('a \<Rightarrow> 'b res) \<Rightarrow> 'b res" where
  "and_then r f = (case r of Inl e \<Rightarrow> Inl e | Inr x \<Rightarrow> f x)"

lemma and_then_simps [simp]:
  "and_then (Inl e) f = Inl e"
  "and_then (Inr x) f = f x"
  by (simp_all add: and_then_def)

lemma and_then_Inr_iff: "and_then r f = Inr y \<longleftrightarrow> (\<exists>x. r = Inr x \<and> f x = Inr y)"
  by (cases r) auto

lemma and_then_assoc: "and_then (and_then r f) g = and_then r (\<lambda>x. and_then (f x) g)"
  by (cases r) auto

text \<open>The value \<open>EOF\<close> of \<open>stdio.h\<close>, which the code uses as its error return.\<close>

abbreviation EOF :: int where
  "EOF \<equiv> -1"

section \<open>Words\<close>

text \<open>Counting down the distance to a start position on a ring of words.\<close>

lemma unat_minus_one': "(x :: 'a :: len word) \<noteq> 0 \<Longrightarrow> unat (x - 1) = unat x - 1"
  by (simp add: unat_minus_one)

lemma unat_of_nat_less: "n < 2 ^ LENGTH('a) \<Longrightarrow> unat (of_nat n :: 'a :: len word) = n"
  by (simp add: unat_of_nat take_bit_nat_eq_self)

lemma and_7_mod_8: "(n :: nat) AND 7 = n mod 8"
proof -
  have "n AND 7 = n AND mask 3" by (simp add: mask_eq_exp_minus_1)
  then show ?thesis by (simp flip: take_bit_eq_mask add: take_bit_eq_mod)
qed

lemma and_15_mod_16: "(n :: nat) AND 15 = n mod 16"
proof -
  have "n AND 15 = n AND mask 4" by (simp add: mask_eq_exp_minus_1)
  then show ?thesis by (simp flip: take_bit_eq_mask add: take_bit_eq_mod)
qed

lemma take_bit_3_nat: "take_bit 3 (n :: nat) = n mod 8"
  by (simp add: take_bit_eq_mod)

lemma or_and_7_zero: "((u :: nat) OR d) AND 7 = 0 \<longleftrightarrow> u mod 8 = 0 \<and> d mod 8 = 0"
proof -
  have "(u OR d) AND 7 = take_bit 3 (u OR d)"
    by (simp only: and_7_mod_8 take_bit_3_nat)
  also have "\<dots> = u mod 8 OR d mod 8"
    by (simp only: take_bit_or take_bit_3_nat)
  finally show ?thesis by (simp add: or_eq_0_iff)
qed

lemma xor_and_7_zero: "((u :: nat) XOR d) AND 7 = 0 \<longleftrightarrow> u mod 8 = d mod 8"
proof -
  have "(u XOR d) AND 7 = take_bit 3 (u XOR d)"
    by (simp only: and_7_mod_8 take_bit_3_nat)
  also have "\<dots> = (u mod 8) XOR (d mod 8)"
    by (simp only: take_bit_xor take_bit_3_nat)
  finally have *: "(u XOR d) AND 7 = (u mod 8) XOR (d mod 8)" .
  have "(u mod 8) XOR (d mod 8) = 0 \<longleftrightarrow> u mod 8 = d mod 8"
    by (metis bit.xor_left_self xor.right_neutral xor_self_eq xor.assoc)
  with * show ?thesis by simp
qed

lemma word_xor_left_cancel [simp]: "a XOR b = a XOR c \<longleftrightarrow> b = c" for a b c :: "'a :: len word"
proof
  assume "a XOR b = a XOR c"
  then have "a XOR (a XOR b) = a XOR (a XOR c)" by (rule arg_cong)
  then show "b = c" by (simp flip: xor.assoc)
qed simp

lemma word_xor_right_cancel [simp]: "b XOR a = c XOR a \<longleftrightarrow> b = c" for a b c :: "'a :: len word"
  using word_xor_left_cancel [of a b c] by (simp only: xor.commute)

lemma ucast_u8_u32_inj: "(ucast b :: u32) = ucast b' \<longleftrightarrow> b = b'" for b b' :: u8
proof
  assume eq: "(ucast b :: u32) = ucast b'"
  show "b = b'"
  proof (rule bit_word_eqI)
    fix n
    assume "n < LENGTH(8)"
    moreover have "bit (ucast b :: u32) n \<longleftrightarrow> bit (ucast b' :: u32) n" by (simp only: eq)
    ultimately show "bit b n = bit b' n" by (simp add: bit_ucast_iff)
  qed
qed simp

lemma unat_ucast_u16_u32 [simp]: "unat (ucast (x :: u16) :: u32) = unat x"
proof -
  have "unat x < 2 ^ 16" using unsigned_less [of x, where 'a = nat] by simp
  then show ?thesis by (simp add: unsigned_ucast_eq take_bit_nat_eq_self)
qed

lemma unat_ucast_u32_u16 [simp]: "unat (ucast (x :: u32) :: u16) = unat x mod 65536"
  by (simp add: unsigned_ucast_eq take_bit_eq_mod)

lemma ucast_u32_u64_inj: "(ucast b :: u64) = ucast b' \<longleftrightarrow> b = b'" for b b' :: u32
proof
  assume eq: "(ucast b :: u64) = ucast b'"
  show "b = b'"
  proof (rule bit_word_eqI)
    fix n
    assume "n < LENGTH(32)"
    moreover have "bit (ucast b :: u64) n \<longleftrightarrow> bit (ucast b' :: u64) n" by (simp only: eq)
    ultimately show "bit b n = bit b' n" by (simp add: bit_ucast_iff)
  qed
qed simp

end
