(* ===== verification/Orbit_Mem.thy ===== *)
theory Orbit_Mem
  imports Orbit_Prelude
begin

text \<open>
  The memory routines of \<^verbatim>\<open>src/include/funcs.h\<close> and \<^verbatim>\<open>src/utils/strlcpy.c\<close> over a byte
  memory: \<open>__vcpy\<close> (word-at-a-time copy), \<open>__bcpy\<close> (overlap-safe copy), the optimised
  \<open>__mset\<close>, \<open>__vcmp\<close>, \<open>__vlen\<close> (word-at-a-time string length) and \<open>strlcpy\<close>.

  An address is a natural number, the null pointer is address 0, and a memory maps every
  address to a byte. Objects do not wrap around the address space, as in C. The model is
  the LP64 configuration the makefile builds: \<open>sizeof(long) = sizeof(word_t) = 8\<close>.

  The lemmas show that each routine computes its reference operation: \<open>memmove_spec\<close>,
  \<open>memset_spec\<close>, the first difference, the position of the first zero byte.
\<close>

section \<open>Byte memory\<close>

type_synonym mem = "nat \<Rightarrow> u8"

text \<open>A 64-bit load and store (little endian; the proofs do not depend on the order).\<close>

definition load64 :: "mem \<Rightarrow> nat \<Rightarrow> u64" where
  "load64 m a = word_of_int (horner_sum uint (2 ^ 8) (map (\<lambda>i. m (a + i)) [0..<8]))"

definition store64 :: "mem \<Rightarrow> nat \<Rightarrow> u64 \<Rightarrow> mem" where
  "store64 m a w = (\<lambda>x. if a \<le> x \<and> x < a + 8 then ucast (drop_bit (8 * (x - a)) w) else m x)"

text \<open>The reference operations.\<close>

definition memmove_spec :: "mem \<Rightarrow> nat \<Rightarrow> nat \<Rightarrow> nat \<Rightarrow> mem" where
  "memmove_spec m src dst n = (\<lambda>x. if dst \<le> x \<and> x < dst + n then m (src + (x - dst)) else m x)"

definition memset_spec :: "mem \<Rightarrow> nat \<Rightarrow> u8 \<Rightarrow> nat \<Rightarrow> mem" where
  "memset_spec m s c n = (\<lambda>x. if s \<le> x \<and> x < s + n then c else m x)"

lemma bit_load64:
  "bit (load64 m a) n \<longleftrightarrow> n < 64 \<and> bit (m (a + n div 8)) (n mod 8)"
proof -
  have "bit (horner_sum uint (2 ^ LENGTH(8)) (map (\<lambda>i. m (a + i)) [0..<8])) n \<longleftrightarrow>
      n div 8 < 8 \<and> bit (map (\<lambda>i. m (a + i)) [0..<8] ! (n div 8)) (n mod 8)"
    by (subst bit_horner_sum_uint_exp_iff) simp
  then show ?thesis
    by (auto simp: load64_def bit_word_of_int_iff)
qed

lemma load64_byte:
  assumes "i < 8"
  shows "(ucast (drop_bit (8 * i) (load64 m a)) :: u8) = m (a + i)"
proof (rule bit_word_eqI)
  fix n
  assume "n < LENGTH(8)"
  then have n: "n < 8" by simp
  then have "8 * i + n < 64" and "(8 * i + n) div 8 = i" and "(8 * i + n) mod 8 = n"
    using assms by auto
  with n show "bit (ucast (drop_bit (8 * i) (load64 m a)) :: u8) n = bit (m (a + i)) n"
    by (simp add: bit_ucast_iff bit_drop_bit_eq bit_load64)
qed

lemma store64_load64:
  "store64 m d (load64 m' s) = (\<lambda>x. if d \<le> x \<and> x < d + 8 then m' (s + (x - d)) else m x)"
  by (rule ext) (auto simp: store64_def load64_byte)

section \<open>Copy loops\<close>

text \<open>
  The bodies of the copy loops, one iteration per counted step. In the code they are
  \<open>do ... while (--t)\<close> loops, each entered with a count that is not zero
  (\<open>bcpy_counts_positive\<close> below); a counted recursion has the same iterations.
\<close>

fun copy_bytes_up :: "mem \<Rightarrow> nat \<Rightarrow> nat \<Rightarrow> nat \<Rightarrow> mem" where
  "copy_bytes_up m d s 0 = m"
| "copy_bytes_up m d s (Suc t) = copy_bytes_up (m(d := m s)) (d + 1) (s + 1) t"

fun copy_words_up :: "mem \<Rightarrow> nat \<Rightarrow> nat \<Rightarrow> nat \<Rightarrow> mem" where
  "copy_words_up m d s 0 = m"
| "copy_words_up m d s (Suc t) = copy_words_up (store64 m d (load64 m s)) (d + 8) (s + 8) t"

fun copy_bytes_down :: "mem \<Rightarrow> nat \<Rightarrow> nat \<Rightarrow> nat \<Rightarrow> mem" where
  "copy_bytes_down m d s 0 = m"
| "copy_bytes_down m d s (Suc t) = copy_bytes_down (m(d - 1 := m (s - 1))) (d - 1) (s - 1) t"

fun copy_words_down :: "mem \<Rightarrow> nat \<Rightarrow> nat \<Rightarrow> nat \<Rightarrow> mem" where
  "copy_words_down m d s 0 = m"
| "copy_words_down m d s (Suc t) =
     copy_words_down (store64 m (d - 8) (load64 m (s - 8))) (d - 8) (s - 8) t"

text \<open>\<open>__vcpy\<close>: nothing on a null argument or no bytes; words when both ends are aligned.\<close>

definition vcpy :: "mem \<Rightarrow> nat \<Rightarrow> nat \<Rightarrow> nat \<Rightarrow> mem" where
  "vcpy m d src n =
     (if d \<noteq> 0 \<and> src \<noteq> 0 \<and> n \<noteq> 0 then
        (if d mod 8 = 0 \<and> src mod 8 = 0 then
           (let w = n div 8; m' = copy_words_up m d src w
            in copy_bytes_up m' (d + 8 * w) (src + 8 * w) (n mod 8))
         else copy_bytes_up m d src n)
      else m)"

text \<open>\<open>__bcpy(src, dst, length)\<close>: upwards when the destination is below the source.\<close>

definition bcpy_up :: "mem \<Rightarrow> nat \<Rightarrow> nat \<Rightarrow> nat \<Rightarrow> mem" where
  "bcpy_up m src dst len =
     (let t = (if (src OR dst) AND 7 \<noteq> 0
               then (if (src XOR dst) AND 7 \<noteq> 0 \<or> len < 8 then len else 8 - (src AND 7))
               else 0);
          m1 = copy_bytes_up m dst src t;
          len1 = len - t; src1 = src + t; dst1 = dst + t;
          w = len1 div 8;
          m2 = copy_words_up m1 dst1 src1 w
      in copy_bytes_up m2 (dst1 + 8 * w) (src1 + 8 * w) (len1 AND 7))"

definition bcpy_down :: "mem \<Rightarrow> nat \<Rightarrow> nat \<Rightarrow> nat \<Rightarrow> mem" where
  "bcpy_down m src0 dst0 len =
     (let src = src0 + len; dst = dst0 + len;
          t = (if (src OR dst) AND 7 \<noteq> 0
               then (if (src XOR dst) AND 7 \<noteq> 0 \<or> len \<le> 8 then len else src AND 7)
               else 0);
          m1 = copy_bytes_down m dst src t;
          len1 = len - t; src1 = src - t; dst1 = dst - t;
          w = len1 div 8;
          m2 = copy_words_down m1 dst1 src1 w
      in copy_bytes_down m2 (dst1 - 8 * w) (src1 - 8 * w) (len1 AND 7))"

definition bcpy :: "mem \<Rightarrow> nat \<Rightarrow> nat \<Rightarrow> nat \<Rightarrow> mem" where
  "bcpy m src dst len =
     (if len = 0 \<or> dst = src then m
      else if dst < src then bcpy_up m src dst len
      else bcpy_down m src dst len)"

text \<open>The alignment prefix of \<open>__bcpy\<close> is entered with at least one byte to copy and never
  more bytes than there are, so no \<open>--t\<close> wraps and no \<open>length -= t\<close> underflows.\<close>

lemma bcpy_counts_positive:
  fixes u d len :: nat
  assumes "0 < len" and "(u OR d) AND 7 \<noteq> 0"
  shows "0 < (if (u XOR d) AND 7 \<noteq> 0 \<or> len < 8 then len else 8 - (u AND 7)) \<and>
         (if (u XOR d) AND 7 \<noteq> 0 \<or> len < 8 then len else 8 - (u AND 7)) \<le> len"
    and "0 < (if (u XOR d) AND 7 \<noteq> 0 \<or> len \<le> 8 then len else u AND 7) \<and>
         (if (u XOR d) AND 7 \<noteq> 0 \<or> len \<le> 8 then len else u AND 7) \<le> len"
proof -
  have "u mod 8 < 8" by simp
  moreover have "u mod 8 \<noteq> 0" if "(u XOR d) AND 7 = 0"
    using that assms(2) unfolding or_and_7_zero xor_and_7_zero by auto
  ultimately show "0 < (if (u XOR d) AND 7 \<noteq> 0 \<or> len < 8 then len else 8 - (u AND 7)) \<and>
         (if (u XOR d) AND 7 \<noteq> 0 \<or> len < 8 then len else 8 - (u AND 7)) \<le> len"
    and "0 < (if (u XOR d) AND 7 \<noteq> 0 \<or> len \<le> 8 then len else u AND 7) \<and>
         (if (u XOR d) AND 7 \<noteq> 0 \<or> len \<le> 8 then len else u AND 7) \<le> len"
    using assms(1) by (auto simp: and_7_mod_8)
qed

section \<open>The copy loops compute \<open>memmove\<close>\<close>

lemma memmove_spec_0 [simp]: "memmove_spec m s d 0 = m"
  by (rule ext) (auto simp: memmove_spec_def)

lemma memmove_spec_same [simp]: "memmove_spec m s s n = m"
  by (rule ext) (auto simp: memmove_spec_def)

lemma memmove_spec_append_up:
  assumes "d \<le> s \<or> s + a + b \<le> d"
  shows "memmove_spec (memmove_spec m s d a) (s + a) (d + a) b = memmove_spec m s d (a + b)"
  using assms by (intro ext) (auto simp: memmove_spec_def)

lemma memmove_spec_append_down:
  assumes "s \<le> d \<or> d + a + b \<le> s"
  shows "memmove_spec (memmove_spec m (s + a) (d + a) b) s d a = memmove_spec m s d (a + b)"
  using assms by (intro ext) (auto simp: memmove_spec_def)

lemma memmove_spec_1: "m(d := m s) = memmove_spec m s d 1"
  by (rule ext) (auto simp: memmove_spec_def)

lemma memmove_spec_Suc_0: "memmove_spec m s d (Suc 0) = m(d := m s)"
  by (simp add: memmove_spec_1)

lemma memmove_spec_8: "store64 m d (load64 m s) = memmove_spec m s d 8"
  by (simp add: store64_load64 memmove_spec_def)

lemma copy_bytes_up_memmove:
  "d \<le> s \<or> s + t \<le> d \<Longrightarrow> copy_bytes_up m d s t = memmove_spec m s d t"
proof (induction t arbitrary: m d s)
  case 0
  show ?case by simp
next
  case (Suc t)
  then have "copy_bytes_up m d s (Suc t) = memmove_spec (memmove_spec m s d 1) (s + 1) (d + 1) t"
    by (auto simp: memmove_spec_1)
  with Suc.prems show ?case
    using memmove_spec_append_up [of d s 1 t m] by auto
qed

lemma copy_words_up_memmove:
  "d \<le> s \<or> s + 8 * t \<le> d \<Longrightarrow> copy_words_up m d s t = memmove_spec m s d (8 * t)"
proof (induction t arbitrary: m d s)
  case 0
  show ?case by simp
next
  case (Suc t)
  then have "copy_words_up m d s (Suc t) = memmove_spec (memmove_spec m s d 8) (s + 8) (d + 8) (8 * t)"
    by (auto simp: memmove_spec_8)
  with Suc.prems show ?case
    using memmove_spec_append_up [of d s 8 "8 * t" m] by auto
qed

lemma copy_bytes_down_memmove:
  "s \<le> d \<or> d + t \<le> s \<Longrightarrow> copy_bytes_down m (d + t) (s + t) t = memmove_spec m s d t"
proof (induction t arbitrary: m)
  case 0
  show ?case by simp
next
  case (Suc t)
  then have "copy_bytes_down m (d + Suc t) (s + Suc t) (Suc t) =
      memmove_spec (memmove_spec m (s + t) (d + t) 1) s d t"
    by (auto simp: memmove_spec_1)
  with Suc.prems show ?case
    using memmove_spec_append_down [of s d t 1 m] by auto
qed

lemma copy_words_down_memmove:
  "s \<le> d \<or> d + 8 * t \<le> s \<Longrightarrow> copy_words_down m (d + 8 * t) (s + 8 * t) t = memmove_spec m s d (8 * t)"
proof (induction t arbitrary: m)
  case 0
  show ?case by simp
next
  case (Suc t)
  then have "copy_words_down m (d + 8 * Suc t) (s + 8 * Suc t) (Suc t) =
      memmove_spec (memmove_spec m (s + 8 * t) (d + 8 * t) 8) s d (8 * t)"
    by (auto simp: memmove_spec_8 algebra_simps)
  with Suc.prems show ?case
    using memmove_spec_append_down [of s d "8 * t" 8 m] by (auto simp: algebra_simps)
qed

text \<open>Words then the remaining bytes, upwards and downwards.\<close>

lemma words_then_bytes_up:
  assumes "d \<le> s \<or> s + n \<le> d"
  shows "copy_bytes_up (copy_words_up m d s (n div 8)) (d + 8 * (n div 8)) (s + 8 * (n div 8)) (n mod 8)
       = memmove_spec m s d n"
proof -
  have n: "8 * (n div 8) + n mod 8 = n" by simp
  have 1: "copy_words_up m d s (n div 8) = memmove_spec m s d (8 * (n div 8))"
    using assms n by (intro copy_words_up_memmove) linarith
  have 2: "copy_bytes_up m' (d + 8 * (n div 8)) (s + 8 * (n div 8)) (n mod 8) =
      memmove_spec m' (s + 8 * (n div 8)) (d + 8 * (n div 8)) (n mod 8)" for m'
    using assms n by (intro copy_bytes_up_memmove) linarith
  show ?thesis
    unfolding 1 2 using assms n by (subst memmove_spec_append_up) auto
qed

lemma words_then_bytes_down:
  assumes "s \<le> d"
  shows "copy_bytes_down (copy_words_down m (d + n) (s + n) (n div 8))
           (d + n - 8 * (n div 8)) (s + n - 8 * (n div 8)) (n mod 8)
       = memmove_spec m s d n"
proof -
  define r where "r = n mod 8"
  define w where "w = n div 8"
  have n: "n = r + 8 * w" by (simp add: r_def w_def)
  have 1: "copy_words_down m (d + n) (s + n) w = memmove_spec m (s + r) (d + r) (8 * w)"
    using copy_words_down_memmove [of "s + r" "d + r" w m] assms by (simp add: n add.assoc)
  have ends: "d + n - 8 * w = d + r" "s + n - 8 * w = s + r" by (simp_all add: n)
  have 2: "copy_bytes_down m' (d + r) (s + r) r = memmove_spec m' s d r" for m'
    using assms by (intro copy_bytes_down_memmove) simp
  have "memmove_spec (memmove_spec m (s + r) (d + r) (8 * w)) s d r = memmove_spec m s d n"
    unfolding n using assms by (intro memmove_spec_append_down) simp
  then show ?thesis
    unfolding r_def [symmetric] w_def [symmetric] ends 1 2 .
qed

lemma vcpy_memmove:
  assumes "d \<noteq> 0" and "src \<noteq> 0" and "d \<le> src \<or> src + n \<le> d"
  shows "vcpy m d src n = memmove_spec m src d n"
proof -
  have "copy_bytes_up m d src n = memmove_spec m src d n"
    using assms(3) by (rule copy_bytes_up_memmove)
  with words_then_bytes_up [OF assms(3), of m] assms(1,2) show ?thesis
    by (auto simp: vcpy_def Let_def)
qed

lemma bcpy_up_memmove:
  assumes "dst < src" and "0 < len"
  shows "bcpy_up m src dst len = memmove_spec m src dst len"
proof -
  define t where "t = (if (src OR dst) AND 7 \<noteq> 0
      then (if (src XOR dst) AND 7 \<noteq> 0 \<or> len < 8 then len else 8 - (src AND 7)) else 0)"
  have t: "t \<le> len"
    using bcpy_counts_positive(1) [OF assms(2), of src dst] by (auto simp: t_def)
  have 1: "copy_bytes_up m dst src t = memmove_spec m src dst t"
    using assms by (intro copy_bytes_up_memmove) simp
  have "bcpy_up m src dst len =
      memmove_spec (memmove_spec m src dst t) (src + t) (dst + t) (len - t)"
    unfolding bcpy_up_def Let_def t_def [symmetric] and_7_mod_8 [of "len - t"] 1
    using assms by (intro words_then_bytes_up) simp
  also have "\<dots> = memmove_spec m src dst len"
    using assms t by (simp add: memmove_spec_append_up)
  finally show ?thesis .
qed

lemma bcpy_down_memmove:
  assumes "src < dst" and "0 < len"
  shows "bcpy_down m src dst len = memmove_spec m src dst len"
proof -
  define t where "t = (if ((src + len) OR (dst + len)) AND 7 \<noteq> 0
      then (if ((src + len) XOR (dst + len)) AND 7 \<noteq> 0 \<or> len \<le> 8 then len else (src + len) AND 7) else 0)"
  have t: "t \<le> len"
    using bcpy_counts_positive(2) [OF assms(2), of "src + len" "dst + len"] by (auto simp: t_def)
  define l where "l = len - t"
  have len: "len = l + t" using t by (simp add: l_def)
  have ends: "src + len - t = src + l" "dst + len - t = dst + l"
    by (simp_all add: len)
  have 1: "copy_bytes_down m (dst + len) (src + len) t = memmove_spec m (src + l) (dst + l) t"
    using copy_bytes_down_memmove [of "src + l" "dst + l" t m] assms by (simp add: len add.assoc)
  have "bcpy_down m src dst len =
      memmove_spec (memmove_spec m (src + l) (dst + l) t) src dst l"
    unfolding bcpy_down_def Let_def t_def [symmetric] l_def [symmetric] ends 1 and_7_mod_8 [of l]
    using assms by (intro words_then_bytes_down) simp
  also have "\<dots> = memmove_spec m src dst len"
    unfolding len using assms by (intro memmove_spec_append_down) simp
  finally show ?thesis .
qed

lemma bcpy_memmove: "bcpy m src dst len = memmove_spec m src dst len"
  by (auto simp: bcpy_def bcpy_up_memmove bcpy_down_memmove)

section \<open>The optimised \<open>__mset\<close>\<close>

text \<open>
  The variant for targets without \<open>ARCH_SAFE_MEMSET\<close>: align to 16 bytes, then store a
  64-bit pattern twice per round, then the tail. \<open>c\<close> is an \<open>int\<close>; a byte store keeps
  its low 8 bits.
\<close>

fun fill_bytes :: "mem \<Rightarrow> nat \<Rightarrow> u8 \<Rightarrow> nat \<Rightarrow> mem" where
  "fill_bytes m xs c 0 = m"
| "fill_bytes m xs c (Suc n) = fill_bytes (m(xs := c)) (xs + 1) c n"

fun fill_words2 :: "mem \<Rightarrow> nat \<Rightarrow> u64 \<Rightarrow> nat \<Rightarrow> mem" where
  "fill_words2 m xs c 0 = m"
| "fill_words2 m xs c (Suc n) = fill_words2 (store64 (store64 m xs c) (xs + 8) c) (xs + 16) c n"

definition byte_pattern :: "u8 \<Rightarrow> u64" where
  "byte_pattern c =
     (let c0 = ucast c;
          c1 = c0 OR push_bit 8 c0;
          c2 = c1 OR push_bit 16 c1
      in c2 OR push_bit 32 c2)"

definition is_constant_byte :: "32 word \<Rightarrow> bool" where
  "is_constant_byte c \<longleftrightarrow> 0 = (c AND NOT 0xFF)"

definition mset_opt :: "mem \<Rightarrow> nat \<Rightarrow> 32 word \<Rightarrow> nat \<Rightarrow> mem" where
  "mset_opt m s c n =
     (if n = 0 then m
      else if is_constant_byte c then
        (if 16 \<le> n then
           (let align = (16 - (s AND 15)) AND 15;
                pre = (if 0 < align \<and> align \<le> n then align else 0);
                m1 = fill_bytes m s (ucast c) pre;
                xs = s + pre; n1 = n - pre;
                n16 = n1 div 16
            in if 0 < n16
               then fill_bytes (fill_words2 m1 xs (byte_pattern (ucast c)) n16)
                      (xs + 16 * n16) (ucast c) (n1 AND 15)
               else fill_bytes m1 xs (ucast c) n1)
         else fill_bytes m s (ucast c) n)
      else fill_bytes m s (ucast c) n)"

lemma memset_spec_0 [simp]: "memset_spec m s c 0 = m"
  by (rule ext) (auto simp: memset_spec_def)

lemma memset_spec_append:
  "memset_spec (memset_spec m s c a) (s + a) c b = memset_spec m s c (a + b)"
  by (rule ext) (auto simp: memset_spec_def)

lemma fill_bytes_memset: "fill_bytes m s c n = memset_spec m s c n"
proof (induction n arbitrary: m s)
  case (Suc n)
  have "m(s := c) = memset_spec m s c 1" by (rule ext) (auto simp: memset_spec_def)
  with Suc show ?case using memset_spec_append [of m s c 1 n] by simp
qed simp

lemma bit_double_pattern:
  fixes x :: u64
  assumes x: "\<And>k. bit x k \<longleftrightarrow> k < 8 * l \<and> bit c (k mod 8)" and "2 * (8 * l) \<le> 64"
  shows "bit (x OR push_bit (8 * l) x) k \<longleftrightarrow> k < 8 * (2 * l) \<and> bit c (k mod 8)"
proof -
  have "(k - 8 * l) mod 8 = k mod 8" if "8 * l \<le> k"
    by (metis le_add_diff_inverse mod_mult_self2 that add.commute)
  then show ?thesis
    using assms(2) by (auto simp: bit_or_iff bit_push_bit_iff x)
qed

lemma bit_byte_pattern: "bit (byte_pattern c) k \<longleftrightarrow> k < 64 \<and> bit c (k mod 8)"
proof -
  define c0 :: u64 where "c0 = ucast c"
  have 0: "bit c0 k \<longleftrightarrow> k < 8 * 1 \<and> bit c (k mod 8)" for k
    using bit_imp_le_length [of c k] by (cases "bit c k") (auto simp: c0_def bit_ucast_iff)
  define c1 where "c1 = c0 OR push_bit 8 c0"
  define c2 where "c2 = c1 OR push_bit 16 c1"
  have 1: "bit c1 k \<longleftrightarrow> k < 8 * 2 \<and> bit c (k mod 8)" for k
    using bit_double_pattern [OF 0] by (simp add: c1_def)
  have 2: "bit c2 k \<longleftrightarrow> k < 8 * 4 \<and> bit c (k mod 8)" for k
    using bit_double_pattern [OF 1] by (simp add: c2_def)
  have "bit (c2 OR push_bit 32 c2) k \<longleftrightarrow> k < 8 * 8 \<and> bit c (k mod 8)"
    using bit_double_pattern [OF 2] by simp
  then show ?thesis
    unfolding c0_def c1_def c2_def byte_pattern_def Let_def by simp
qed

lemma byte_pattern_byte:
  assumes "i < 8"
  shows "(ucast (drop_bit (8 * i) (byte_pattern c)) :: u8) = c"
proof (rule bit_word_eqI)
  fix n
  assume "n < LENGTH(8)"
  then have "n < 8" and "8 * i + n < 64" and "(8 * i + n) mod 8 = n" using assms by auto
  then show "bit (ucast (drop_bit (8 * i) (byte_pattern c)) :: u8) n = bit c n"
    by (simp add: bit_ucast_iff bit_drop_bit_eq bit_byte_pattern)
qed

lemma store64_pattern: "store64 m a (byte_pattern c) = memset_spec m a c 8"
  by (rule ext) (auto simp: store64_def memset_spec_def byte_pattern_byte)

lemma fill_words2_memset: "fill_words2 m s (byte_pattern c) n = memset_spec m s c (16 * n)"
proof (induction n arbitrary: m s)
  case (Suc n)
  have "store64 (store64 m s (byte_pattern c)) (s + 8) (byte_pattern c) = memset_spec m s c 16"
    using memset_spec_append [of m s c 8 8] by (simp add: store64_pattern)
  with Suc show ?case using memset_spec_append [of m s c 16 "16 * n"] by simp
qed simp

lemma mset_opt_memset: "mset_opt m s c n = memset_spec m s (ucast c) n"
proof -
  define pre where "pre = (let align = (16 - (s AND 15)) AND 15 in if 0 < align \<and> align \<le> n then align else 0)"
  have pre: "pre \<le> n" by (simp add: pre_def Let_def)
  define r where "r = n - pre"
  have n: "n = pre + r" using pre by (simp add: r_def)
  have r: "16 * (r div 16) + r mod 16 = r" by simp
  have whole: "memset_spec (memset_spec m s (ucast c) pre) (s + pre) (ucast c) r = memset_spec m s (ucast c) n"
    by (simp add: memset_spec_append n)
  have tail: "memset_spec (memset_spec m' (s + pre) (ucast c) (16 * (r div 16)))
      (s + pre + 16 * (r div 16)) (ucast c) (r mod 16) = memset_spec m' (s + pre) (ucast c) r" for m'
    by (simp add: memset_spec_append)
  show ?thesis
    unfolding mset_opt_def Let_def
    unfolding pre_def [unfolded Let_def, symmetric] r_def [symmetric] and_15_mod_16 [of r]
      fill_bytes_memset fill_words2_memset tail whole
    by simp
qed

section \<open>\<open>__vcmp\<close>\<close>

text \<open>
  Two byte sources (what the pointers \<open>s1\<close> and \<open>s2\<close> see from offset 0) and a length; the
  result is the difference of the first two bytes that differ, as an \<open>int\<close>.
\<close>

fun vcmp :: "(nat \<Rightarrow> u8) \<Rightarrow> (nat \<Rightarrow> u8) \<Rightarrow> nat \<Rightarrow> int" where
  "vcmp p1 p2 0 = 0"
| "vcmp p1 p2 (Suc n) =
     (if p1 0 \<noteq> p2 0 then uint (p1 0) - uint (p2 0)
      else vcmp (\<lambda>i. p1 (i + 1)) (\<lambda>i. p2 (i + 1)) n)"

lemma all_less_Suc_shift: "(\<forall>i < Suc n. P i) \<longleftrightarrow> P 0 \<and> (\<forall>i < n. P (i + 1))"
  by (metis Suc_eq_plus1 less_Suc_eq_0_disj Suc_less_eq)

lemma vcmp_first_difference:
  assumes "k < n" and "\<forall>i < k. p1 i = p2 i" and "p1 k \<noteq> p2 k"
  shows "vcmp p1 p2 n = uint (p1 k) - uint (p2 k)"
  using assms
proof (induction n arbitrary: p1 p2 k)
  case (Suc n)
  show ?case
  proof (cases k)
    case (Suc j)
    with Suc.prems Suc.IH [of j "\<lambda>i. p1 (i + 1)" "\<lambda>i. p2 (i + 1)"] show ?thesis
      by (auto simp: all_less_Suc_shift)
  qed (use Suc.prems in simp)
qed simp

lemma vcmp_0_iff: "vcmp p1 p2 n = 0 \<longleftrightarrow> (\<forall>i < n. p1 i = p2 i)"
proof (induction n arbitrary: p1 p2)
  case (Suc n)
  have "uint (p1 0) - uint (p2 0) = 0 \<longleftrightarrow> p1 0 = p2 0"
    unfolding word_uint_eq_iff by linarith
  then show ?case
    unfolding all_less_Suc_shift vcmp.simps using Suc.IH by presburger
qed simp

lemma vcmp_antisym: "vcmp p2 p1 n = - vcmp p1 p2 n"
proof (induction n arbitrary: p1 p2)
  case (Suc n)
  have "vcmp (\<lambda>i. p2 (i + 1)) (\<lambda>i. p1 (i + 1)) n = - vcmp (\<lambda>i. p1 (i + 1)) (\<lambda>i. p2 (i + 1)) n"
    by (rule Suc.IH)
  then show ?case by simp
qed simp

lemma vcmp_trans:
  "vcmp p q n \<le> 0 \<Longrightarrow> vcmp q r n \<le> 0 \<Longrightarrow> vcmp p r n \<le> 0"
proof (induction n arbitrary: p q r)
  case (Suc n)
  have ne: "x \<noteq> y \<longleftrightarrow> uint x < uint y \<or> uint y < uint x" for x y :: u8
    unfolding word_uint_eq_iff [of x y] by linarith
  show ?case
  proof (cases "p 0 = q 0 \<and> q 0 = r 0")
    case True
    with Suc.prems Suc.IH [of "\<lambda>i. p (i + 1)" "\<lambda>i. q (i + 1)" "\<lambda>i. r (i + 1)"]
    show ?thesis by simp
  next
    case False
    with Suc.prems have "uint (p 0) \<le> uint (q 0)" and "uint (q 0) \<le> uint (r 0)"
      by (auto split: if_splits)
    moreover from this False have "uint (p 0) < uint (r 0)"
      using ne [of "p 0" "q 0"] ne [of "q 0" "r 0"] by linarith
    ultimately show ?thesis using ne by auto
  qed
qed simp

section \<open>\<open>__vlen\<close>\<close>

text \<open>
  The word-at-a-time string length: a word in which some byte is zero has a non-zero
  \<open>va & vb\<close>; where it is non-zero the bytes are tested one by one, and a false alarm
  only costs the tests. The search for the first zero byte has no bound in the code: not
  returning is \<open>None\<close>.
\<close>

definition mask01 :: u64 where "mask01 = 0x0101010101010101"
definition mask80 :: u64 where "mask80 = 0x8080808080808080"

definition zero_hint :: "u64 \<Rightarrow> bool" where
  "zero_hint w \<longleftrightarrow> (let va = w - mask01; vb = (NOT w) AND mask80 in va AND vb \<noteq> 0)"

partial_function (option) vlen_loop :: "mem \<Rightarrow> nat \<Rightarrow> nat \<Rightarrow> nat option" where
  "vlen_loop m str lp =
     (case (if zero_hint (load64 m lp) then find (\<lambda>x. m (lp + x) = 0) [0..<8] else None) of
        Some x \<Rightarrow> Some (lp - str + x)
      | None \<Rightarrow> vlen_loop m str (lp + 8))"

definition vlen :: "mem \<Rightarrow> nat \<Rightarrow> nat option" where
  "vlen m str =
     (let lp = str - (str AND 7) in
      case (if zero_hint (load64 m lp) then find (\<lambda>p. m p = 0) [str..<lp + 8] else None) of
        Some p \<Rightarrow> Some (p - str)
      | None \<Rightarrow> vlen_loop m str (lp + 8))"

text \<open>Byte \<open>i\<close> of a number, and the number whose bytes below \<open>i\<close> are all one.\<close>

definition nbyte :: "nat \<Rightarrow> nat \<Rightarrow> nat" where
  "nbyte n i = n div 2 ^ (8 * i) mod 256"

primrec ones :: "nat \<Rightarrow> nat" where
  "ones 0 = 0"
| "ones (Suc i) = ones i + 2 ^ (8 * i)"

lemma mod_bytes_Suc: "n mod 2 ^ (8 * Suc i) = n mod 2 ^ (8 * i) + 2 ^ (8 * i) * nbyte n i"
proof -
  have "(2 :: nat) ^ (8 * Suc i) = 2 ^ (8 * i) * 256" by (simp add: power_add)
  then show ?thesis by (simp add: nbyte_def mod_mult2_eq)
qed

lemma ones_le_mod: "\<forall>j < i. nbyte n j \<noteq> 0 \<Longrightarrow> ones i \<le> n mod 2 ^ (8 * i)"
proof (induction i)
  case (Suc i)
  then have "nbyte n i \<noteq> 0" and IH: "ones i \<le> n mod 2 ^ (8 * i)" by auto
  then have "2 ^ (8 * i) \<le> 2 ^ (8 * i) * nbyte n i" by simp
  with IH show ?case unfolding mod_bytes_Suc ones.simps by (rule add_mono)
qed simp

lemma ones_less: "ones i < 2 ^ (8 * i)"
proof (induction i)
  case (Suc i)
  have "(2 :: nat) ^ (8 * Suc i) = 256 * 2 ^ (8 * i)" by (simp add: power_add)
  with Suc show ?case by simp
qed simp

lemma ones_mod: "k \<le> n \<Longrightarrow> ones n mod 2 ^ (8 * k) = ones k"
proof (induction n)
  case (Suc n)
  show ?case
  proof (cases "k = Suc n")
    case False
    with Suc.prems have "k \<le> n" by simp
    then have "(2 :: nat) ^ (8 * k) dvd 2 ^ (8 * n)" by (intro le_imp_power_dvd) simp
    then have "ones (Suc n) mod 2 ^ (8 * k) = ones n mod 2 ^ (8 * k)"
      by (auto elim!: dvdE)
    with Suc.IH \<open>k \<le> n\<close> show ?thesis by simp
  qed (use ones_less [of "Suc n"] in simp)
qed simp

lemma unat_mask01: "unat mask01 = ones 8"
proof -
  have "ones 8 = ones (Suc (Suc (Suc (Suc (Suc (Suc (Suc (Suc 0))))))))"
    by (rule arg_cong [where f = ones]) simp
  also have "\<dots> = 0x0101010101010101" unfolding ones.simps by simp
  finally show ?thesis by (simp add: mask01_def)
qed

lemma mask01_mod: "i < 8 \<Longrightarrow> unat mask01 mod 2 ^ (8 * Suc i) = ones i + 2 ^ (8 * i)"
  unfolding unat_mask01 by (subst ones_mod) auto

text \<open>A zero byte whose lower bytes are not zero leaves bit 7 of its byte set in \<open>w - mask01\<close>.\<close>

lemma sub_mask01_bit:
  fixes w :: u64
  assumes i: "i < 8" and z: "nbyte (unat w) i = 0" and low: "\<forall>j < i. nbyte (unat w) j \<noteq> 0"
  shows "bit (w - mask01) (8 * i + 7)"
proof -
  define k where "k = 8 * i + 7"
  define lo where "lo = int (unat w mod 2 ^ (8 * i))"
  define P :: int where "P = 2 ^ (8 * i)"
  have P: "2 ^ (8 * Suc i) = 256 * P" "0 < P" by (simp_all add: P_def power_add)
  have Pk: "2 ^ k = 128 * P" by (simp add: P_def k_def power_add)
  have int_mod: "uint x mod (256 * P) = int (unat x mod 2 ^ (8 * Suc i))" for x :: u64
    by (simp only: zmod_int of_nat_power of_nat_numeral uint_nat flip: P(1))
  have W: "uint w mod (256 * P) = lo"
    using mod_bytes_Suc [of "unat w" i] z unfolding int_mod lo_def by simp
  have M: "uint mask01 mod (256 * P) = int (ones i) + P"
    unfolding int_mod mask01_mod [OF i] by (simp add: P_def)
  have "lo < P" by (simp add: lo_def P_def zmod_int)
  moreover have "int (ones i) \<le> lo" using ones_le_mod [OF low] by (simp add: lo_def)
  ultimately have range: "0 \<le> lo - int (ones i) \<and> lo - int (ones i) < P" by simp
  define v where "v = 255 * P + (lo - int (ones i))"
  have "(uint w - uint mask01) mod (256 * P) = (lo - (int (ones i) + P)) mod (256 * P)"
    by (metis W M mod_diff_eq)
  also have "\<dots> = (v - 256 * P) mod (256 * P)" by (simp add: v_def algebra_simps)
  also have "\<dots> = v mod (256 * P)" by (rule minus_mod_self2)
  also have "\<dots> = v" using range P(2) unfolding v_def by (intro mod_pos_pos_trivial) linarith+
  finally have v: "take_bit (Suc k) (uint w - uint mask01) = v"
    by (simp add: take_bit_eq_mod Pk)
  have "v div 2 ^ k = 1"
    using range P(2) unfolding v_def Pk by (intro int_div_pos_eq [where r = "127 * P + (lo - int (ones i))"]) auto
  then have "bit v k" by (simp add: bit_iff_odd)
  then have *: "bit (uint w - uint mask01) k"
    unfolding v [symmetric] by (simp add: bit_take_bit_iff)
  have "w - mask01 = word_of_int (uint w - uint mask01)" by simp
  moreover have "k < 64" using i by (simp add: k_def)
  ultimately show ?thesis
    using * unfolding k_def [symmetric] by (simp only: bit_word_of_int_iff) simp
qed

lemma nbyte_load64:
  assumes "i < 8"
  shows "nbyte (unat (load64 m a)) i = unat (m (a + i))"
proof -
  have "unat (m (a + i)) = unat (ucast (drop_bit (8 * i) (load64 m a)) :: u8)"
    by (simp add: load64_byte assms)
  also have "\<dots> = nbyte (unat (load64 m a)) i"
    by (simp add: nbyte_def unsigned_ucast_eq unat_drop_bit_eq take_bit_eq_mod
        flip: drop_bit_eq_div [of "8 * i" "unat (load64 m a)"])
  finally show ?thesis by simp
qed

lemma zero_hint_complete:
  assumes "i < 8" and "m (a + i) = 0"
  shows "zero_hint (load64 m a)"
proof -
  define w where "w = load64 m a"
  have "\<exists>j \<le> i. nbyte (unat w) j = 0"
    using assms nbyte_load64 [of i m a] by (auto simp: w_def)
  then obtain j where j: "j \<le> i" "nbyte (unat w) j = 0" and low: "\<forall>l < j. nbyte (unat w) l \<noteq> 0"
    using exists_least_iff [of "\<lambda>j. nbyte (unat w) j = 0"]
    by (metis le_trans linorder_not_less order_less_imp_le)
  have 1: "bit (w - mask01) (8 * j + 7)"
    using j low assms(1) by (intro sub_mask01_bit) auto
  have "\<not> bit w (8 * j + 7)"
    using j assms(1) nbyte_load64 [of j m a]
    by (auto simp: w_def bit_load64 unat_eq_zero)
  moreover have "bit mask80 (8 * j + 7)"
  proof -
    have "j \<in> {0, 1, 2, 3, 4, 5, 6, 7}" using j(1) assms(1) by auto
    then show ?thesis by (auto simp: mask80_def)
  qed
  ultimately have "bit ((w - mask01) AND (NOT w AND mask80)) (8 * j + 7)"
    using 1 j(1) assms(1) by (simp add: bit_and_iff bit_not_iff)
  then show ?thesis by (auto simp: zero_hint_def Let_def simp flip: w_def)
qed

text \<open>A C string of length \<open>k\<close> at an address: the first zero byte is at offset \<open>k\<close>.\<close>

definition cstr :: "mem \<Rightarrow> nat \<Rightarrow> nat \<Rightarrow> bool" where
  "cstr m s k \<longleftrightarrow> (\<forall>j < k. m (s + j) \<noteq> 0) \<and> m (s + k) = 0"

lemma cstr_Suc: "cstr m s (Suc k) \<longleftrightarrow> m s \<noteq> 0 \<and> cstr m (s + 1) k"
  unfolding cstr_def all_less_Suc_shift by simp

lemma cstr_0: "cstr m s 0 \<longleftrightarrow> m s = 0"
  by (simp add: cstr_def)

lemma find_upt_first:
  assumes "a \<le> i" and "i < b" and "P i" and "\<forall>j. a \<le> j \<and> j < i \<longrightarrow> \<not> P j"
  shows "find P [a..<b] = Some i"
proof -
  have "i - a < length [a..<b]" and "[a..<b] ! (i - a) = i"
    using assms(1,2) by auto
  moreover have "\<not> P ([a..<b] ! j)" if "j < i - a" for j
    using assms that by (auto simp: nth_upt)
  ultimately show ?thesis
    unfolding find_Some_iff using assms(3) by (intro exI [of _ "i - a"]) auto
qed

lemma vlen_loop_cstr:
  assumes "cstr m str k" and "str \<le> lp" and "lp \<le> str + k"
  shows "vlen_loop m str lp = Some k"
  using assms(2,3)
proof (induction "str + k - lp" arbitrary: lp rule: less_induct)
  case less
  have nz: "m (lp + x) \<noteq> 0" if "lp + x < str + k" for x
    using assms(1) that less.prems unfolding cstr_def
    by (metis le_add_diff_inverse less_diff_conv2 add.assoc nat_add_left_cancel_less)
  have z: "m (str + k) = 0" using assms(1) by (simp add: cstr_def)
  show ?case
  proof (cases "str + k < lp + 8")
    case True
    define x where "x = str + k - lp"
    have x: "x < 8" "lp + x = str + k" using True less.prems by (simp_all add: x_def)
    have "zero_hint (load64 m lp)"
      using x z by (intro zero_hint_complete [of x]) auto
    moreover have "find (\<lambda>x. m (lp + x) = 0) [0..<8] = Some x"
      using x z nz by (intro find_upt_first) auto
    ultimately show ?thesis
      using x less.prems by (subst vlen_loop.simps) auto
  next
    case False
    have "find (\<lambda>x. m (lp + x) = 0) [0..<8] = None"
      using False nz by (auto simp: find_None_iff)
    then have "vlen_loop m str lp = vlen_loop m str (lp + 8)"
      by (subst vlen_loop.simps) simp
    also have "\<dots> = Some k" using False less.prems by (intro less.hyps) auto
    finally show ?thesis .
  qed
qed

lemma vlen_cstr:
  assumes "cstr m str k"
  shows "vlen m str = Some k"
proof -
  define lp where "lp = str - (str AND 7)"
  have lp: "lp \<le> str" "str < lp + 8"
    using mod_less_divisor [of 8 str] mod_less_eq_dividend [of str 8]
    unfolding lp_def and_7_mod_8 by linarith+
  have nz: "m p \<noteq> 0" if "str \<le> p" "p < str + k" for p
    using assms that unfolding cstr_def by (metis le_add_diff_inverse nat_add_left_cancel_less)
  have z: "m (str + k) = 0" using assms by (simp add: cstr_def)
  show ?thesis
  proof (cases "str + k < lp + 8")
    case True
    have "m (lp + (str + k - lp)) = 0" using z lp by simp
    then have "zero_hint (load64 m lp)"
      using True lp by (intro zero_hint_complete [of "str + k - lp"]) auto
    moreover have "find (\<lambda>p. m p = 0) [str..<lp + 8] = Some (str + k)"
      using True z nz by (intro find_upt_first) auto
    ultimately show ?thesis by (simp add: vlen_def Let_def flip: lp_def)
  next
    case False
    have "find (\<lambda>p. m p = 0) [str..<lp + 8] = None"
      using False nz by (auto simp: find_None_iff)
    then have "vlen m str = vlen_loop m str (lp + 8)"
      by (simp add: vlen_def Let_def flip: lp_def)
    also have "\<dots> = Some k" using False lp by (intro vlen_loop_cstr [OF assms]) auto
    finally show ?thesis .
  qed
qed

section \<open>\<open>strlcpy\<close>\<close>

text \<open>
  The first loop of \<open>strlcpy\<close>: \<open>while (--nleft != 0) if ((*dst++ = *src++) == 0) break;\<close>,
  entered with \<open>nleft\<close> not 0. The result is memory, \<open>dst\<close>, \<open>src\<close> and \<open>nleft\<close>.
\<close>

function strlcpy_copy :: "mem \<Rightarrow> nat \<Rightarrow> nat \<Rightarrow> nat \<Rightarrow> mem \<times> nat \<times> nat \<times> nat" where
  "strlcpy_copy m d s nleft =
     (if nleft - 1 = 0 then (m, d, s, 0)
      else let m' = m(d := m s) in
           if m s = 0 then (m', d + 1, s + 1, nleft - 1)
           else strlcpy_copy m' (d + 1) (s + 1) (nleft - 1))"
  by pat_completeness auto
termination
  by (relation "measure (\<lambda>(m, d, s, n). n)") auto

declare strlcpy_copy.simps [simp del]

text \<open>\<open>while (*src++);\<close>: the address after the first zero byte.\<close>

partial_function (option) skip_nul :: "mem \<Rightarrow> nat \<Rightarrow> nat option" where
  "skip_nul m s = (if m s \<noteq> 0 then skip_nul m (s + 1) else Some (s + 1))"

definition strlcpy :: "mem \<Rightarrow> nat \<Rightarrow> nat \<Rightarrow> nat \<Rightarrow> (mem \<times> nat) option" where
  "strlcpy m dst src dsize =
     (let (m1, d1, s1, nleft) = (if dsize \<noteq> 0 then strlcpy_copy m dst src dsize else (m, dst, src, dsize))
      in if nleft = 0
         then let m2 = (if dsize \<noteq> 0 then m1(d1 := 0) else m1)
              in map_option (\<lambda>s2. (m2, s2 - src - 1)) (skip_nul m2 s1)
         else Some (m1, s1 - src - 1))"

lemma skip_nul_cstr: "cstr m s k \<Longrightarrow> skip_nul m s = Some (s + k + 1)"
proof (induction k arbitrary: s)
  case 0
  then show ?case by (subst skip_nul.simps) (simp add: cstr_0)
next
  case (Suc k)
  then show ?case by (subst skip_nul.simps) (simp add: cstr_Suc)
qed

lemma cstr_frame: "cstr m s k \<Longrightarrow> d < s \<or> s + k < d \<Longrightarrow> cstr (m(d := c)) s k"
  by (auto simp: cstr_def)

lemma strlcpy_copy_cstr:
  assumes "cstr m s k" and "0 < n" and "d + n \<le> s \<or> s + k < d"
  shows "strlcpy_copy m d s n =
    (if k + 1 < n then (memmove_spec m s d (k + 1), d + k + 1, s + k + 1, n - (k + 1))
     else (memmove_spec m s d (n - 1), d + n - 1, s + n - 1, 0))"
  using assms
proof (induction k arbitrary: m d s n)
  case 0
  then show ?case
    by (subst strlcpy_copy.simps) (auto simp: cstr_0 Let_def memmove_spec_Suc_0)
next
  case (Suc k)
  show ?case
  proof (cases "n = 1")
    case True
    then show ?thesis by (subst strlcpy_copy.simps) simp
  next
    case False
    with Suc.prems have n: "1 < n" and s: "m s \<noteq> 0" "cstr m (s + 1) k" by (simp_all add: cstr_Suc)
    define m' where "m' = m(d := m s)"
    have mv: "memmove_spec m' (s + 1) (d + 1) b = memmove_spec m s d (1 + b)" if "b \<le> k + 1" "b < n" for b
      using memmove_spec_append_up [of d s 1 b m] Suc.prems(3) that
      by (auto simp: m'_def memmove_spec_1)
    have "cstr m' (s + 1) k"
      using s(2) Suc.prems(3) n by (auto simp: m'_def intro!: cstr_frame)
    then have "strlcpy_copy m' (d + 1) (s + 1) (n - 1) =
      (if k + 1 < n - 1 then (memmove_spec m' (s + 1) (d + 1) (k + 1), d + 1 + k + 1, s + 1 + k + 1, n - 1 - (k + 1))
       else (memmove_spec m' (s + 1) (d + 1) (n - 1 - 1), d + 1 + (n - 1) - 1, s + 1 + (n - 1) - 1, 0))"
      using Suc.prems n by (intro Suc.IH) auto
    moreover have "strlcpy_copy m d s n = strlcpy_copy m' (d + 1) (s + 1) (n - 1)"
      using n s(1) by (subst strlcpy_copy.simps) (simp add: m'_def Let_def)
    ultimately show ?thesis
      using n mv [of "k + 1"] mv [of "n - 1 - 1"] Suc_diff_Suc [of 1 n] by (auto simp: numeral_2_eq_2)
  qed
qed

text \<open>\<open>strlcpy\<close> returns the source length, writes at most \<open>dsize\<close> bytes and always terminates
  the copy: with a buffer that does not overlap the string, the first \<open>min k (dsize - 1)\<close>
  characters are copied, a zero byte follows them, every other byte is unchanged; with
  \<open>dsize = 0\<close> nothing is written.\<close>

lemma strlcpy_cstr:
  assumes "cstr m src k" and "dst + dsize \<le> src \<or> src + k < dst"
  shows "strlcpy m dst src dsize =
    Some (if dsize = 0 then m
          else (memmove_spec m src dst (min k (dsize - 1)))(dst + min k (dsize - 1) := 0), k)"
proof (cases "dsize = 0")
  case True
  with skip_nul_cstr [OF assms(1)] show ?thesis by (simp add: strlcpy_def)
next
  case False
  note copy = strlcpy_copy_cstr [OF assms(1) _ assms(2)]
  show ?thesis
  proof (cases "k + 1 < dsize")
    case True
    have "memmove_spec m src dst (k + 1) = (memmove_spec m src dst k)(dst + k := 0)"
      using assms(1) by (intro ext) (auto simp: memmove_spec_def cstr_def)
    moreover have "min k (dsize - 1) = k" using True by simp
    ultimately show ?thesis using True False copy by (simp add: strlcpy_def)
  next
    case k: False
    define n where "n = dsize - 1"
    define m2 where "m2 = (memmove_spec m src dst n)(dst + n := 0)"
    have n: "n \<le> k" "dst + n < src \<or> src + k < dst" using assms(2) k False by (auto simp: n_def)
    then have frame: "m2 (src + n + j) = m (src + (n + j))" if "n + j \<le> k" for j
      using that by (auto simp: m2_def memmove_spec_def add.assoc)
    have "cstr m2 (src + n) (k - n)"
      using assms(1) n(1) frame [of "k - n"] frame by (auto simp: cstr_def)
    then have "skip_nul m2 (src + n) = Some (src + k + 1)"
      using skip_nul_cstr [of m2 "src + n" "k - n"] k by (simp add: n_def)
    moreover have "min k (dsize - 1) = n" using n(1) by (simp add: n_def)
    ultimately show ?thesis using False k copy
      by (simp add: strlcpy_def m2_def n_def)
  qed
qed

section \<open>Properties\<close>

text \<open>C20: \<open>__bcpy\<close> is \<open>memmove\<close>: for every source, destination (overlapping or not, in either
  direction, at any alignment) and length, the destination bytes become the bytes the source held
  before the call and no other byte changes.\<close>

theorem bcpy_is_memmove: "bcpy m src dst len = memmove_spec m src dst len"
  by (rule bcpy_memmove)

text \<open>\<open>__vcpy\<close> is \<open>memcpy\<close>: for non-null arguments whose regions do not overlap (or overlap with
  the destination below the source) it copies exactly the bytes asked for, on the aligned word
  path and on the byte path.\<close>

lemma vcpy_is_memcpy:
  assumes "d \<noteq> 0" and "src \<noteq> 0" and "d \<le> src \<or> src + n \<le> d"
  shows "vcpy m d src n = memmove_spec m src d n"
  using assms by (rule vcpy_memmove)

text \<open>C19: \<open>__vlen\<close> is \<open>strlen\<close>, and it returns: on a string whose first zero byte is at offset \<open>k\<close>
  the word-at-a-time scan stops and returns \<open>k\<close>, at any alignment, whatever bytes precede or
  follow the string.\<close>

theorem vlen_is_strlen:
  assumes "cstr m str k"
  shows "vlen m str = Some k"
  using assms by (rule vlen_cstr)

theorem vlen_is_strlen_witness:
  "vlen (\<lambda>a. if a = 13 then 0 else 0x80) 5 = Some 8"
  by (rule vlen_is_strlen) (simp add: cstr_def)

end
