(* ===== verification/Orbit_Crc.thy ===== *)
theory Orbit_Crc
  imports Orbit_Prelude
begin

text \<open>
  The CRC-32 of \<^verbatim>\<open>src/include/funcs.h\<close>, with which the parser detects that the configuration
  file changed: the table generator \<open>generate_crc32_table\<close>, the checksum of a buffer
  \<open>crc32_buffer\<close> and the checksum of a file read in chunks \<open>crc32_file\<close>.

  The reference is the bit-serial register \<open>crc_bits\<close>: eight rounds of the reflected polynomial
  per byte. The lemmas show that one round is linear and injective, that a table step is eight
  rounds, and from these that the table-driven checksum is the bit-serial one, that reading in
  chunks does not matter, and that replacing a run of at most four bytes always changes the checksum.
\<close>

section \<open>The code\<close>

definition crc_poly :: u32 where "crc_poly = 0xEDB88320"

text \<open>\<open>crc = (crc & 1) ? (crc >> 1) ^ poly : crc >> 1\<close>\<close>

definition crc_round :: "u32 \<Rightarrow> u32" where
  "crc_round crc = (if crc AND 1 \<noteq> 0 then drop_bit 1 crc XOR crc_poly else drop_bit 1 crc)"

fun crc_rounds :: "nat \<Rightarrow> u32 \<Rightarrow> u32" where
  "crc_rounds 0 crc = crc"
| "crc_rounds (Suc j) crc = crc_rounds j (crc_round crc)"

text \<open>The static \<open>crc32_table\<close>: all zero until \<open>generate_crc32_table\<close> has run.\<close>

definition crc32_table_init :: "u32 list" where
  "crc32_table_init = replicate 256 0"

definition generate_crc32_table :: "u32 list" where
  "generate_crc32_table = map (\<lambda>i. crc_rounds 8 (of_nat i)) [0..<256]"

definition crc_step :: "u32 list \<Rightarrow> u32 \<Rightarrow> u8 \<Rightarrow> u32" where
  "crc_step table crc b = drop_bit 8 crc XOR table ! unat ((crc XOR ucast b) AND 0xFF)"

fun crc_loop :: "u32 list \<Rightarrow> u32 \<Rightarrow> u8 list \<Rightarrow> u32" where
  "crc_loop table crc [] = crc"
| "crc_loop table crc (b # bs) = crc_loop table (crc_step table crc b) bs"

definition crc32_buffer :: "u32 list \<Rightarrow> u8 list \<Rightarrow> u32" where
  "crc32_buffer table data = crc_loop table 0xFFFFFFFF data XOR 0xFFFFFFFF"

text \<open>
  \<open>crc32_file\<close>: the file is \<open>None\<close> where \<open>fopen\<close> fails, otherwise the successive results of
  \<open>fread\<close> into the 1024-byte buffer; the loop ends at the first empty read.
\<close>

fun crc_chunks :: "u32 list \<Rightarrow> u32 \<Rightarrow> u8 list list \<Rightarrow> u32" where
  "crc_chunks table crc [] = crc"
| "crc_chunks table crc (c # cs) = (if length c = 0 then crc else crc_chunks table (crc_loop table crc c) cs)"

definition crc32_file :: "u32 list \<Rightarrow> u8 list list option \<Rightarrow> u32" where
  "crc32_file table f =
     (case f of None \<Rightarrow> 0 | Some chunks \<Rightarrow> crc_chunks table 0xFFFFFFFF chunks XOR 0xFFFFFFFF)"

section \<open>The bit-serial reference\<close>

fun crc_bits :: "u32 \<Rightarrow> u8 list \<Rightarrow> u32" where
  "crc_bits crc [] = crc"
| "crc_bits crc (b # bs) = crc_bits (crc_rounds 8 (crc XOR ucast b)) bs"

section \<open>One round is linear and injective\<close>

lemma and_1_ne_0: "x AND 1 \<noteq> (0 :: u32) \<longleftrightarrow> bit x 0"
  by (metis and_one_eq bit_0 of_bool_eq_0_iff odd_iff_mod_2_eq_one parity_cases zero_neq_one)

lemma crc_round_bit: "crc_round x = (if bit x 0 then drop_bit 1 x XOR crc_poly else drop_bit 1 x)"
  by (simp only: crc_round_def and_1_ne_0)

lemma crc_round_xor: "crc_round (x XOR y) = crc_round x XOR crc_round y"
  by (cases "bit x 0"; cases "bit y 0")
    (simp_all add: crc_round_bit bit_xor_iff drop_bit_xor xor.assoc xor.left_commute xor.commute)

lemma crc_rounds_xor: "crc_rounds n (x XOR y) = crc_rounds n x XOR crc_rounds n y"
  by (induction n arbitrary: x y) (simp_all add: crc_round_xor)

lemma crc_rounds_drop: "(\<forall>i < n. \<not> bit x i) \<Longrightarrow> crc_rounds n x = drop_bit n x"
proof (induction n arbitrary: x)
  case (Suc n)
  then have "crc_round x = drop_bit 1 x" by (simp add: crc_round_bit)
  moreover have "\<forall>i < n. \<not> bit (drop_bit 1 x) i" using Suc.prems by (auto simp: bit_drop_bit_eq)
  ultimately show ?case using Suc.IH [of "drop_bit 1 x"] by (simp add: drop_bit_drop_bit)
qed simp

lemma crc_round_inj: "crc_round x = crc_round y \<Longrightarrow> x = y"
proof -
  assume eq: "crc_round x = crc_round y"
  have top: "bit (crc_round z) 31 \<longleftrightarrow> bit z 0" for z
    by (auto simp: crc_round_bit bit_xor_iff bit_drop_bit_eq crc_poly_def dest: bit_imp_le_length)
  have low: "bit x 0 \<longleftrightarrow> bit y 0" using eq top by metis
  have "drop_bit 1 x = drop_bit 1 y"
    using eq low by (simp add: crc_round_bit split: if_splits)
  then have "bit x (Suc n) \<longleftrightarrow> bit y (Suc n)" for n
    by (metis bit_drop_bit_eq comp_apply plus_1_eq_Suc)
  with low have "bit x n \<longleftrightarrow> bit y n" for n by (cases n) auto
  then show "x = y" by (intro bit_word_eqI) simp
qed

lemma crc_rounds_inj: "crc_rounds n x = crc_rounds n y \<Longrightarrow> x = y"
  by (induction n arbitrary: x y) (auto dest: crc_round_inj)

section \<open>A table step is eight rounds\<close>

lemma crc_table_nth: "i < 256 \<Longrightarrow> generate_crc32_table ! i = crc_rounds 8 (of_nat i)"
  by (simp add: generate_crc32_table_def)

lemma bit_0xFF: "bit (0xFF :: u32) i \<longleftrightarrow> i < 8"
proof -
  have m: "(0xFF :: u32) = mask 8" by (simp add: mask_eq_exp_minus_1)
  show ?thesis unfolding m bit_mask_iff by auto
qed

lemma crc_step_rounds: "crc_step generate_crc32_table crc b = crc_rounds 8 (crc XOR ucast b)"
proof -
  define x :: u32 where "x = crc XOR ucast b"
  define hi where "hi = x AND NOT 0xFF"
  have "unat (x AND 0xFF) \<le> unat (0xFF :: u32)"
    by (intro word_le_nat_alt [THEN iffD1] word_and_le1)
  then have lo: "generate_crc32_table ! unat (x AND 0xFF) = crc_rounds 8 (x AND 0xFF)"
    by (simp add: crc_table_nth)
  have "x = hi XOR (x AND 0xFF)"
    by (rule bit_word_eqI) (auto simp: hi_def bit_simps bit_0xFF)
  then have "crc_rounds 8 x = crc_rounds 8 hi XOR crc_rounds 8 (x AND 0xFF)"
    by (metis crc_rounds_xor)
  also have "crc_rounds 8 hi = drop_bit 8 hi"
    by (rule crc_rounds_drop) (simp only: hi_def bit_and_iff bit_not_iff bit_0xFF, simp)
  also have "drop_bit 8 hi = drop_bit 8 crc"
    unfolding hi_def x_def
    by (rule bit_word_eqI, unfold bit_drop_bit_eq comp_def bit_and_iff bit_not_iff bit_0xFF bit_xor_iff)
      (auto simp: bit_ucast_iff dest: bit_imp_le_length)
  finally show ?thesis
    by (simp add: crc_step_def lo flip: x_def)
qed

lemma crc_loop_bits: "crc_loop generate_crc32_table crc bs = crc_bits crc bs"
  by (induction bs arbitrary: crc) (simp_all add: crc_step_rounds)

lemma crc_bits_append: "crc_bits crc (xs @ ys) = crc_bits (crc_bits crc xs) ys"
  by (induction xs arbitrary: crc) simp_all

lemma crc_bits_inj: "crc_bits c bs = crc_bits d bs \<Longrightarrow> c = d"
proof (induction bs arbitrary: c d)
  case (Cons b bs)
  then have "crc_bits (crc_rounds 8 (c XOR ucast b)) bs = crc_bits (crc_rounds 8 (d XOR ucast b)) bs"
    by (simp only: crc_bits.simps)
  then have "crc_rounds 8 (c XOR ucast b) = crc_rounds 8 (d XOR ucast b)"
    by (rule Cons.IH)
  from crc_rounds_inj [OF this] show ?case by simp
qed simp

lemma crc_chunks_concat:
  "\<forall>c \<in> set cs. c \<noteq> [] \<Longrightarrow> crc_chunks table crc cs = crc_loop table crc (concat cs)"
proof (induction cs arbitrary: crc)
  case (Cons c cs)
  have "crc_loop table crc (xs @ ys) = crc_loop table (crc_loop table crc xs) ys" for crc xs ys
    by (induction xs arbitrary: crc) simp_all
  with Cons show ?case by simp
qed simp

section \<open>Properties\<close>

text \<open>C21: The table-driven checksum is the bit-serial CRC-32 (reflected polynomial 0xEDB88320, all-ones
  start, complemented result), for every buffer, once \<open>generate_crc32_table\<close> has run.\<close>

theorem crc32_buffer_is_bit_serial:
  "crc32_buffer generate_crc32_table data = crc_bits 0xFFFFFFFF data XOR 0xFFFFFFFF"
  by (simp add: crc32_buffer_def crc_loop_bits)

lemma crc32_file_split:
  assumes "\<forall>c \<in> set cs. c \<noteq> []"
  shows "crc32_file table (Some (cs @ [] # rest)) = crc32_buffer table (concat cs)"
proof -
  have "crc_chunks table crc (cs @ [] # rest) = crc_chunks table crc cs" for crc
    using assms by (induction cs arbitrary: crc) auto
  with crc_chunks_concat [OF assms] show ?thesis by (simp add: crc32_file_def crc32_buffer_def)
qed

text \<open>
  A run of at most four bytes enters the register as one word: the little-endian value of the run is
  added to the register, which is then shifted through all its bits.
\<close>

fun le_word :: "u8 list \<Rightarrow> u32" where
  "le_word [] = 0"
| "le_word (b # bs) = ucast b XOR push_bit 8 (le_word bs)"

lemma le_word_bit: "i < 32 \<Longrightarrow> bit (le_word bs) i \<longleftrightarrow> i div 8 < length bs \<and> bit (bs ! (i div 8)) (i mod 8)"
proof (induction bs arbitrary: i)
  case (Cons b bs)
  show ?case
  proof (cases "i < 8")
    case True
    then show ?thesis using Cons.prems by (simp add: bit_simps)
  next
    case False
    then have "i div 8 = Suc ((i - 8) div 8)" "(i - 8) mod 8 = i mod 8"
      by (simp_all add: le_div_geq le_mod_geq not_less)
    then show ?thesis using False Cons.prems Cons.IH [of "i - 8"]
      by (auto simp: bit_simps not_less dest: bit_imp_le_length)
  qed
qed simp

lemma le_word_inj:
  assumes "le_word bs = le_word bs'" and "length bs = length bs'" and "length bs \<le> 4"
  shows "bs = bs'"
proof (rule nth_equalityI [OF assms(2)])
  fix k assume k: "k < length bs"
  show "bs ! k = bs' ! k"
  proof (rule bit_word_eqI)
    fix n assume "n < LENGTH(8)"
    then have "(8 * k + n) div 8 = k" "(8 * k + n) mod 8 = n" "8 * k + n < 32"
      using k assms(3) by simp_all
    then have "bit (le_word cs) (8 * k + n) \<longleftrightarrow> bit (cs ! k) n" if "length cs = length bs" for cs
      using le_word_bit [of "8 * k + n" cs] that k by metis
    from this [of bs] this [of bs'] show "bit (bs ! k) n \<longleftrightarrow> bit (bs' ! k) n"
      using assms(1,2) by simp
  qed
qed

lemma crc_rounds_add: "crc_rounds (m + n) x = crc_rounds n (crc_rounds m x)"
  by (induction m arbitrary: x) simp_all

lemma crc_bits_word: "length bs \<le> 4 \<Longrightarrow> crc_bits c bs = crc_rounds (8 * length bs) (c XOR le_word bs)"
proof (induction bs arbitrary: c)
  case (Cons b bs)
  have "\<forall>i < 8. \<not> bit (push_bit 8 (le_word bs)) i" by (simp add: bit_push_bit_iff)
  then have "crc_rounds 8 (push_bit 8 (le_word bs)) = drop_bit 8 (push_bit 8 (le_word bs))"
    by (rule crc_rounds_drop)
  also have "\<dots> = le_word bs"
  proof (rule bit_word_eqI)
    fix n assume "n < LENGTH(32)"
    moreover have "\<not> bit (le_word bs) n" if "24 \<le> n" "n < 32"
      using that Cons.prems by (auto simp: le_word_bit)
    ultimately show "bit (drop_bit 8 (push_bit 8 (le_word bs))) n \<longleftrightarrow> bit (le_word bs) n"
      by (cases "n < 24") (auto simp: bit_drop_bit_eq bit_push_bit_iff)
  qed
  finally have "crc_rounds 8 (c XOR le_word (b # bs)) = crc_rounds 8 (c XOR ucast b) XOR le_word bs"
    by (simp add: crc_rounds_xor xor.assoc [symmetric])
  then show ?case using Cons.IH [of "crc_rounds 8 (c XOR ucast b)"] Cons.prems
    by (simp add: crc_rounds_add [of 8])
qed simp

lemma crc32_burst_differs:
  assumes "ms \<noteq> ms'" and "length ms = length ms'" and "length ms \<le> 4"
  shows "crc32_buffer generate_crc32_table (xs @ ms @ ys) \<noteq> crc32_buffer generate_crc32_table (xs @ ms' @ ys)"
proof
  assume "crc32_buffer generate_crc32_table (xs @ ms @ ys) = crc32_buffer generate_crc32_table (xs @ ms' @ ys)"
  then have "crc_bits 0xFFFFFFFF (xs @ ms @ ys) = crc_bits 0xFFFFFFFF (xs @ ms' @ ys)"
    unfolding crc32_buffer_def crc_loop_bits by simp
  from crc_bits_inj [OF this [unfolded crc_bits_append]]
  have "crc_rounds (8 * length ms) (crc_bits 0xFFFFFFFF xs XOR le_word ms) =
      crc_rounds (8 * length ms) (crc_bits 0xFFFFFFFF xs XOR le_word ms')"
    using assms by (simp add: crc_bits_word)
  from crc_rounds_inj [OF this] have "le_word ms = le_word ms'" by simp
  with assms le_word_inj show False by blast
qed

text \<open>Four bytes are the limit: a run of five can be exchanged without a trace.\<close>

lemma crc32_five_bytes_collide:
  "crc32_buffer generate_crc32_table [0, 0, 0, 0, 0] = crc32_buffer generate_crc32_table [0x41, 0x06, 0x71, 0xDB, 0x01]"
  unfolding crc32_buffer_def crc_loop_bits by code_simp

text \<open>C22: Every edit of a file that replaces a run of at most four bytes by a different run of the same
  length changes its checksum, wherever the run is and whatever surrounds it, so
  \<open>parser_reload_config\<close> never misses one. A run of five bytes can be replaced without a trace.\<close>

theorem crc32_detects_burst:
  assumes "ms \<noteq> ms'" and "length ms = length ms'" and "length ms \<le> 4"
  shows "crc32_buffer generate_crc32_table (xs @ ms @ ys) \<noteq> crc32_buffer generate_crc32_table (xs @ ms' @ ys) \<and>
     crc32_buffer generate_crc32_table [0, 0, 0, 0, 0] = crc32_buffer generate_crc32_table [0x41, 0x06, 0x71, 0xDB, 0x01]"
  using crc32_burst_differs [OF assms] crc32_five_bytes_collide by blast

theorem crc32_detects_burst_witness:
  "crc32_buffer generate_crc32_table ([0x41] @ [0x31, 0x30] @ [0x42]) \<noteq> crc32_buffer generate_crc32_table ([0x41] @ [0x32, 0x39] @ [0x42])"
  using crc32_detects_burst [of "[0x31, 0x30]" "[0x32, 0x39]" "[0x41]" "[0x42]"] by simp

end
