(* ===== verification/Orbit_Types.thy ===== *)
theory Orbit_Types
  imports Orbit_Mem "HOL-Library.Product_Lexorder" "HOL-Library.List_Lexorder"
begin

text \<open>
  The data model of \<^verbatim>\<open>src/include/enums.h\<close>, \<^verbatim>\<open>src/include/structs.h\<close> and
  \<^verbatim>\<open>src/include/mtu_config.h\<close>, and the small functions over it in
  \<^verbatim>\<open>src/include/funcs.h\<close> and \<^verbatim>\<open>src/include/maps\<close>: the order \<open>node_cmp\<close>, the accessors of
  the protocol union, \<open>link_session_ports\<close>, \<open>update_session_counter\<close> and the field-by-field
  mappers.

  A \<open>struct\<close> is a record whose fields carry a short prefix (\<open>nd_\<close>, \<open>rm_\<close>, \<open>cb_\<close>, \<open>sp_\<close>,
  \<open>sc_\<close>, \<open>cfg_\<close>). Socket addresses are byte lists in their C layout: \<open>struct sockaddr\<close> has 16
  bytes with the IPv4 address at offset 4, \<open>struct sockaddr_in6\<close> 28 bytes with the IPv6 address
  at offset 8. The two structures of \<open>union protocol_base_cb\<close> share one record: the code reads
  a member of the union only after testing the common tag \<open>proto\<close>, and the two layouts agree on
  the fields both have. A pointer to a \<open>struct node\<close> is an index of the TCP node pool, a pointer
  to a protocol union a \<open>cb_ptr\<close>; both are resolved in an explicit \<open>heap\<close>.
\<close>

section \<open>Configuration constants\<close>

definition DEFAULT_MTU :: nat where "DEFAULT_MTU = 1500"
definition MAX_HEADER_OVERHEAD :: nat where "MAX_HEADER_OVERHEAD = 80"
definition VALUE_BUFFER_SIZE :: nat where "VALUE_BUFFER_SIZE = DEFAULT_MTU - MAX_HEADER_OVERHEAD"
definition VALUE_OUTPUT_SIZE :: nat where "VALUE_OUTPUT_SIZE = 6"
definition VALUE_OUTPUT_BUFFER_SIZE :: nat where
  "VALUE_OUTPUT_BUFFER_SIZE = VALUE_BUFFER_SIZE * VALUE_OUTPUT_SIZE"

lemmas mtu_defs = DEFAULT_MTU_def MAX_HEADER_OVERHEAD_def VALUE_BUFFER_SIZE_def
  VALUE_OUTPUT_SIZE_def VALUE_OUTPUT_BUFFER_SIZE_def

section \<open>Enumerations\<close>

datatype proto_t = proto_none_t | proto_udp_t | proto_tcp_t

datatype proto_arr_t = proto_arr_udp_t | proto_arr_tcp_t

fun proto_arr_index :: "proto_arr_t \<Rightarrow> nat" where
  "proto_arr_index proto_arr_udp_t = 0"
| "proto_arr_index proto_arr_tcp_t = 1"

datatype ezp_addr_type = EZP_DNS | EZP_IPV4 | EZP_IPV6 | EZP_INVALID

text \<open>The enumeration's values, with Linux's \<open>AF_INET\<close> and \<open>AF_INET6\<close>.\<close>

fun ezp_value :: "ezp_addr_type \<Rightarrow> int" where
  "ezp_value EZP_DNS = 0"
| "ezp_value EZP_IPV4 = 2"
| "ezp_value EZP_IPV6 = 10"
| "ezp_value EZP_INVALID = 0xFFFF"

lemma ezp_value_inj [simp]: "ezp_value a = ezp_value b \<longleftrightarrow> a = b"
  by (cases a; cases b) simp_all

section \<open>Structures\<close>

record node =
  nd_arrival :: u64
  nd_deadline :: u64
  nd_value_size :: u32
  nd_port :: u16
  nd_flags :: u8
  nd_filler0 :: u8
  nd_family :: ezp_addr_type
  nd_fd :: int
  nd_ipv6 :: "u8 list"
  nd_ipv4 :: "u8 list"
  nd_value :: "u8 list"

text \<open>What \<open>calloc\<close> and \<open>memset(_, 0, sizeof(struct node))\<close> leave in a node.\<close>

definition zero_node :: node where
  "zero_node = \<lparr>nd_arrival = 0, nd_deadline = 0, nd_value_size = 0, nd_port = 0, nd_flags = 0,
     nd_filler0 = 0, nd_family = EZP_DNS, nd_fd = 0, nd_ipv6 = replicate 28 0,
     nd_ipv4 = replicate 16 0, nd_value = replicate VALUE_BUFFER_SIZE 0\<rparr>"

definition wf_node :: "node \<Rightarrow> bool" where
  "wf_node n \<longleftrightarrow> length (nd_ipv6 n) = 28 \<and> length (nd_ipv4 n) = 16 \<and>
     length (nd_value n) = VALUE_BUFFER_SIZE"

lemma wf_zero_node [simp]: "wf_node zero_node"
  by (simp add: wf_node_def zero_node_def)

text \<open>\<open>struct node_buffer\<close> is a pair of status and node; the manager holds 256 of them.\<close>

record node_recv_manager =
  rm_next_free :: u8
  rm_next_busy :: u8
  rm_status :: "u8 list"
  rm_nodes :: "node list"

text \<open>The callbacks the plugin registers, and the receive callback of the socket layer.\<close>

datatype callback =
    on_acception_udp | on_acception_tcp
  | on_dispatch_udp | on_dispatch_tcp
  | on_connect_udp | on_connect_tcp
  | on_close_udp | on_close_tcp
  | on_receive_connection

datatype cb_ptr = Cap nat | Tcp_Pool nat | Udp_Pool nat | Session nat proto_arr_t

record base_cb =
  cb_proto :: proto_t
  cb_run :: bool
  cb_node_count :: u32
  cb_node :: "nat option"
  cb_node_cfg :: node
  cb_parent :: "cb_ptr option"
  cb_linked :: "cb_ptr option"
  cb_recv :: node_recv_manager
  cb_on_accept :: "callback option"
  cb_on_connect :: "callback option"
  cb_on_receive :: "callback option"
  cb_on_close :: "callback option"

definition zero_recv :: node_recv_manager where
  "zero_recv = \<lparr>rm_next_free = 0, rm_next_busy = 0, rm_status = replicate 256 0,
     rm_nodes = replicate 256 zero_node\<rparr>"

definition zero_cb :: base_cb where
  "zero_cb = \<lparr>cb_proto = proto_none_t, cb_run = False, cb_node_count = 0, cb_node = None,
     cb_node_cfg = zero_node, cb_parent = None, cb_linked = None, cb_recv = zero_recv,
     cb_on_accept = None, cb_on_connect = None, cb_on_receive = None, cb_on_close = None\<rparr>"

text \<open>A position in the ring of the circle buffer: a slot, or the head of its queue.\<close>

datatype circ_ptr = Slot nat | Head

text \<open>\<open>sp_pool\<close> is the allocated array (\<open>None\<close> for null), \<open>sp_cursor\<close> a position in the ring.\<close>

record session_connection_pool =
  sp_run :: bool
  sp_port :: u16
  sp_linked_port :: u16
  sp_pool_size :: u32
  sp_pool_count :: u32
  sp_pool :: "node list option"
  sp_cursor :: "circ_ptr option"
  sp_session :: base_cb

definition zero_session :: session_connection_pool where
  "zero_session = \<lparr>sp_run = False, sp_port = 0, sp_linked_port = 0, sp_pool_size = 0,
     sp_pool_count = 0, sp_pool = None, sp_cursor = None, sp_session = zero_cb\<rparr>"

text \<open>A scheduler slot; \<open>sc_session\<close> is the slot of \<open>recno\<close> it points to.\<close>

record scheduler_connection =
  sc_last_active_time_us :: u64
  sc_realtime_deadline_us :: u64
  sc_deadline_us :: u64
  sc_session :: "(nat \<times> proto_arr_t) option"

definition zero_slot :: scheduler_connection where
  "zero_slot = \<lparr>sc_last_active_time_us = 0, sc_realtime_deadline_us = 0, sc_deadline_us = 0,
     sc_session = None\<rparr>"

record cfg_server_server =
  cfg_scheduler_preemptive_deadline :: u64
  cfg_real_time_dead_line :: u64
  cfg_real_time_user_defined :: u64
  cfg_circle_buffer_size :: u32
  cfg_sleep_time :: u16
  cfg_session_size :: u16
  cfg_max_ports :: u16
  cfg_log_level :: u8
  cfg_trunk_accept_uri :: string
  cfg_trunk_dispatch_uri :: string

record cfg_daemon_server =
  cfg_file :: string
  cfg_daemonize :: u8

text \<open>The objects the pointers of this program reach.\<close>

record heap =
  hp_node :: "nat \<Rightarrow> node option"
  hp_cb :: "cb_ptr \<Rightarrow> base_cb option"

definition deref :: "('p \<Rightarrow> 'a option) \<Rightarrow> 'p option \<Rightarrow> 'a res" where
  "deref store p = (case p of None \<Rightarrow> Inl Null_Deref
     | Some a \<Rightarrow> (case store a of None \<Rightarrow> Inl Out_Of_Bounds | Some x \<Rightarrow> Inr x))"

lemma deref_simps [simp]:
  "deref store None = Inl Null_Deref"
  "store a = Some x \<Longrightarrow> deref store (Some a) = Inr x"
  by (simp_all add: deref_def)

section \<open>\<open>node_cmp\<close>\<close>

definition cmp3 :: "'a :: linorder \<Rightarrow> 'a \<Rightarrow> int" where
  "cmp3 a b = (if b < a then 1 else 0) - (if a < b then 1 else 0)"

text \<open>Two pointers, \<open>None\<close> for null; a null pointer is below every other.\<close>

fun node_cmp :: "node option \<Rightarrow> node option \<Rightarrow> int" where
  "node_cmp None None = 0"
| "node_cmp None (Some b) = -1"
| "node_cmp (Some a) None = 1"
| "node_cmp (Some a) (Some b) =
     (if nd_fd a \<noteq> nd_fd b then cmp3 (nd_fd a) (nd_fd b)
      else if nd_port a \<noteq> nd_port b then cmp3 (nd_port a) (nd_port b)
      else if nd_family a \<noteq> nd_family b then cmp3 (ezp_value (nd_family a)) (ezp_value (nd_family b))
      else if nd_family a = EZP_IPV4
        then vcmp (\<lambda>i. nd_ipv4 a ! (4 + i)) (\<lambda>i. nd_ipv4 b ! (4 + i)) 4
      else if nd_family a = EZP_IPV6
        then vcmp (\<lambda>i. nd_ipv6 a ! (8 + i)) (\<lambda>i. nd_ipv6 b ! (8 + i)) 16
      else 0)"

text \<open>The key the comparison reads, ordered lexicographically.\<close>

definition node_addr :: "node \<Rightarrow> u8 list" where
  "node_addr n =
     (if nd_family n = EZP_IPV4 then take 4 (drop 4 (nd_ipv4 n))
      else if nd_family n = EZP_IPV6 then take 16 (drop 8 (nd_ipv6 n)) else [])"

definition node_key :: "node \<Rightarrow> int \<times> u16 \<times> int \<times> u8 list" where
  "node_key n = (nd_fd n, nd_port n, ezp_value (nd_family n), node_addr n)"

lemma cmp3_sgn:
  "cmp3 a b < 0 \<longleftrightarrow> a < b" "cmp3 a b = 0 \<longleftrightarrow> a = b" "0 < cmp3 a b \<longleftrightarrow> b < a"
  by (auto simp: cmp3_def)

lemma vcmp_cong: "(\<And>i. i < n \<Longrightarrow> p i = p' i) \<Longrightarrow> (\<And>i. i < n \<Longrightarrow> q i = q' i) \<Longrightarrow> vcmp p q n = vcmp p' q' n"
proof (induction n arbitrary: p q p' q')
  case (Suc n)
  have "vcmp (\<lambda>i. p (i + 1)) (\<lambda>i. q (i + 1)) n = vcmp (\<lambda>i. p' (i + 1)) (\<lambda>i. q' (i + 1)) n"
    by (rule Suc.IH) (simp_all add: Suc.prems)
  moreover have "p 0 = p' 0" "q 0 = q' 0" by (simp_all add: Suc.prems)
  ultimately show ?case by (simp only: vcmp.simps)
qed simp

lemma vcmp_lexord:
  "length xs = length ys \<Longrightarrow>
     (vcmp (nth xs) (nth ys) (length xs) < 0 \<longleftrightarrow> xs < ys) \<and>
     (vcmp (nth xs) (nth ys) (length xs) = 0 \<longleftrightarrow> xs = ys)"
proof (induction xs ys rule: list_induct2)
  case (Cons x xs y ys)
  have "uint x - uint y < 0 \<longleftrightarrow> x < y" by (simp add: word_less_def)
  moreover have "uint x - uint y = 0 \<longleftrightarrow> x = y" unfolding word_uint_eq_iff by linarith
  ultimately show ?case
    using Cons.IH by (auto simp: Cons_less_Cons)
qed simp

lemma vcmp_slice:
  assumes "k + n \<le> length xs" and "k + n \<le> length ys"
  shows "vcmp (\<lambda>i. xs ! (k + i)) (\<lambda>i. ys ! (k + i)) n < 0 \<longleftrightarrow> take n (drop k xs) < take n (drop k ys)"
    and "vcmp (\<lambda>i. xs ! (k + i)) (\<lambda>i. ys ! (k + i)) n = 0 \<longleftrightarrow> take n (drop k xs) = take n (drop k ys)"
proof -
  define us where "us = take n (drop k xs)"
  define vs where "vs = take n (drop k ys)"
  have len: "length us = n" "length vs = n" using assms by (auto simp: us_def vs_def)
  have "vcmp (\<lambda>i. xs ! (k + i)) (\<lambda>i. ys ! (k + i)) n = vcmp (nth us) (nth vs) n"
    using assms by (intro vcmp_cong) (auto simp: us_def vs_def)
  then show "vcmp (\<lambda>i. xs ! (k + i)) (\<lambda>i. ys ! (k + i)) n < 0 \<longleftrightarrow> take n (drop k xs) < take n (drop k ys)"
    and "vcmp (\<lambda>i. xs ! (k + i)) (\<lambda>i. ys ! (k + i)) n = 0 \<longleftrightarrow> take n (drop k xs) = take n (drop k ys)"
    using vcmp_lexord [of us vs] unfolding us_def [symmetric] vs_def [symmetric] len by simp_all
qed

text \<open>\<open>node_cmp\<close> on two nodes is the lexicographic order on (descriptor, port, family, address
  bytes at the offset of \<open>sin_addr\<close> or \<open>sin6_addr\<close>): negative exactly when the first key is
  smaller, zero exactly when the keys agree. So it is a total preorder.\<close>

lemma node_cmp_key:
  assumes "wf_node a" and "wf_node b"
  shows "node_cmp (Some a) (Some b) < 0 \<longleftrightarrow> node_key a < node_key b"
    and "node_cmp (Some a) (Some b) = 0 \<longleftrightarrow> node_key a = node_key b"
proof -
  note v4 = vcmp_slice [of 4 4 "nd_ipv4 a" "nd_ipv4 b"]
  note v6 = vcmp_slice [of 8 16 "nd_ipv6 a" "nd_ipv6 b"]
  have len: "length (nd_ipv4 a) = 16" "length (nd_ipv4 b) = 16" "length (nd_ipv6 a) = 28" "length (nd_ipv6 b) = 28"
    using assms by (simp_all add: wf_node_def)
  note v4 = v4 [unfolded len, simplified] and v6 = v6 [unfolded len, simplified]
  consider "nd_fd a \<noteq> nd_fd b"
    | "nd_fd a = nd_fd b" "nd_port a \<noteq> nd_port b"
    | "nd_fd a = nd_fd b" "nd_port a = nd_port b" "nd_family a \<noteq> nd_family b"
    | "nd_fd a = nd_fd b" "nd_port a = nd_port b" "nd_family a = nd_family b"
    by blast
  then have "(node_cmp (Some a) (Some b) < 0 \<longleftrightarrow> node_key a < node_key b) \<and>
             (node_cmp (Some a) (Some b) = 0 \<longleftrightarrow> node_key a = node_key b)"
  proof cases
    case 4
    then show ?thesis
      by (cases "nd_family b") (simp_all add: node_key_def node_addr_def v4 v6)
  qed (simp_all add: node_key_def cmp3_sgn less_prod_def' del: less_prod_simp)
  then show "node_cmp (Some a) (Some b) < 0 \<longleftrightarrow> node_key a < node_key b"
    and "node_cmp (Some a) (Some b) = 0 \<longleftrightarrow> node_key a = node_key b" by simp_all
qed

lemma cmp3_antisym: "cmp3 b a = - cmp3 a b"
  by (simp add: cmp3_def)

lemma node_cmp_antisym: "node_cmp b a = - node_cmp a b"
proof (cases a; cases b)
  fix x y
  assume ab: "a = Some x" "b = Some y"
  show ?thesis
    unfolding ab node_cmp.simps cmp3_antisym [of "nd_fd y"] cmp3_antisym [of "nd_port y"]
      cmp3_antisym [of "ezp_value (nd_family y)"]
      vcmp_antisym [of "\<lambda>i. nd_ipv4 y ! (4 + i)" "\<lambda>i. nd_ipv4 x ! (4 + i)"]
      vcmp_antisym [of "\<lambda>i. nd_ipv6 y ! (8 + i)" "\<lambda>i. nd_ipv6 x ! (8 + i)"]
    by simp
qed simp_all

text \<open>The order of \<open>node_cmp\<close> as the order of the type: nodes with the same key are equivalent, so it is a
  preorder only.\<close>

instantiation node_ext :: (type) preorder
begin

definition less_eq_node_ext :: "'a node_ext \<Rightarrow> 'a node_ext \<Rightarrow> bool" where
  "less_eq_node_ext a b \<longleftrightarrow> node_key (node.truncate a) \<le> node_key (node.truncate b)"

definition less_node_ext :: "'a node_ext \<Rightarrow> 'a node_ext \<Rightarrow> bool" where
  "less_node_ext a b \<longleftrightarrow> node_key (node.truncate a) < node_key (node.truncate b)"

instance
  by standard (auto simp: less_eq_node_ext_def less_node_ext_def intro: order_trans)

end

lemma truncate_node [simp]: "node.truncate n = n"
  by (cases n) (simp add: node.truncate_def)

lemma node_order_key: "a \<le> b \<longleftrightarrow> node_key a \<le> node_key b" "a < b \<longleftrightarrow> node_key a < node_key b" for a b :: node
  by (simp_all add: less_eq_node_ext_def less_node_ext_def)

lemma node_cmp_le: "wf_node a \<Longrightarrow> wf_node b \<Longrightarrow> node_cmp (Some a) (Some b) \<le> 0 \<longleftrightarrow> a \<le> b"
  using node_cmp_key [of a b] by (auto simp: node_order_key le_less)

section \<open>Accessors of the protocol union\<close>

text \<open>\<open>get_session_node\<close>; its argument is the address of a field, never null.\<close>

definition get_session_node :: "base_cb \<Rightarrow> nat option" where
  "get_session_node u =
     (case cb_proto u of
        proto_udp_t \<Rightarrow> cb_node u
      | proto_tcp_t \<Rightarrow> cb_node u
      | proto_none_t \<Rightarrow> None)"

text \<open>\<open>get_session_pointer\<close>; on a null argument the function falls off its end.\<close>

definition get_session_pointer :: "base_cb option \<Rightarrow> cb_ptr option res" where
  "get_session_pointer u =
     (case u of
        Some c \<Rightarrow> (case cb_proto c of
            proto_none_t \<Rightarrow> Inr None
          | proto_tcp_t \<Rightarrow> Inr (cb_linked c)
          | proto_udp_t \<Rightarrow> Inr (cb_linked c))
      | None \<Rightarrow> Inl Indeterminate)"

text \<open>\<open>get_session_cfg\<close>: the two outputs, or \<open>None\<close> where it writes neither.\<close>

definition get_session_cfg :: "heap \<Rightarrow> base_cb option \<Rightarrow> (u16 \<times> proto_arr_t) option res" where
  "get_session_cfg hp u =
     (case u of
        None \<Rightarrow> Inr None
      | Some c \<Rightarrow> (case cb_proto c of
            proto_none_t \<Rightarrow> Inr None
          | proto_tcp_t \<Rightarrow> and_then (deref (hp_node hp) (cb_node c)) (\<lambda>n. Inr (Some (nd_port n, proto_arr_tcp_t)))
          | proto_udp_t \<Rightarrow> and_then (deref (hp_node hp) (cb_node c)) (\<lambda>n. Inr (Some (nd_port n, proto_arr_udp_t)))))"

text \<open>The loop of \<open>update_session_counter\<close>: \<open>for (; n < n0; ++n) s += n->value_size;\<close>\<close>

fun sum_value_sizes :: "(nat \<Rightarrow> node option) \<Rightarrow> nat option \<Rightarrow> nat \<Rightarrow> u32 \<Rightarrow> u32 res" where
  "sum_value_sizes store p 0 s = Inr s"
| "sum_value_sizes store p (Suc k) s =
     and_then (deref store p) (\<lambda>n. sum_value_sizes store (map_option Suc p) k (s + nd_value_size n))"

definition update_session_counter :: "heap \<Rightarrow> base_cb \<Rightarrow> base_cb res" where
  "update_session_counter hp u =
     (case cb_proto u of
        proto_none_t \<Rightarrow> Inr u
      | _ \<Rightarrow> and_then (sum_value_sizes (hp_node hp) (cb_node u) (unat (cb_node_count u)) 0)
             (\<lambda>s. Inr (u\<lparr>cb_node_count := s\<rparr>)))"

text \<open>The port of the node a pointer designates; a null pointer leaves the preset 0.\<close>

definition port_of :: "heap \<Rightarrow> nat option \<Rightarrow> u16 res" where
  "port_of hp p =
     (case p of None \<Rightarrow> Inr 0 | Some a \<Rightarrow> and_then (deref (hp_node hp) (Some a)) (\<lambda>n. Inr (nd_port n)))"

definition link_session_ports ::
    "heap \<Rightarrow> session_connection_pool option \<Rightarrow> base_cb option \<Rightarrow> session_connection_pool option res" where
  "link_session_ports hp p cb =
     (case p of None \<Rightarrow> Inr None
      | Some s \<Rightarrow> (case cb of None \<Rightarrow> Inr (Some s)
      | Some c \<Rightarrow>
        (case cb_proto c of
           proto_none_t \<Rightarrow> Inr (Some (s\<lparr>sp_port := 0, sp_linked_port := 0\<rparr>))
         | _ \<Rightarrow>
            and_then (port_of hp (cb_node c)) (\<lambda>port.
            and_then (case cb_linked c of None \<Rightarrow> Inr 0
                      | Some l \<Rightarrow> and_then (deref (hp_cb hp) (Some l)) (\<lambda>lc. port_of hp (cb_node lc)))
              (\<lambda>linked_port. Inr (Some (s\<lparr>sp_port := port, sp_linked_port := linked_port\<rparr>)))))))"

lemma sum_value_sizes_run:
  "(\<And>i. i < k \<Longrightarrow> store (a + i) = Some (f (a + i))) \<Longrightarrow>
   sum_value_sizes store (Some a) k s = Inr (s + (\<Sum>i<k. nd_value_size (f (a + i))))"
proof (induction k arbitrary: a s)
  case (Suc k)
  have "store (a + 0) = Some (f (a + 0))" by (rule Suc.prems) simp
  moreover have "sum_value_sizes store (Some (Suc a)) k (s + nd_value_size (f a)) =
      Inr (s + nd_value_size (f a) + (\<Sum>i<k. nd_value_size (f (Suc a + i))))"
    using Suc.prems [of "Suc _"] by (intro Suc.IH) simp
  ultimately show ?case
    by (simp add: sum.lessThan_Suc_shift add.assoc del: sum.lessThan_Suc)
qed simp

section \<open>Field-by-field copies\<close>

text \<open>
  The mappers of \<^verbatim>\<open>maps/map_to_protocol_node.h\<close> and \<^verbatim>\<open>maps/map_node_to_node.h\<close>. A source
  node is given with its address where the code stores the pointer. The padding byte is the
  only field none of them copies.
\<close>

definition map_common_fields :: "node option \<Rightarrow> node option \<Rightarrow> node option" where
  "map_common_fields src dst =
     (case src of None \<Rightarrow> dst | Some s \<Rightarrow> (case dst of None \<Rightarrow> None | Some d \<Rightarrow>
        Some (d\<lparr>nd_arrival := nd_arrival s, nd_deadline := nd_deadline s, nd_fd := nd_fd s,
                nd_family := nd_family s, nd_port := nd_port s, nd_value_size := nd_value_size s,
                nd_flags := nd_flags s, nd_ipv4 := nd_ipv4 s, nd_ipv6 := nd_ipv6 s,
                nd_value := nd_value s\<rparr>)))"

definition map_to_tcp_node :: "(nat \<times> node) option \<Rightarrow> base_cb option \<Rightarrow> base_cb option" where
  "map_to_tcp_node src dst =
     (case src of None \<Rightarrow> dst | Some (a, s) \<Rightarrow> (case dst of None \<Rightarrow> None | Some d \<Rightarrow>
        (case map_common_fields (Some s) (Some (cb_node_cfg d)) of
           None \<Rightarrow> None
         | Some cfg \<Rightarrow> Some (d\<lparr>cb_node_cfg := cfg, cb_node := Some a\<rparr>))))"

definition map_to_udp_node :: "(nat \<times> node) option \<Rightarrow> base_cb option \<Rightarrow> base_cb option" where
  "map_to_udp_node src dst =
     (case src of None \<Rightarrow> dst | Some (a, s) \<Rightarrow> (case dst of None \<Rightarrow> None | Some d \<Rightarrow>
        (case map_common_fields (Some s) (Some (cb_node_cfg d)) of
           None \<Rightarrow> None
         | Some cfg \<Rightarrow> Some (d\<lparr>cb_node_cfg := cfg, cb_node := Some a\<rparr>))))"

definition map_to_protocol_node :: "(nat \<times> node) option \<Rightarrow> base_cb option \<Rightarrow> base_cb option" where
  "map_to_protocol_node src dst =
     (case src of None \<Rightarrow> dst | Some s \<Rightarrow> (case dst of None \<Rightarrow> None | Some d \<Rightarrow>
        (case cb_proto d of
           proto_tcp_t \<Rightarrow> map_to_tcp_node (Some s) (Some d)
         | proto_udp_t \<Rightarrow> map_to_udp_node (Some s) (Some d)
         | proto_none_t \<Rightarrow> Some d)))"

definition map_node_to_tcp_node :: "base_cb option \<Rightarrow> (nat \<times> node) option \<Rightarrow> base_cb option" where
  "map_node_to_tcp_node tcp src =
     (case tcp of None \<Rightarrow> None | Some t \<Rightarrow> (case src of None \<Rightarrow> Some t | Some (a, s) \<Rightarrow>
        Some (t\<lparr>cb_node := Some a,
                cb_node_cfg := (cb_node_cfg t)\<lparr>nd_ipv4 := nd_ipv4 s, nd_ipv6 := nd_ipv6 s,
                  nd_port := nd_port s, nd_family := nd_family s, nd_fd := nd_fd s,
                  nd_arrival := nd_arrival s, nd_deadline := nd_deadline s,
                  nd_value_size := nd_value_size s, nd_flags := nd_flags s,
                  nd_value := nd_value s\<rparr>\<rparr>)))"

definition map_node_to_udp_node :: "base_cb option \<Rightarrow> (nat \<times> node) option \<Rightarrow> base_cb option" where
  "map_node_to_udp_node udp src =
     (case udp of None \<Rightarrow> None | Some u \<Rightarrow> (case src of None \<Rightarrow> Some u | Some (a, s) \<Rightarrow>
        Some (u\<lparr>cb_node := Some a,
                cb_node_cfg := (cb_node_cfg u)\<lparr>nd_ipv4 := nd_ipv4 s, nd_ipv6 := nd_ipv6 s,
                  nd_port := nd_port s, nd_family := nd_family s, nd_fd := nd_fd s,
                  nd_arrival := nd_arrival s, nd_deadline := nd_deadline s,
                  nd_value_size := nd_value_size s, nd_flags := nd_flags s,
                  nd_value := nd_value s\<rparr>\<rparr>)))"

definition map_node_to_node :: "node option \<Rightarrow> node option \<Rightarrow> node option" where
  "map_node_to_node dst src =
     (case dst of None \<Rightarrow> None | Some d \<Rightarrow> (case src of None \<Rightarrow> Some d | Some s \<Rightarrow>
        Some (d\<lparr>nd_arrival := nd_arrival s, nd_deadline := nd_deadline s, nd_ipv4 := nd_ipv4 s,
                nd_ipv6 := nd_ipv6 s, nd_fd := nd_fd s, nd_family := nd_family s,
                nd_port := nd_port s, nd_value_size := nd_value_size s, nd_flags := nd_flags s,
                nd_value := nd_value s\<rparr>)))"

section \<open>Properties\<close>

text \<open>The six mappers agree: copying a node into a node, a TCP node or a UDP node, by either header,
  makes the copy equal to the source in every field but the padding byte, records the source's
  address where the target has a pointer for it, and leaves the rest of the target alone.\<close>

lemma mappers_copy_node:
  defines "copied d s \<equiv> s\<lparr>nd_filler0 := nd_filler0 d\<rparr>"
  shows "map_common_fields (Some s) (Some d) = Some (copied d s)
    \<and> map_node_to_node (Some d) (Some s) = Some (copied d s)
    \<and> map_to_tcp_node (Some (a, s)) (Some t) = Some (t\<lparr>cb_node := Some a, cb_node_cfg := copied (cb_node_cfg t) s\<rparr>)
    \<and> map_to_udp_node (Some (a, s)) (Some t) = map_to_tcp_node (Some (a, s)) (Some t)
    \<and> map_node_to_tcp_node (Some t) (Some (a, s)) = map_to_tcp_node (Some (a, s)) (Some t)
    \<and> map_node_to_udp_node (Some t) (Some (a, s)) = map_to_tcp_node (Some (a, s)) (Some t)
    \<and> map_to_protocol_node (Some (a, s)) (Some t) =
        (if cb_proto t = proto_none_t then Some t else map_to_tcp_node (Some (a, s)) (Some t))"
  unfolding copied_def
  by (simp add: map_common_fields_def map_node_to_node_def map_to_tcp_node_def map_to_udp_node_def
      map_node_to_tcp_node_def map_node_to_udp_node_def map_to_protocol_node_def split: proto_t.split)

end
