(* ===== verification/Orbit_Text.thy ===== *)
theory Orbit_Text
  imports Orbit_Types
begin

text \<open>
  The text routines of \<^verbatim>\<open>src/include/funcs.h\<close>: \<open>parse_protocol_host_port\<close>, which splits a URI
  such as \<open>TCP/localhost:2727\<close>, and \<open>unquote_string\<close>, which copies a quoted token into a fixed
  buffer; with the functions of the C library they call (\<open>strrchr\<close>, \<open>strtol\<close>, \<open>atoi\<close>,
  \<open>strtoull\<close>, \<open>strncpy\<close>) as glibc defines them.

  A C string argument is the list of its characters before the terminating zero; an output
  buffer is the list of all its characters, and \<open>cstring\<close> reads the string in a buffer. Null
  pointers are \<open>None\<close>.
\<close>

section \<open>The C library\<close>

abbreviation NUL :: char where "NUL \<equiv> CHR 0x00"

definition cstring :: "string \<Rightarrow> string" where
  "cstring b = takeWhile (\<lambda>c. c \<noteq> NUL) b"

definition is_digit :: "char \<Rightarrow> bool" where
  "is_digit c \<longleftrightarrow> 48 \<le> (of_char c :: nat) \<and> (of_char c :: nat) \<le> 57"

definition is_space :: "char \<Rightarrow> bool" where
  "is_space c \<longleftrightarrow> (of_char c :: nat) = 32 \<or> 9 \<le> (of_char c :: nat) \<and> (of_char c :: nat) \<le> 13"

definition digit_value :: "char \<Rightarrow> nat" where
  "digit_value c = of_char c - 48"

fun digits_value :: "nat \<Rightarrow> string \<Rightarrow> nat" where
  "digits_value acc [] = acc"
| "digits_value acc (c # cs) = digits_value (10 * acc + digit_value c) cs"

text \<open>The optional sign and the digits \<open>strtol\<close> converts: the sign and the magnitude.\<close>

definition scan_number :: "string \<Rightarrow> bool \<times> nat" where
  "scan_number s =
     (let t = dropWhile is_space s;
          neg = (t \<noteq> [] \<and> hd t = CHR ''-'');
          u = (if t \<noteq> [] \<and> (hd t = CHR ''-'' \<or> hd t = CHR ''+'') then tl t else t)
      in (neg, digits_value 0 (takeWhile is_digit u)))"

definition strtol :: "string \<Rightarrow> int" where
  "strtol s = (let (neg, v) = scan_number s; x = (if neg then - int v else int v)
               in max (- (2 ^ 63)) (min (2 ^ 63 - 1) x))"

definition atoi :: "string \<Rightarrow> 32 word" where
  "atoi s = word_of_int (strtol s)"

definition strtoull :: "string \<Rightarrow> u64" where
  "strtoull s = (let (neg, v) = scan_number s
                 in if 2 ^ 64 \<le> v then - 1 else if neg then - of_nat v else of_nat v)"

text \<open>The index of the last occurrence.\<close>

definition strrchr :: "string \<Rightarrow> char \<Rightarrow> nat option" where
  "strrchr s c = (let r = takeWhile (\<lambda>x. x \<noteq> c) (rev s)
                  in if length r = length s then None else Some (length s - 1 - length r))"

text \<open>Storing characters from the start of a buffer; \<open>strncpy\<close> pads with zeros.\<close>

definition store_chars :: "string \<Rightarrow> string \<Rightarrow> string" where
  "store_chars buf s = s @ drop (length s) buf"

definition strncpy :: "string \<Rightarrow> string \<Rightarrow> nat \<Rightarrow> string" where
  "strncpy dst src n = store_chars dst (take n src @ replicate (n - length src) NUL)"

section \<open>\<open>parse_protocol_host_port\<close>\<close>

definition parse_protocol_host_port ::
    "string option \<Rightarrow> string option \<Rightarrow> nat \<Rightarrow> u16 option \<Rightarrow> proto_t \<times> string option \<times> u16 option" where
  "parse_protocol_host_port input host_out host_size port_out =
     (case (input, host_out, port_out) of
        (Some s, Some host, Some port) \<Rightarrow>
          (if host_size = 0 then (proto_none_t, host_out, port_out)
           else
             let (proto, rest) =
                   (if take 4 s = ''UDP/'' then (proto_udp_t, drop 4 s)
                    else if take 4 s = ''TCP/'' then (proto_tcp_t, drop 4 s)
                    else (proto_none_t, s))
             in if proto = proto_none_t then (proto_none_t, host_out, port_out)
                else case strrchr rest CHR '':'' of
                       None \<Rightarrow> (proto_none_t, host_out, port_out)
                     | Some sep \<Rightarrow>
                        (if sep = 0 then (proto_none_t, host_out, port_out)
                         else
                           let host_len = (if host_size \<le> sep then host_size - 1 else sep);
                               host' = (store_chars host (take host_len rest))[host_len := NUL]
                           in (proto, Some host', Some (ucast (atoi (drop (sep + 1) rest))))))
      | _ \<Rightarrow> (proto_none_t, host_out, port_out))"

section \<open>\<open>unquote_string\<close>\<close>

definition unquote_string :: "string option \<Rightarrow> nat \<Rightarrow> string option \<Rightarrow> string option" where
  "unquote_string dest dest_size input =
     (case (input, dest) of
        (Some s, Some d) \<Rightarrow>
          (if dest_size = 0 then dest
           else if 2 \<le> length s \<and> s ! 0 = CHR 0x22 \<and> s ! (length s - 1) = CHR 0x22 then
             (let inner = length s - 2;
                  inner_len = (if dest_size \<le> inner then dest_size - 1 else inner)
              in Some ((store_chars d (take inner_len (drop 1 s)))[inner_len := NUL]))
           else Some ((strncpy d s (dest_size - 1))[dest_size - 1 := NUL]))
      | _ \<Rightarrow> dest)"

section \<open>\<open>ezp_address\<close>\<close>

text \<open>\<open>isalnum\<close> in the C locale, and the classification of an address; the two parameters say for which
  texts \<open>inet_pton\<close> returns 1 for either family.\<close>

definition is_alnum :: "char \<Rightarrow> bool" where
  "is_alnum c \<longleftrightarrow> is_digit c \<or> 65 \<le> (of_char c :: nat) \<and> (of_char c :: nat) \<le> 90 \<or>
     97 \<le> (of_char c :: nat) \<and> (of_char c :: nat) \<le> 122"

fun all_name_chars :: "string \<Rightarrow> bool" where
  "all_name_chars [] = True"
| "all_name_chars (c # cs) = (if \<not> is_alnum c \<and> c \<noteq> CHR ''-'' \<and> c \<noteq> CHR ''.'' then False else all_name_chars cs)"

definition ezp_address :: "(string \<Rightarrow> bool) \<Rightarrow> (string \<Rightarrow> bool) \<Rightarrow> string \<Rightarrow> ezp_addr_type" where
  "ezp_address pton4 pton6 input =
     (if pton4 input then EZP_IPV4
      else if pton6 input then EZP_IPV6
      else if all_name_chars input then EZP_DNS else EZP_INVALID)"

lemma ezp_address_dns:
  "ezp_address pton4 pton6 input = EZP_DNS \<longleftrightarrow>
     \<not> pton4 input \<and> \<not> pton6 input \<and> (\<forall>c \<in> set input. is_alnum c \<or> c \<in> {CHR ''-'', CHR ''.''})"
proof -
  have "all_name_chars input \<longleftrightarrow> (\<forall>c \<in> set input. is_alnum c \<or> c \<in> {CHR ''-'', CHR ''.''})"
    by (induction input) auto
  then show ?thesis by (simp add: ezp_address_def)
qed

section \<open>Decimal numerals\<close>

definition digit_char :: "nat \<Rightarrow> char" where
  "digit_char d = char_of (48 + d)"

fun decimal :: "nat \<Rightarrow> string" where
  "decimal n = (if n < 10 then [digit_char n] else decimal (n div 10) @ [digit_char (n mod 10)])"

declare decimal.simps [simp del]

lemma of_char_digit_char: "d < 10 \<Longrightarrow> (of_char (digit_char d) :: nat) = 48 + d"
  by (simp add: digit_char_def)

lemma is_digit_digit_char [simp]: "d < 10 \<Longrightarrow> is_digit (digit_char d)"
  by (simp add: is_digit_def of_char_digit_char)

lemma decimal_digits: "c \<in> set (decimal n) \<Longrightarrow> is_digit c"
proof (induction n rule: decimal.induct)
  case (1 n)
  then show ?case by (cases "n < 10") (auto simp: decimal.simps [of n])
qed

lemma decimal_nonempty [simp]: "decimal n \<noteq> []"
  by (subst decimal.simps) simp

lemma digits_value_append: "digits_value a (xs @ ys) = digits_value (digits_value a xs) ys"
  by (induction xs arbitrary: a) simp_all

lemma digits_value_decimal [simp]: "digits_value 0 (decimal n) = n"
proof (induction n rule: decimal.induct)
  case (1 n)
  have value_of: "digit_value (digit_char d) = d" if "d < 10" for d
    using that by (simp add: digit_value_def of_char_digit_char)
  from 1 show ?case
    by (cases "n < 10") (simp_all add: decimal.simps [of n] digits_value_append value_of)
qed

lemma is_digit_not:
  "is_digit c \<Longrightarrow> \<not> is_space c \<and> c \<noteq> CHR ''-'' \<and> c \<noteq> CHR ''+'' \<and> c \<noteq> CHR '':'' \<and> c \<noteq> NUL"
  by (auto simp: is_digit_def is_space_def)

lemma scan_number_digits:
  assumes "\<forall>c \<in> set ds. is_digit c"
  shows "scan_number ds = (False, digits_value 0 ds)"
proof -
  have "dropWhile is_space ds = ds"
    using assms is_digit_not by (cases ds) auto
  moreover have "ds \<noteq> [] \<Longrightarrow> hd ds \<noteq> CHR ''-'' \<and> hd ds \<noteq> CHR ''+''"
    using assms is_digit_not by (cases ds) auto
  moreover have "digits_value 0 (takeWhile is_digit ds) = digits_value 0 ds"
    using assms by (metis takeWhile_eq_all_conv)
  ultimately show ?thesis by (auto simp: scan_number_def Let_def)
qed

lemma strtol_decimal: "strtol (decimal n) = min (2 ^ 63 - 1) (int n)"
  by (simp add: strtol_def scan_number_digits decimal_digits)

lemma atoi_decimal: "n < 2 ^ 63 \<Longrightarrow> atoi (decimal n) = of_nat n"
  by (simp add: atoi_def strtol_decimal)

lemma strtoull_decimal: "n < 2 ^ 64 \<Longrightarrow> strtoull (decimal n) = of_nat n"
  by (simp add: strtoull_def scan_number_digits decimal_digits)

section \<open>Lemmas on buffers and separators\<close>

lemma length_store_chars [simp]: "length s \<le> length buf \<Longrightarrow> length (store_chars buf s) = length buf"
  by (simp add: store_chars_def)

lemma store_terminated:
  assumes "n = length s" and "n < length buf"
  shows "(store_chars buf s)[n := NUL] = s @ NUL # drop (Suc n) buf"
proof -
  have "drop n buf = buf ! n # drop (Suc n) buf" using assms(2) by (simp add: Cons_nth_drop_Suc)
  then show ?thesis by (simp add: store_chars_def assms(1) list_update_append)
qed

lemma cstring_terminated [simp]: "NUL \<notin> set s \<Longrightarrow> cstring (s @ NUL # t) = s"
  unfolding cstring_def by (subst takeWhile_append2) auto

lemma strrchr_last:
  assumes "c \<notin> set ys"
  shows "strrchr (xs @ c # ys) c = Some (length xs)"
proof -
  have "takeWhile (\<lambda>x. x \<noteq> c) (rev ys @ c # rev xs) = rev ys"
    using assms by (subst takeWhile_append2) auto
  then show ?thesis by (simp add: strrchr_def Let_def)
qed

lemma strrchr_None: "strrchr s c = None \<longleftrightarrow> c \<notin> set s"
proof -
  have "takeWhile (\<lambda>x. x \<noteq> c) (rev s) = rev s \<longleftrightarrow> c \<notin> set s"
    by (auto simp: takeWhile_eq_all_conv)
  moreover have "length (takeWhile (\<lambda>x. x \<noteq> c) (rev s)) = length s \<longleftrightarrow> takeWhile (\<lambda>x. x \<noteq> c) (rev s) = rev s"
    by (metis length_rev takeWhile_eq_take take_all_iff order_refl)
  ultimately show ?thesis by (simp add: strrchr_def Let_def)
qed

lemma strrchr_less: "strrchr s c = Some i \<Longrightarrow> i < length s"
  by (cases s) (auto simp: strrchr_def Let_def split: if_splits)

lemma strrchr_Some:
  assumes "strrchr s c = Some i"
  shows "s = take i s @ c # drop (Suc i) s \<and> c \<notin> set (drop (Suc i) s)"
proof -
  have "c \<in> set s" using assms strrchr_None [of s c] by auto
  then obtain xs ys where s: "s = xs @ c # ys" "c \<notin> set ys" by (metis split_list_last)
  then have "i = length xs" using assms strrchr_last [of c ys xs] by simp
  then show ?thesis using s by simp
qed

section \<open>Properties\<close>

text \<open>The text a configuration writes for an endpoint.\<close>

fun uri_prefix :: "proto_t \<Rightarrow> string" where
  "uri_prefix proto_tcp_t = ''TCP/''"
| "uri_prefix proto_udp_t = ''UDP/''"
| "uri_prefix proto_none_t = []"

definition uri_split :: "string \<Rightarrow> proto_t \<Rightarrow> string \<Rightarrow> string \<Rightarrow> bool" where
  "uri_split s p host port \<longleftrightarrow> p \<noteq> proto_none_t \<and> host \<noteq> [] \<and> CHR '':'' \<notin> set port \<and>
     s = uri_prefix p @ host @ CHR '':'' # port"

lemma take4_prefix:
  "take 4 s = ''UDP/'' \<Longrightarrow> s = ''UDP/'' @ drop 4 s" "take 4 s = ''TCP/'' \<Longrightarrow> s = ''TCP/'' @ drop 4 s"
  by (metis append_take_drop_id)+

lemma take4_uri [simp]:
  "p \<noteq> proto_none_t \<Longrightarrow> take 4 (uri_prefix p @ r) = uri_prefix p"
  "p \<noteq> proto_none_t \<Longrightarrow> drop 4 (uri_prefix p @ r) = r"
  by (cases p; simp)+

lemma parse_split:
  assumes "uri_split s p host port" and "0 < n" and "n \<le> length buf"
  shows "parse_protocol_host_port (Some s) (Some buf) n (Some q) =
     (p, Some (take (n - 1) host @ NUL # drop (Suc (min (n - 1) (length host))) buf), Some (ucast (atoi port)))"
proof -
  let ?k = "if n \<le> length host then n - 1 else length host"
  have s: "s = uri_prefix p @ host @ CHR '':'' # port" and p: "p \<noteq> proto_none_t" and host: "host \<noteq> []"
    and port: "CHR '':'' \<notin> set port" using assms(1) by (auto simp: uri_split_def)
  have k: "?k = min (n - 1) (length host)" using assms(2) by simp
  have "(store_chars buf (take ?k (host @ CHR '':'' # port)))[?k := NUL] = take (n - 1) host @ NUL # drop (Suc ?k) buf"
    using assms(2,3) by (subst store_terminated) auto
  then show ?thesis using s p host assms(2)
    by (cases p) (simp_all add: parse_protocol_host_port_def strrchr_last [OF port] k)
qed

lemma parse_not_split:
  assumes "\<And>p host port. \<not> uri_split s p host port"
  shows "parse_protocol_host_port (Some s) (Some buf) n (Some q) = (proto_none_t, Some buf, Some q)"
proof -
  have no: "i = 0" if r: "take 4 s = uri_prefix p" "p \<noteq> proto_none_t" and i: "strrchr (drop 4 s) CHR '':'' = Some i" for p i
  proof (rule ccontr)
    assume "i \<noteq> 0"
    moreover have "s = uri_prefix p @ drop 4 s" using r(1) by (metis append_take_drop_id)
    moreover have "drop 4 s \<noteq> []" using i strrchr_less by fastforce
    ultimately have "uri_split s p (take i (drop 4 s)) (drop (Suc i) (drop 4 s))"
      unfolding uri_split_def using r(2) strrchr_Some [OF i] by auto
    then show False using assms by blast
  qed
  show ?thesis using no [of proto_udp_t] no [of proto_tcp_t]
    by (auto simp: parse_protocol_host_port_def split: option.splits)
qed

text \<open>C30: For every input string and every output buffer of at least \<open>n > 0\<close> characters,
  \<open>parse_protocol_host_port\<close> either recognises the input as a prefix \<open>TCP/\<close> or \<open>UDP/\<close>, a nonempty
  host, a colon and a last part with no colon (so a host may contain colons), and then stores the
  first \<open>n - 1\<close> characters of the host, a terminating zero and the port, changing no other
  character; or the input has no such form, and then it returns \<open>proto_none_t\<close> with both outputs
  untouched.\<close>

theorem parse_uri_complete:
  assumes "0 < n" and "n \<le> length buf"
  shows "(\<exists>p host port. uri_split s p host port \<and>
            parse_protocol_host_port (Some s) (Some buf) n (Some q) =
              (p, Some (take (n - 1) host @ NUL # drop (Suc (min (n - 1) (length host))) buf), Some (ucast (atoi port)))) \<or>
         (\<forall>p host port. \<not> uri_split s p host port) \<and>
            parse_protocol_host_port (Some s) (Some buf) n (Some q) = (proto_none_t, Some buf, Some q)"
proof (cases "\<exists>p host port. uri_split s p host port")
  case True
  then obtain p host port where "uri_split s p host port" by blast
  then show ?thesis using parse_split assms by blast
next
  case False
  then show ?thesis using parse_not_split by simp
qed

theorem parse_uri_complete_witness:
  "(\<exists>p host port. uri_split ''TCP/a:80'' p host port \<and>
      parse_protocol_host_port (Some ''TCP/a:80'') (Some ''xyz'') 2 (Some 7) =
        (p, Some (take (2 - 1) host @ NUL # drop (Suc (min (2 - 1) (length host))) ''xyz''), Some (ucast (atoi port)))) \<or>
   (\<forall>p host port. \<not> uri_split ''TCP/a:80'' p host port) \<and>
      parse_protocol_host_port (Some ''TCP/a:80'') (Some ''xyz'') 2 (Some 7) = (proto_none_t, Some ''xyz'', Some 7)"
  by (rule parse_uri_complete) simp_all

text \<open>An endpoint written as protocol, host, colon and decimal port is read back as the same
  protocol, host and port, for every nonempty host that fits the buffer and every 16-bit port.\<close>

lemma parse_uri_round_trip:
  assumes "p \<noteq> proto_none_t" and "host \<noteq> []" and "NUL \<notin> set host" and "length host < n" and "n \<le> length buf"
  shows "\<exists>buf'. parse_protocol_host_port (Some (uri_prefix p @ host @ CHR '':'' # decimal (unat (port :: u16)))) (Some buf) n (Some q) =
             (p, Some buf', Some port) \<and> cstring buf' = host \<and> length buf' = length buf"
proof -
  have "uri_split (uri_prefix p @ host @ CHR '':'' # decimal (unat port)) p host (decimal (unat port))"
    using assms(1,2) decimal_digits is_digit_not by (auto simp: uri_split_def)
  moreover have "(ucast (atoi (decimal (unat port))) :: u16) = port"
  proof -
    have "unat port < 2 ^ 63" using unsigned_less [of port, where 'a = nat] by simp
    then have "(ucast (atoi (decimal (unat port))) :: u16) = ucast (ucast port :: u32)" by (simp add: atoi_decimal)
    also have "\<dots> = port" by (rule bit_word_eqI) (simp add: bit_simps)
    finally show ?thesis .
  qed
  ultimately show ?thesis using parse_split [of _ p host "decimal (unat port)" n buf q] assms(3-5) by simp
qed

text \<open>\<open>unquote_string\<close> writes the string between a leading and a trailing double quote, or the
  whole string when it is not quoted, cut to \<open>n - 1\<close> characters, always terminated, and changes no
  character of the buffer past the \<open>n\<close>-th.\<close>

definition unquoted :: "string \<Rightarrow> string" where
  "unquoted s = (if 2 \<le> length s \<and> hd s = CHR 0x22 \<and> last s = CHR 0x22 then butlast (tl s) else s)"

lemma unquote_string_truncates:
  assumes "0 < n" and "n \<le> length d" and "NUL \<notin> set s"
  shows "\<exists>d'. unquote_string (Some d) n (Some s) = Some d' \<and> cstring d' = take (n - 1) (unquoted s) \<and>
              length d' = length d \<and> drop n d' = drop n d"
proof (cases "2 \<le> length s \<and> hd s = CHR 0x22 \<and> last s = CHR 0x22")
  case True
  define k where "k = min (n - 1) (length s - 2)"
  have s: "s \<noteq> []" "s ! 0 = CHR 0x22" "s ! (length s - 1) = CHR 0x22"
    by (use True in force, metis True hd_conv_nth list.size(3) not_numeral_le_zero,
        metis True last_conv_nth list.size(3) not_numeral_le_zero)
  have taken: "take k (drop 1 s) = take (n - 1) (unquoted s)"
    using True by (simp add: unquoted_def k_def butlast_conv_take drop_Suc min_def numeral_2_eq_2)
  obtain t where t: "t = take k (drop 1 s)" "t = take (n - 1) (unquoted s)" using taken by simp
  have kk: "(if n \<le> length s - 2 then n - 1 else length s - 2) = k" using assms(1) by (simp add: k_def)
  have "(store_chars d (take k (drop 1 s)))[k := NUL] = take k (drop 1 s) @ NUL # drop (Suc k) d"
    using True assms(1,2) by (intro store_terminated) (auto simp: k_def)
  then have "unquote_string (Some d) n (Some s) = Some (take k (drop 1 s) @ NUL # drop (Suc k) d)"
    using True s assms(1) by (simp add: unquote_string_def Let_def kk)
  moreover have "NUL \<notin> set (take k (drop 1 s))" using assms(3) by (meson in_set_dropD in_set_takeD)
  moreover have "length (take k (drop 1 s)) = k" using True by (simp add: k_def)
  moreover have "k < n" using assms(1) by (auto simp: k_def)
  ultimately have "unquote_string (Some d) n (Some s) = Some (t @ NUL # drop (Suc k) d)" "NUL \<notin> set t"
    "length t = k" "k < n" unfolding t(1)
    by - assumption+
  then show ?thesis unfolding t(2) [symmetric] using assms(2) by (auto simp: drop_Cons')
next
  case False
  define p where "p = take (n - 1) s @ replicate (n - 1 - length s) NUL"
  have p: "length p = n - 1" by (simp add: p_def)
  have eq: "(strncpy d s (n - 1))[n - 1 := NUL] = p @ NUL # drop n d"
    using store_terminated [of "n - 1" p d] p assms(1,2) by (simp add: strncpy_def p_def)
  have q: "\<not> (2 \<le> length s \<and> s ! 0 = CHR 0x22 \<and> s ! (length s - 1) = CHR 0x22)"
    using False by (cases "s = []") (auto simp: hd_conv_nth last_conv_nth)
  have "unquote_string (Some d) n (Some s) = Some (p @ NUL # drop n d)"
    unfolding unquote_string_def using q assms(1) eq by auto
  moreover have "cstring (p @ NUL # drop n d) = take (n - 1) s"
  proof (cases "n - 1 - length s")
    case 0
    have "NUL \<notin> set (take (n - 1) s)" using assms(3) by (meson in_set_takeD)
    then show ?thesis using 0 by (simp add: p_def)
  next
    case (Suc m)
    then show ?thesis using assms(3) by (simp add: p_def)
  qed
  ultimately show ?thesis using False p assms(1,2) by (auto simp: unquoted_def)
qed

end
