(* ===== verification/Orbit_Config.thy ===== *)
theory Orbit_Config
  imports Orbit_Text Orbit_Crc
begin

text \<open>
  The configuration reader: the lexer rules of \<^verbatim>\<open>src/parser/scanner.l\<close>, the token handler and
  the console of \<^verbatim>\<open>src/parser/console.c\<close>, and the parser object of
  \<^verbatim>\<open>src/parser/dmmr_parser.c\<close> that loads the file and reloads it when its checksum changes.

  flex is modelled by what a rule file means: at each position the longest match over all rules
  wins, the earlier rule on a tie. A \<open>FILE *\<close> opened for reading is the text not yet read; what
  \<open>fopen\<close> finds is an argument (\<open>None\<close> when the file cannot be opened), one per call, since the file
  may change between two calls. Configuration objects live at addresses in a store, so the
  console's pointer and the server's object are the same object.
\<close>

section \<open>Lexer rules (\<open>scanner.l\<close>)\<close>

definition is_letter :: "char \<Rightarrow> bool" where
  "is_letter c \<longleftrightarrow> 65 \<le> (of_char c :: nat) \<and> (of_char c :: nat) \<le> 90 \<or> 97 \<le> (of_char c :: nat) \<and> (of_char c :: nat) \<le> 122"

definition is_ident :: "char \<Rightarrow> bool" where
  "is_ident c \<longleftrightarrow> is_letter c \<or> is_digit c \<or> c = CHR ''_''"

definition is_blank :: "char \<Rightarrow> bool" where
  "is_blank c \<longleftrightarrow> c = CHR '' '' \<or> c = CHR 0x09"

definition keyword_texts :: "string list" where
  "keyword_texts = [''SESSION_SIZE'', ''SLEEP_TIME'', ''CIRCLE_BUFFER_SIZE'', ''MAX_PORTS'',
    ''REAL_TIME_DEAD_LINE'', ''REAL_TIME_USER_DEFINED'', ''TRUNK_ACCEPT_URI'', ''TRUNK_DISPATCH_URI'',
    ''SCHEDULER_PREEMPTIVE_DEADLINE'', ''RB_LOG_LEVEL'']"

datatype rule = R_KEYWORD string | R_NUMBER | R_COMMA | R_SEMICOLON | R_DASH | R_IDENT | R_STRING
  | R_BLANK | R_NEWLINE | R_ANY

definition rules :: "rule list" where
  "rules = map R_KEYWORD keyword_texts @
     [R_NUMBER, R_COMMA, R_SEMICOLON, R_DASH, R_IDENT, R_STRING, R_BLANK, R_NEWLINE, R_ANY]"

text \<open>The part of a string token after its opening quote: any characters but quote and backslash,
  or a backslash and any character but a newline, up to the closing quote.\<close>

fun string_body :: "string \<Rightarrow> nat option" where
  "string_body [] = None"
| "string_body (c # cs) =
     (if c = CHR 0x22 then Some 1
      else if c = CHR 0x5C then
        (case cs of [] \<Rightarrow> None
         | d # ds \<Rightarrow> if d = CHR 0x0A then None else map_option (\<lambda>n. n + 2) (string_body ds))
      else map_option Suc (string_body cs))"

definition literal :: "string \<Rightarrow> string \<Rightarrow> nat" where
  "literal k s = (if take (length k) s = k then length k else 0)"

text \<open>The length of the longest match of a rule at the start of the input; 0 when there is none.\<close>

fun match_length :: "rule \<Rightarrow> string \<Rightarrow> nat" where
  "match_length (R_KEYWORD k) s = literal k s"
| "match_length R_NUMBER s = length (takeWhile is_digit s)"
| "match_length R_COMMA s = literal '','' s"
| "match_length R_SEMICOLON s = literal '';'' s"
| "match_length R_DASH s = literal ''-'' s"
| "match_length R_IDENT s = (if s \<noteq> [] \<and> is_letter (hd s) then length (takeWhile is_ident s) else 0)"
| "match_length R_STRING s = (if s \<noteq> [] \<and> hd s = CHR 0x22
     then (case string_body (tl s) of None \<Rightarrow> 0 | Some n \<Rightarrow> Suc n) else 0)"
| "match_length R_BLANK s = length (takeWhile is_blank s)"
| "match_length R_NEWLINE s = literal [CHR 0x0A] s"
| "match_length R_ANY s = (if s \<noteq> [] \<and> hd s \<noteq> CHR 0x0A then 1 else 0)"

fun longest :: "rule list \<Rightarrow> string \<Rightarrow> (rule \<times> nat) option" where
  "longest [] s = None"
| "longest (r # rs) s =
     (case longest rs s of
        None \<Rightarrow> if 0 < match_length r s then Some (r, match_length r s) else None
      | Some (r', n') \<Rightarrow> if n' \<le> match_length r s then Some (r, match_length r s) else Some (r', n'))"

definition TOKEN_ERROR :: int where "TOKEN_ERROR = -1"
definition TOKEN_IDENT :: int where "TOKEN_IDENT = 100"
definition TOKEN_NUMBER :: int where "TOKEN_NUMBER = 101"
definition TOKEN_COMMA :: int where "TOKEN_COMMA = 102"
definition TOKEN_SEMICOLON :: int where "TOKEN_SEMICOLON = 103"
definition TOKEN_SYMBOL :: int where "TOKEN_SYMBOL = 104"
definition TOKEN_STRING :: int where "TOKEN_STRING = 105"

lemmas token_defs = TOKEN_ERROR_def TOKEN_IDENT_def TOKEN_NUMBER_def TOKEN_COMMA_def
  TOKEN_SEMICOLON_def TOKEN_SYMBOL_def TOKEN_STRING_def

text \<open>What a rule sends to \<open>handle_token\<close> and what it returns to the caller of \<open>yylex\<close>; \<open>None\<close> for the
  rules that skip their text.\<close>

fun rule_action :: "rule \<Rightarrow> string \<Rightarrow> (string \<times> string \<times> int) option" where
  "rule_action (R_KEYWORD k) t = Some (''KEYWORD'', k, TOKEN_IDENT)"
| "rule_action R_NUMBER t = Some (''NUMBER'', cstring t, TOKEN_NUMBER)"
| "rule_action R_COMMA t = Some (''COMMA'', cstring t, TOKEN_COMMA)"
| "rule_action R_SEMICOLON t = Some (''SEMICOLON'', cstring t, TOKEN_SEMICOLON)"
| "rule_action R_DASH t = Some (''DASH'', cstring t, TOKEN_SYMBOL)"
| "rule_action R_IDENT t = Some (''IDENT'', cstring t, TOKEN_IDENT)"
| "rule_action R_STRING t = Some (''STRING'', cstring t, TOKEN_STRING)"
| "rule_action R_BLANK t = None"
| "rule_action R_NEWLINE t = None"
| "rule_action R_ANY t = Some (''INVALID'', cstring t, TOKEN_ERROR)"

section \<open>Console (\<open>console.c\<close>)\<close>

datatype ConfigState =
    CONFIG_NONE | CONFIG_SCHEDULER_PREEMPTIVE_DEADLINE | CONFIG_SLEEP_TIME | CONFIG_SESSION_SIZE
  | CONFIG_CIRCLE_BUFFER_SIZE | CONFIG_MAX_PORTS | CONFIG_REAL_TIME_DEAD_LINE
  | CONFIG_REAL_TIME_USER_DEFINED | CONFIG_TRUNK_ACCEPT_URI | CONFIG_TRUNK_DISPATCH_URI
  | CONFIG_RB_LOG_LEVEL

type_synonym configs = "nat \<Rightarrow> cfg_server_server"

record console_state =
  cs_cfg :: "nat option"
  cs_setting :: ConfigState
  cs_input :: "string option"

definition zero_console :: console_state where
  "zero_console = \<lparr>cs_cfg = None, cs_setting = CONFIG_NONE, cs_input = None\<rparr>"

definition keyword_setting :: "string \<Rightarrow> ConfigState \<Rightarrow> ConfigState" where
  "keyword_setting v old =
     (if v = ''SESSION_SIZE'' then CONFIG_SESSION_SIZE
      else if v = ''SLEEP_TIME'' then CONFIG_SLEEP_TIME
      else if v = ''CIRCLE_BUFFER_SIZE'' then CONFIG_CIRCLE_BUFFER_SIZE
      else if v = ''MAX_PORTS'' then CONFIG_MAX_PORTS
      else if v = ''REAL_TIME_DEAD_LINE'' then CONFIG_REAL_TIME_DEAD_LINE
      else if v = ''REAL_TIME_USER_DEFINED'' then CONFIG_REAL_TIME_USER_DEFINED
      else if v = ''TRUNK_ACCEPT_URI'' then CONFIG_TRUNK_ACCEPT_URI
      else if v = ''TRUNK_DISPATCH_URI'' then CONFIG_TRUNK_DISPATCH_URI
      else if v = ''SCHEDULER_PREEMPTIVE_DEADLINE'' then CONFIG_SCHEDULER_PREEMPTIVE_DEADLINE
      else if v = ''RB_LOG_LEVEL'' then CONFIG_RB_LOG_LEVEL
      else old)"

fun store_number :: "ConfigState \<Rightarrow> string \<Rightarrow> cfg_server_server \<Rightarrow> cfg_server_server" where
  "store_number CONFIG_SCHEDULER_PREEMPTIVE_DEADLINE v c = c\<lparr>cfg_scheduler_preemptive_deadline := strtoull v\<rparr>"
| "store_number CONFIG_SLEEP_TIME v c = c\<lparr>cfg_sleep_time := ucast (atoi v)\<rparr>"
| "store_number CONFIG_SESSION_SIZE v c = c\<lparr>cfg_session_size := ucast (atoi v)\<rparr>"
| "store_number CONFIG_CIRCLE_BUFFER_SIZE v c = c\<lparr>cfg_circle_buffer_size := atoi v\<rparr>"
| "store_number CONFIG_MAX_PORTS v c = c\<lparr>cfg_max_ports := ucast (atoi v)\<rparr>"
| "store_number CONFIG_REAL_TIME_DEAD_LINE v c = c\<lparr>cfg_real_time_dead_line := strtoull v\<rparr>"
| "store_number CONFIG_REAL_TIME_USER_DEFINED v c = c\<lparr>cfg_real_time_user_defined := strtoull v\<rparr>"
| "store_number CONFIG_RB_LOG_LEVEL v c = c\<lparr>cfg_log_level := ucast (atoi v)\<rparr>"
| "store_number _ v c = c"

definition uri_size :: nat where "uri_size = 0x40"

definition unquote_uri :: "string \<Rightarrow> string \<Rightarrow> string" where
  "unquote_uri field v = (case unquote_string (Some field) uri_size (Some v) of None \<Rightarrow> field | Some f \<Rightarrow> f)"

fun store_string :: "ConfigState \<Rightarrow> string \<Rightarrow> cfg_server_server \<Rightarrow> cfg_server_server" where
  "store_string CONFIG_TRUNK_ACCEPT_URI v c = c\<lparr>cfg_trunk_accept_uri := unquote_uri (cfg_trunk_accept_uri c) v\<rparr>"
| "store_string CONFIG_TRUNK_DISPATCH_URI v c = c\<lparr>cfg_trunk_dispatch_uri := unquote_uri (cfg_trunk_dispatch_uri c) v\<rparr>"
| "store_string _ v c = c"

definition handle_token :: "string \<Rightarrow> string \<Rightarrow> console_state \<times> configs \<Rightarrow> console_state \<times> configs" where
  "handle_token type v = (\<lambda>(st, mem).
     (case cs_cfg st of
        None \<Rightarrow> (st, mem)
      | Some a \<Rightarrow>
         if type = ''KEYWORD'' then (st\<lparr>cs_setting := keyword_setting v (cs_setting st)\<rparr>, mem)
         else if type = ''NUMBER'' then
           (st\<lparr>cs_setting := CONFIG_NONE\<rparr>, mem(a := store_number (cs_setting st) v (mem a)))
         else if type = ''STRING'' then
           (st\<lparr>cs_setting := CONFIG_NONE\<rparr>, mem(a := store_string (cs_setting st) v (mem a)))
         else (st, mem)))"

lemma longest_bound: "longest rs s = Some (r, n) \<Longrightarrow> 0 < n \<and> r \<in> set rs \<and> match_length r s = n"
  by (induction rs arbitrary: r n) (auto split: option.splits if_splits)

text \<open>One call of \<open>yylex\<close>: rules are applied until one returns a token; at the end of the input the
  result is 0.\<close>

function yylex :: "string \<Rightarrow> console_state \<times> configs \<Rightarrow> int \<times> string \<times> console_state \<times> configs" where
  "yylex s st =
     (case longest rules s of
        None \<Rightarrow> (0, s, st)
      | Some (r, n) \<Rightarrow>
         (case rule_action r (take n s) of
            None \<Rightarrow> yylex (drop n s) st
          | Some (type, v, token) \<Rightarrow> (token, drop n s, handle_token type v st)))"
  by pat_completeness auto
termination
proof (relation "measure (\<lambda>(s, st). length s)")
  fix s :: string and st :: "console_state \<times> configs" and rn r n
  assume "longest rules s = Some rn" "(r, n) = rn"
  then have found: "longest rules s = Some (r, n)" by simp
  moreover have "longest rules [] = None" by code_simp
  ultimately have "s \<noteq> []" "0 < n" using longest_bound [OF found] by auto
  then show "((drop n s, st), s, st) \<in> measure (\<lambda>(s, st). length s)" by simp
qed simp

declare yylex.simps [simp del]

lemma longest_nil: "longest rules [] = None"
  by code_simp

lemma yylex_shorter: "yylex s st = (token, rest, st') \<Longrightarrow> token \<noteq> 0 \<Longrightarrow> length rest < length s"
proof (induction s st rule: yylex.induct)
  case (1 s st)
  show ?case
  proof (cases "longest rules s")
    case None
    then show ?thesis using 1(2,3) by (simp add: yylex.simps [of s])
  next
    case (Some rn)
    obtain r n where rn: "rn = (r, n)" by fastforce
    have "s \<noteq> []" "0 < n" using Some longest_nil longest_bound [of rules s r n] by (auto simp: rn)
    then have less: "length (drop n s) < length s" by simp
    show ?thesis
    proof (cases "rule_action r (take n s)")
      case None
      then have "yylex (drop n s) st = (token, rest, st')" using Some 1(2) by (simp add: yylex.simps [of s] rn)
      then show ?thesis using 1(1) [OF Some rn [symmetric] None] 1(3) less by simp
    next
      case (Some a)
      then show ?thesis using \<open>longest rules s = Some rn\<close> 1(2) less by (auto simp: yylex.simps [of s] rn split: prod.splits)
    qed
  qed
qed

function run_loop :: "string \<Rightarrow> console_state \<times> configs \<Rightarrow> console_state \<times> configs" where
  "run_loop s st =
     (case yylex s st of (token, rest, st') \<Rightarrow> if token = 0 then st' else run_loop rest st')"
  by pat_completeness auto
termination
  by (relation "measure (\<lambda>(s, st). length s)") (auto intro: yylex_shorter dest: sym)

declare run_loop.simps [simp del]

definition console_setup ::
    "string option \<Rightarrow> nat option \<Rightarrow> string option \<Rightarrow> console_state \<Rightarrow> int \<times> console_state" where
  "console_setup file_name cfg opened st =
     (if file_name = None \<or> cfg = None then (EOF, st)
      else (if opened = None then EOF else 0,
            zero_console\<lparr>cs_cfg := cfg, cs_setting := CONFIG_NONE, cs_input := opened\<rparr>))"

definition console_run :: "console_state \<times> configs \<Rightarrow> int \<times> console_state \<times> configs" where
  "console_run = (\<lambda>(st, mem).
     (case cs_input st of
        None \<Rightarrow> (EOF, st, mem)
      | Some s \<Rightarrow>
         if cs_cfg st = None then (EOF, st, mem)
         else (case run_loop s (st, mem) of (st', mem') \<Rightarrow> (0, st'\<lparr>cs_input := Some []\<rparr>, mem'))))"

definition console_cleanup :: "console_state \<Rightarrow> console_state" where
  "console_cleanup st = zero_console"

section \<open>Parser object (\<open>dmmr_parser.c\<close>)\<close>

record parser =
  ps_run :: u8
  ps_last_crc :: u64
  ps_this :: bool
  ps_cfg_daemon :: "cfg_daemon_server option"
  ps_cfg_server :: "nat option"
  ps_table :: "u32 list"
  ps_console :: console_state
  ps_configs :: configs

definition new_dmmr_parser ::
    "bool \<Rightarrow> cfg_daemon_server option \<Rightarrow> nat option \<Rightarrow> parser \<Rightarrow> bool \<times> parser" where
  "new_dmmr_parser allocated daemon server p =
     (if daemon = None \<or> server = None then (False, p)
      else if \<not> allocated then (False, p)
      else (True, p\<lparr>ps_cfg_daemon := daemon, ps_cfg_server := server, ps_this := True, ps_run := 1\<rparr>))"

definition parser_load_config ::
    "string option \<Rightarrow> u8 list list option \<Rightarrow> parser \<Rightarrow> int \<times> parser" where
  "parser_load_config opened chunks p =
     (case (ps_cfg_daemon p, ps_cfg_server p) of
        (Some d, Some a) \<Rightarrow>
          (case console_setup (Some (cstring (cfg_file d))) (Some a) opened (ps_console p) of (ret, con) \<Rightarrow>
             if ret \<noteq> 0 then (EOF, p\<lparr>ps_console := con\<rparr>)
             else (case console_run (con, ps_configs p) of (ret2, con2, mem2) \<Rightarrow>
                     let p2 = p\<lparr>ps_console := con2, ps_configs := mem2\<rparr>
                     in if ret2 \<noteq> 0 then (EOF, p2)
                        else (0, p2\<lparr>ps_table := generate_crc32_table,
                                    ps_last_crc := ucast (crc32_file generate_crc32_table chunks)\<rparr>)))
      | _ \<Rightarrow> (EOF, p))"

definition parser_reload_config ::
    "u8 list list option \<Rightarrow> string option \<Rightarrow> parser \<Rightarrow> parser res" where
  "parser_reload_config chunks opened p =
     (case ps_cfg_daemon p of
        None \<Rightarrow> Inl Null_Deref
      | Some d \<Rightarrow>
         let crc = crc32_file (ps_table p) chunks in
         if crc \<noteq> 0 \<and> ucast crc \<noteq> ps_last_crc p then
           (let p1 = p\<lparr>ps_last_crc := ucast crc, ps_console := console_cleanup (ps_console p)\<rparr>
            in case console_setup (Some (cstring (cfg_file d))) (ps_cfg_server p) opened (ps_console p1) of (ret, con) \<Rightarrow>
                 if ret = 0 then
                   (case console_run (con, ps_configs p1) of (_, con2, mem2) \<Rightarrow>
                      Inr (p1\<lparr>ps_console := con2, ps_configs := mem2\<rparr>))
                 else Inr (p1\<lparr>ps_console := con\<rparr>))
         else Inr p)"

definition parser_stop_config :: "parser \<Rightarrow> parser" where
  "parser_stop_config p = p\<lparr>ps_run := 0, ps_console := console_cleanup (ps_console p)\<rparr>"

section \<open>What the lexer finds\<close>

lemma longest_split:
  assumes "match_length r s = n" and "0 < n" and "\<forall>x \<in> set xs. match_length x s < n"
    and "\<forall>y \<in> set ys. match_length y s \<le> n"
  shows "longest (xs @ r # ys) s = Some (r, n)"
  using assms(3)
proof (induction xs)
  case Nil
  show ?case
  proof (cases "longest ys s")
    case (Some m)
    then show ?thesis using longest_bound [of ys s "fst m" "snd m"] assms by (cases m) auto
  qed (use assms in simp)
qed (use assms in auto)

lemma literal_hd: "k \<noteq> [] \<Longrightarrow> s = [] \<or> hd k \<noteq> hd s \<Longrightarrow> literal k s = 0"
  by (cases k; cases s) (auto simp: literal_def)

lemma keyword_ident: "k \<in> set keyword_texts \<Longrightarrow> k \<noteq> [] \<and> is_letter (hd k) \<and> (\<forall>c \<in> set k. is_ident c)"
  by (auto simp: keyword_texts_def is_ident_def is_letter_def)

lemma literal_shorter:
  assumes "\<forall>x \<in> set k. is_ident x" and "w \<noteq> []" and "t = [] \<or> \<not> is_ident (hd t)" and "k \<noteq> w"
  shows "literal k (w @ t) < length w"
proof (cases "take (length k) (w @ t) = k")
  case True
  have "length k \<le> length w"
  proof (rule ccontr)
    assume "\<not> length k \<le> length w"
    then have less: "length w < length k" by simp
    have "length k \<le> length (w @ t)" using arg_cong [OF True, of length] by simp
    then obtain c r where t: "t = c # r" using less by (cases t) auto
    then have "k ! length w = c" using True less by (metis nth_append_length nth_take)
    then show False using assms(1,3) less nth_mem t by fastforce
  qed
  then have "k = take (length k) w" using True by simp
  then have "length k < length w" using assms(4) \<open>length k \<le> length w\<close> by (metis le_neq_implies_less take_all_iff order_refl)
  then show ?thesis using True by (simp add: literal_def)
qed (use assms(2) in \<open>simp add: literal_def\<close>)

lemma letter_not: "is_letter c \<Longrightarrow> \<not> is_digit c \<and> \<not> is_blank c \<and> c \<noteq> CHR '','' \<and> c \<noteq> CHR '';'' \<and>
    c \<noteq> CHR ''-'' \<and> c \<noteq> CHR 0x22 \<and> c \<noteq> CHR 0x0A"
  by (auto simp: is_letter_def is_digit_def is_blank_def)

text \<open>Maximal munch: an identifier is a keyword token exactly when its whole text is a keyword.\<close>

lemma longest_ident:
  assumes "w \<noteq> []" and "is_letter (hd w)" and "\<forall>x \<in> set w. is_ident x" and "t = [] \<or> \<not> is_ident (hd t)"
  shows "longest rules (w @ t) =
     Some (if w \<in> set keyword_texts then R_KEYWORD w else R_IDENT, length w)"
proof -
  let ?s = "w @ t"
  have hd: "hd ?s = hd w" "?s \<noteq> []" using assms(1) by auto
  have "takeWhile is_ident t = []" using assms(4) by (cases t) auto
  then have ident: "match_length R_IDENT ?s = length w" using assms hd by (simp add: takeWhile_append2)
  have other: "match_length x ?s = 0" if "x \<in> {R_NUMBER, R_COMMA, R_SEMICOLON, R_DASH, R_STRING, R_BLANK, R_NEWLINE}" for x
    using that letter_not [OF assms(2)] hd assms(1) by (cases w) (auto simp: literal_def)
  have any: "match_length R_ANY ?s \<le> length w" using assms(1) by (cases w) auto
  have kw: "match_length (R_KEYWORD k) ?s < length w" if "k \<in> set keyword_texts" "k \<noteq> w" for k
    using literal_shorter [of k w t] keyword_ident [OF that(1)] assms that(2) by simp
  have kw_self: "match_length (R_KEYWORD w) ?s = length w" by (simp add: literal_def)
  show ?thesis
  proof (cases "w \<in> set keyword_texts")
    case True
    then obtain pre post where split: "keyword_texts = pre @ w # post" by (meson split_list)
    have "distinct keyword_texts" by code_simp
    then have "w \<notin> set pre" "w \<notin> set post" unfolding split by auto
    moreover have "k \<in> set keyword_texts" if "k \<in> set pre \<union> set post" for k using that by (auto simp: split)
    ultimately have kws: "\<forall>k \<in> set pre \<union> set post. match_length (R_KEYWORD k) ?s < length w"
      using kw by blast
    have "longest (map R_KEYWORD pre @ R_KEYWORD w # (map R_KEYWORD post @
        [R_NUMBER, R_COMMA, R_SEMICOLON, R_DASH, R_IDENT, R_STRING, R_BLANK, R_NEWLINE, R_ANY])) ?s = Some (R_KEYWORD w, length w)"
      using kws other ident any assms(1) kw_self
      by (intro longest_split) (auto simp: less_imp_le simp del: match_length.simps)
    then show ?thesis using True by (simp add: rules_def split)
  next
    case False
    have "longest ((map R_KEYWORD keyword_texts @ [R_NUMBER, R_COMMA, R_SEMICOLON, R_DASH]) @ R_IDENT #
        [R_STRING, R_BLANK, R_NEWLINE, R_ANY]) ?s = Some (R_IDENT, length w)"
      using kw False other ident any assms(1)
      by (intro longest_split) (auto simp del: match_length.simps)
    then show ?thesis using False by (simp add: rules_def)
  qed
qed

lemma longest_number:
  assumes "ds \<noteq> []" and "\<forall>x \<in> set ds. is_digit x" and "\<not> is_digit c"
  shows "longest rules (ds @ c # r) = Some (R_NUMBER, length ds)"
proof -
  let ?s = "ds @ c # r"
  obtain d ds' where ds: "ds = d # ds'" "is_digit d" using assms by (cases ds) auto
  have num: "match_length R_NUMBER ?s = length ds" using assms by (simp add: takeWhile_append2)
  have kw: "match_length (R_KEYWORD k) ?s = 0" if "k \<in> set keyword_texts" for k
    using keyword_ident [OF that] ds letter_not by (auto intro: literal_hd)
  have other: "match_length x ?s \<le> length ds" if "x \<in> {R_COMMA, R_SEMICOLON, R_DASH, R_IDENT, R_STRING, R_BLANK, R_NEWLINE, R_ANY}" for x
    using that ds letter_not by (auto simp: literal_def is_digit_def is_blank_def)
  have "longest (map R_KEYWORD keyword_texts @ R_NUMBER # [R_COMMA, R_SEMICOLON, R_DASH, R_IDENT, R_STRING, R_BLANK, R_NEWLINE, R_ANY]) ?s
      = Some (R_NUMBER, length ds)"
    using num kw other assms(1) by (intro longest_split) (auto simp del: match_length.simps)
  then show ?thesis by (simp add: rules_def)
qed

lemma not_letter_keywords: "s = [] \<or> \<not> is_letter (hd s) \<Longrightarrow> k \<in> set keyword_texts \<Longrightarrow> match_length (R_KEYWORD k) s = 0"
  using keyword_ident [of k] by (auto intro!: literal_hd)

lemma longest_not_letter:
  assumes "s = [] \<or> \<not> is_letter (hd s)"
  shows "longest rules s = longest [R_NUMBER, R_COMMA, R_SEMICOLON, R_DASH, R_IDENT, R_STRING, R_BLANK, R_NEWLINE, R_ANY] s"
proof -
  have "longest (map R_KEYWORD ks @ rs) s = longest rs s" if "set ks \<subseteq> set keyword_texts" for ks rs
    using that
  proof (induction ks)
    case (Cons k ks)
    then have "match_length (R_KEYWORD k) s = 0" using not_letter_keywords assms by simp
    moreover have "longest (map R_KEYWORD ks @ rs) s = longest rs s" using Cons by simp
    ultimately show ?case using longest_bound [of rs s] by (auto split: option.splits simp del: match_length.simps)
  qed simp
  then show ?thesis by (simp add: rules_def del: longest.simps)
qed

lemma longest_semicolon: "longest rules (CHR '';'' # r) = Some (R_SEMICOLON, 1)"
  by (subst longest_not_letter) (simp_all add: is_letter_def literal_def is_digit_def is_blank_def)

lemma longest_newline: "longest rules (CHR 0x0A # r) = Some (R_NEWLINE, 1)"
  by (subst longest_not_letter) (simp_all add: is_letter_def literal_def is_digit_def is_blank_def)

lemma longest_blank: "\<not> is_blank c \<Longrightarrow> longest rules (CHR '' '' # c # r) = Some (R_BLANK, 1)"
  by (subst longest_not_letter) (simp_all add: is_letter_def literal_def is_digit_def is_blank_def)

definition plain_text :: "string \<Rightarrow> bool" where
  "plain_text u \<longleftrightarrow> (\<forall>c \<in> set u. c \<noteq> CHR 0x22 \<and> c \<noteq> CHR 0x5C \<and> c \<noteq> NUL)"

lemma string_body_plain: "plain_text u \<Longrightarrow> string_body (u @ CHR 0x22 # r) = Some (length u + 1)"
  by (induction u) (simp_all add: plain_text_def)

lemma longest_string:
  "plain_text u \<Longrightarrow> longest rules (CHR 0x22 # u @ CHR 0x22 # r) = Some (R_STRING, length u + 2)"
  by (subst longest_not_letter)
    (simp_all add: is_letter_def literal_def is_digit_def is_blank_def string_body_plain)

section \<open>Running over one token\<close>

lemma run_token:
  assumes "longest rules s = Some (r, n)" and "rule_action r (take n s) = Some (type, v, token)"
  shows "run_loop s st = run_loop (drop n s) (handle_token type v st)"
proof -
  have "token \<noteq> 0" using assms(2) by (cases r) (auto simp: token_defs)
  then show ?thesis by (simp add: run_loop.simps [of s] yylex.simps [of s] assms)
qed

lemma run_skip:
  assumes "longest rules s = Some (r, n)" and "rule_action r (take n s) = None"
  shows "run_loop s st = run_loop (drop n s) st"
  by (simp add: run_loop.simps [of s] run_loop.simps [of "drop n s"] yylex.simps [of s] assms)

lemma run_nil: "run_loop [] st = st"
  by (simp add: run_loop.simps yylex.simps longest_nil)

lemma run_keyword:
  "k \<in> set keyword_texts \<Longrightarrow> \<not> is_ident c \<Longrightarrow>
   run_loop (k @ c # r) st = run_loop (c # r) (handle_token ''KEYWORD'' k st)"
  using run_token [OF longest_ident [of k "c # r"]] keyword_ident [of k] by simp

lemma cstring_id: "NUL \<notin> set s \<Longrightarrow> cstring s = s"
  by (auto simp: cstring_def)

lemma run_number:
  assumes "ds \<noteq> []" and "\<forall>x \<in> set ds. is_digit x" and "\<not> is_digit c"
  shows "run_loop (ds @ c # r) st = run_loop (c # r) (handle_token ''NUMBER'' ds st)"
proof -
  have "cstring ds = ds" using assms(2) is_digit_not by (intro cstring_id) blast
  then show ?thesis using run_token [OF longest_number [OF assms, of r]] by simp
qed

lemma run_string:
  assumes "plain_text u"
  shows "run_loop (CHR 0x22 # u @ CHR 0x22 # r) st = run_loop r (handle_token ''STRING'' (CHR 0x22 # u @ [CHR 0x22]) st)"
proof -
  define q where "q = CHR 0x22 # u @ [CHR 0x22]"
  have q: "CHR 0x22 # u @ CHR 0x22 # r = q @ r" "length u + 2 = length q" by (simp_all add: q_def)
  have "cstring q = q" using assms unfolding q_def plain_text_def by (intro cstring_id) auto
  moreover have "longest rules (q @ r) = Some (R_STRING, length q)"
    using longest_string [OF assms, of r] unfolding q .
  ultimately show ?thesis unfolding q q_def [symmetric] using run_token [of "q @ r" R_STRING "length q"] by simp
qed

lemma run_semicolon: "run_loop (CHR '';'' # r) st = run_loop r (handle_token ''SEMICOLON'' '';'' st)"
  using run_token [OF longest_semicolon [of r]] by (simp add: cstring_def)

lemma run_newline: "run_loop (CHR 0x0A # r) st = run_loop r st"
  using run_skip [OF longest_newline [of r]] by simp

lemma run_blank: "\<not> is_blank c \<Longrightarrow> run_loop (CHR '' '' # c # r) st = run_loop (c # r) st"
  using run_skip [OF longest_blank [of c r]] by simp

section \<open>Configuration files as lists of settings\<close>

text \<open>What a line of a configuration file means, independent of the lexer: a number is stored modulo
  the width of its field, a URI cut to the field with its terminating zero.\<close>

datatype setting = Number ConfigState nat | Uri ConfigState string

fun keyword_of :: "ConfigState \<Rightarrow> string" where
  "keyword_of CONFIG_NONE = []"
| "keyword_of CONFIG_SCHEDULER_PREEMPTIVE_DEADLINE = ''SCHEDULER_PREEMPTIVE_DEADLINE''"
| "keyword_of CONFIG_SLEEP_TIME = ''SLEEP_TIME''"
| "keyword_of CONFIG_SESSION_SIZE = ''SESSION_SIZE''"
| "keyword_of CONFIG_CIRCLE_BUFFER_SIZE = ''CIRCLE_BUFFER_SIZE''"
| "keyword_of CONFIG_MAX_PORTS = ''MAX_PORTS''"
| "keyword_of CONFIG_REAL_TIME_DEAD_LINE = ''REAL_TIME_DEAD_LINE''"
| "keyword_of CONFIG_REAL_TIME_USER_DEFINED = ''REAL_TIME_USER_DEFINED''"
| "keyword_of CONFIG_TRUNK_ACCEPT_URI = ''TRUNK_ACCEPT_URI''"
| "keyword_of CONFIG_TRUNK_DISPATCH_URI = ''TRUNK_DISPATCH_URI''"
| "keyword_of CONFIG_RB_LOG_LEVEL = ''RB_LOG_LEVEL''"

definition uri_keys :: "ConfigState set" where
  "uri_keys = {CONFIG_TRUNK_ACCEPT_URI, CONFIG_TRUNK_DISPATCH_URI}"

fun wf_setting :: "setting \<Rightarrow> bool" where
  "wf_setting (Number k n) \<longleftrightarrow> k \<noteq> CONFIG_NONE \<and> k \<notin> uri_keys \<and> n < 2 ^ 63"
| "wf_setting (Uri k u) \<longleftrightarrow> k \<in> uri_keys \<and> plain_text u"

fun render_setting :: "setting \<Rightarrow> string" where
  "render_setting (Number k n) = keyword_of k @ CHR '' '' # decimal n @ [CHR '';'', CHR 0x0A]"
| "render_setting (Uri k u) = keyword_of k @ CHR '' '' # CHR 0x22 # u @ [CHR 0x22, CHR '';'', CHR 0x0A]"

definition fit_uri :: "string \<Rightarrow> string \<Rightarrow> string" where
  "fit_uri field u = take 63 u @ NUL # drop (Suc (min 63 (length u))) field"

fun apply_setting :: "setting \<Rightarrow> cfg_server_server \<Rightarrow> cfg_server_server" where
  "apply_setting (Number k n) c = (case k of
       CONFIG_SCHEDULER_PREEMPTIVE_DEADLINE \<Rightarrow> c\<lparr>cfg_scheduler_preemptive_deadline := of_nat n\<rparr>
     | CONFIG_SLEEP_TIME \<Rightarrow> c\<lparr>cfg_sleep_time := of_nat n\<rparr>
     | CONFIG_SESSION_SIZE \<Rightarrow> c\<lparr>cfg_session_size := of_nat n\<rparr>
     | CONFIG_CIRCLE_BUFFER_SIZE \<Rightarrow> c\<lparr>cfg_circle_buffer_size := of_nat n\<rparr>
     | CONFIG_MAX_PORTS \<Rightarrow> c\<lparr>cfg_max_ports := of_nat n\<rparr>
     | CONFIG_REAL_TIME_DEAD_LINE \<Rightarrow> c\<lparr>cfg_real_time_dead_line := of_nat n\<rparr>
     | CONFIG_REAL_TIME_USER_DEFINED \<Rightarrow> c\<lparr>cfg_real_time_user_defined := of_nat n\<rparr>
     | CONFIG_RB_LOG_LEVEL \<Rightarrow> c\<lparr>cfg_log_level := of_nat n\<rparr>
     | _ \<Rightarrow> c)"
| "apply_setting (Uri k u) c = (case k of
       CONFIG_TRUNK_ACCEPT_URI \<Rightarrow> c\<lparr>cfg_trunk_accept_uri := fit_uri (cfg_trunk_accept_uri c) u\<rparr>
     | CONFIG_TRUNK_DISPATCH_URI \<Rightarrow> c\<lparr>cfg_trunk_dispatch_uri := fit_uri (cfg_trunk_dispatch_uri c) u\<rparr>
     | _ \<Rightarrow> c)"

definition wf_config :: "cfg_server_server \<Rightarrow> bool" where
  "wf_config c \<longleftrightarrow> length (cfg_trunk_accept_uri c) = 64 \<and> length (cfg_trunk_dispatch_uri c) = 64"

definition render_config :: "setting list \<Rightarrow> string" where
  "render_config ss = concat (map render_setting ss)"

lemma wf_apply_setting: "wf_config c \<Longrightarrow> wf_config (apply_setting s c)"
  by (cases s) (auto simp: wf_config_def fit_uri_def split: ConfigState.splits)

lemma wf_fold_settings: "wf_config c \<Longrightarrow> wf_config (fold apply_setting ss c)"
  by (induction ss arbitrary: c) (simp_all add: wf_apply_setting)

lemma keyword_of_in: "k \<noteq> CONFIG_NONE \<Longrightarrow> keyword_of k \<in> set keyword_texts"
  by (cases k) (simp_all add: keyword_texts_def)

lemma keyword_setting_of: "k \<noteq> CONFIG_NONE \<Longrightarrow> keyword_setting (keyword_of k) old = k"
  by (cases k) (simp_all add: keyword_setting_def)

lemma ucast_of_nat_u16: "(ucast (of_nat n :: 32 word) :: u16) = of_nat n"
  by (rule bit_word_eqI) (simp add: bit_simps bit_of_nat_iff)

lemma ucast_of_nat_u8: "(ucast (of_nat n :: 32 word) :: u8) = of_nat n"
  by (rule bit_word_eqI) (simp add: bit_simps bit_of_nat_iff)

lemma store_number_decimal:
  assumes "n < 2 ^ 63" and "k \<notin> uri_keys"
  shows "store_number k (decimal n) c = apply_setting (Number k n) c"
proof -
  have "n < 2 ^ 64" using assms(1) by simp
  then have "strtoull (decimal n) = of_nat n" "atoi (decimal n) = of_nat n"
    using strtoull_decimal atoi_decimal assms(1) by blast+
  then show ?thesis by (cases k) (simp_all add: ucast_of_nat_u16 ucast_of_nat_u8)
qed

lemma unquote_uri_quoted:
  assumes "length field = 64"
  shows "unquote_uri field (CHR 0x22 # u @ [CHR 0x22]) = fit_uri field u"
proof -
  show ?thesis
  proof (cases "64 \<le> length u")
    case True
    then show ?thesis using assms store_terminated [of 63 "take 63 u" field]
      by (simp add: unquote_uri_def unquote_string_def uri_size_def fit_uri_def Let_def nth_append)
  next
    case False
    then show ?thesis using assms store_terminated [of "length u" u field]
      by (simp add: unquote_uri_def unquote_string_def uri_size_def fit_uri_def Let_def nth_append min_def)
  qed
qed

lemma store_string_quoted:
  assumes "wf_config c" and "k \<in> uri_keys"
  shows "store_string k (CHR 0x22 # u @ [CHR 0x22]) c = apply_setting (Uri k u) c"
  using assms by (auto simp: uri_keys_def wf_config_def unquote_uri_quoted)

text \<open>One line.\<close>

lemma run_line:
  assumes "wf_setting x" and "wf_config (mem a)" and "cs_cfg st = Some a" and "cs_setting st = CONFIG_NONE"
  shows "run_loop (render_setting x @ r) (st, mem) = run_loop r (st, mem(a := apply_setting x (mem a)))"
proof -
  have none: "st\<lparr>cs_setting := CONFIG_NONE\<rparr> = st" using assms(4) by simp
  have blank: "\<not> is_ident CHR '' ''" "\<not> is_digit CHR '';''" "\<not> is_blank CHR 0x22"
    by (simp_all add: is_ident_def is_letter_def is_digit_def is_blank_def)
  show ?thesis
  proof (cases x)
    case (Number k n)
    have k: "k \<noteq> CONFIG_NONE" "k \<notin> uri_keys" "n < 2 ^ 63" using assms(1) by (auto simp: Number)
    obtain d ds where d: "decimal n = d # ds" using decimal_nonempty by (cases "decimal n") auto
    then have "is_digit d" using decimal_digits [of d n] by simp
    then have "\<not> is_blank d" by (auto simp: is_blank_def is_digit_def)
    then have "run_loop (CHR '' '' # decimal n @ CHR '';'' # CHR 0x0A # r) st' =
        run_loop (decimal n @ CHR '';'' # CHR 0x0A # r) st'" for st'
      using run_blank by (simp add: d)
    moreover have "run_loop (decimal n @ CHR '';'' # CHR 0x0A # r) st' =
        run_loop (CHR '';'' # CHR 0x0A # r) (handle_token ''NUMBER'' (decimal n) st')" for st'
      using decimal_digits blank by (intro run_number) auto
    ultimately show ?thesis using run_keyword [OF keyword_of_in [OF k(1)] blank(1)] store_number_decimal [OF k(3,2)]
      by (simp add: Number run_semicolon run_newline handle_token_def assms(3) keyword_setting_of [OF k(1)] none
          del: apply_setting.simps)
  next
    case (Uri k u)
    have k: "k \<noteq> CONFIG_NONE" "k \<in> uri_keys" "plain_text u" using assms(1) by (auto simp: Uri uri_keys_def)
    show ?thesis using run_keyword [OF keyword_of_in [OF k(1)] blank(1)] run_blank [OF blank(3)] run_string [OF k(3)]
      store_string_quoted [OF assms(2) k(2)]
      by (simp add: Uri run_semicolon run_newline handle_token_def assms(3) keyword_setting_of [OF k(1)] none
          del: apply_setting.simps)
  qed
qed

lemma run_config:
  assumes "\<forall>x \<in> set ss. wf_setting x" and "wf_config (mem a)" and "cs_cfg st = Some a" and "cs_setting st = CONFIG_NONE"
  shows "run_loop (render_config ss) (st, mem) = (st, mem(a := fold apply_setting ss (mem a)))"
  using assms(1,2)
proof (induction ss arbitrary: mem)
  case (Cons x ss)
  then show ?case using run_line [of x mem a st "render_config ss"] assms(3,4)
    by (auto simp: render_config_def wf_apply_setting fun_eq_iff simp del: apply_setting.simps)
qed (simp add: render_config_def run_nil)

section \<open>Any file at all\<close>

text \<open>A configuration object as the program's types promise it: both URI fields keep their 64
  characters and hold a terminated string.\<close>

definition config_typed :: "cfg_server_server \<Rightarrow> bool" where
  "config_typed c \<longleftrightarrow> wf_config c \<and> NUL \<in> set (cfg_trunk_accept_uri c) \<and> NUL \<in> set (cfg_trunk_dispatch_uri c)"

lemma unquote_uri_typed:
  assumes "length field = 64"
  shows "length (unquote_uri field v) = 64 \<and> NUL \<in> set (unquote_uri field v)"
proof -
  have fits: "length ((store_chars field s)[n := NUL]) = 64 \<and> NUL \<in> set ((store_chars field s)[n := NUL])"
    if "length s \<le> n" "n < 64" for s n
    using that assms by (auto simp: store_chars_def set_update_memI)
  have min: "min (length v) 63 + (63 - length v) = 63" by simp
  show ?thesis
    using fits [of "take 63 (drop 1 v)" 63] fits [of "take (length v - 2) (drop 1 v)" "length v - 2"]
      fits [of "take 63 v @ replicate (63 - length v) NUL" 63] min
    by (cases "64 \<le> length v - 2")
      (simp_all add: unquote_uri_def unquote_string_def uri_size_def strncpy_def Let_def del: set_conv_nth)
qed

lemma store_number_typed: "config_typed c \<Longrightarrow> config_typed (store_number k v c)"
  by (cases k) (simp_all add: config_typed_def wf_config_def)

lemma store_string_typed: "config_typed c \<Longrightarrow> config_typed (store_string k v c)"
  by (cases k) (simp_all add: config_typed_def wf_config_def unquote_uri_typed)

text \<open>What a step of the reader may do to the memory: the object at \<open>a\<close> stays typed and every other
  object stays as it was; the console keeps pointing at \<open>a\<close>.\<close>

definition reads_into :: "nat \<Rightarrow> console_state \<times> configs \<Rightarrow> console_state \<times> configs \<Rightarrow> bool" where
  "reads_into a s t \<longleftrightarrow> cs_cfg (fst t) = cs_cfg (fst s) \<and> cs_input (fst t) = cs_input (fst s) \<and>
     (config_typed (snd s a) \<longrightarrow> config_typed (snd t a)) \<and> (\<forall>b. b \<noteq> a \<longrightarrow> snd t b = snd s b)"

lemma reads_into_refl [simp]: "reads_into a s s"
  by (simp add: reads_into_def)

lemma reads_into_trans: "reads_into a s t \<Longrightarrow> reads_into a t u \<Longrightarrow> reads_into a s u"
  by (simp add: reads_into_def)

lemma handle_token_reads: "cs_cfg (fst s) = Some a \<Longrightarrow> reads_into a s (handle_token ty v s)"
  by (cases s) (simp add: reads_into_def handle_token_def store_number_typed store_string_typed)

lemma yylex_reads: "cs_cfg (fst st) = Some a \<Longrightarrow> yylex s st = (tok, rest, st') \<Longrightarrow> reads_into a st st'"
proof (induction s st rule: yylex.induct)
  case (1 s st)
  then show ?case
    by (subst (asm) (2) yylex.simps) (auto split: option.splits prod.splits intro: handle_token_reads)
qed

lemma run_loop_reads: "cs_cfg (fst st) = Some a \<Longrightarrow> reads_into a st (run_loop s st)"
proof (induction s st rule: run_loop.induct)
  case (1 s st)
  obtain tok rest st' where y: "yylex s st = (tok, rest, st')" by (metis prod_cases3)
  have step: "reads_into a st st'" using yylex_reads [OF 1(2) y] .
  show ?case
  proof (cases "tok = 0")
    case False
    then have "reads_into a st' (run_loop rest st')"
      using 1 y step by (simp add: reads_into_def)
    then show ?thesis using step y False by (simp add: run_loop.simps [of s] reads_into_trans)
  qed (use step y in \<open>simp add: run_loop.simps [of s]\<close>)
qed

lemma console_run_reads:
  assumes "cs_cfg st = Some a" and "console_run (st, mem) = (ret, st', mem')"
  shows "(config_typed (mem a) \<longrightarrow> config_typed (mem' a)) \<and> (\<forall>b. b \<noteq> a \<longrightarrow> mem' b = mem b) \<and>
     (ret = 0 \<or> cs_input st = None)"
proof (cases "cs_input st")
  case None
  then show ?thesis using assms by (simp add: console_run_def)
next
  case (Some s)
  then show ?thesis using assms run_loop_reads [of "(st, mem)" a s]
    by (cases "run_loop s (st, mem)") (simp add: console_run_def reads_into_def)
qed

section \<open>Properties\<close>

text \<open>\<open>fread\<close> delivers the characters of the file in nonempty chunks.\<close>

definition delivers :: "string \<Rightarrow> u8 list list \<Rightarrow> bool" where
  "delivers s cs \<longleftrightarrow> (\<forall>c \<in> set cs. c \<noteq> []) \<and> concat cs = map of_char s"

lemma crc_of_file: "delivers s cs \<Longrightarrow> crc32_file table (Some cs) = crc32_buffer table (map of_char s)"
  by (auto simp: delivers_def crc32_file_def crc32_buffer_def crc_chunks_concat)

lemma of_char_u8_inj: "(of_char c :: u8) = of_char d \<longleftrightarrow> c = d"
proof
  assume "(of_char c :: u8) = of_char d"
  then have "(of_nat (of_char c :: nat) :: u8) = of_nat (of_char d :: nat)" by (simp only: of_nat_of_char)
  then have "unat (of_nat (of_char c :: nat) :: u8) = unat (of_nat (of_char d :: nat) :: u8)" by (rule arg_cong)
  moreover have "unat (of_nat (of_char e :: nat) :: u8) = of_char e" for e
    using nat_of_char_less_256 [of e] by (intro unat_of_nat_less) simp
  ultimately have "(of_char c :: nat) = of_char d" by simp
  then show "c = d" by simp
qed simp

definition fresh_console :: "nat \<Rightarrow> string \<Rightarrow> console_state" where
  "fresh_console a s = \<lparr>cs_cfg = Some a, cs_setting = CONFIG_NONE, cs_input = Some s\<rparr>"

lemma reload_changed:
  assumes "ps_cfg_daemon p = Some d" and "ps_cfg_server p = Some a" and "delivers s cs"
    and "crc32_buffer (ps_table p) (map of_char s) \<noteq> 0"
    and "ucast (crc32_buffer (ps_table p) (map of_char s)) \<noteq> ps_last_crc p"
    and "run_loop s (fresh_console a s, ps_configs p) = (con, mem)"
  shows "parser_reload_config (Some cs) (Some s) p =
     Inr (p\<lparr>ps_last_crc := ucast (crc32_buffer (ps_table p) (map of_char s)),
            ps_console := con\<lparr>cs_input := Some []\<rparr>, ps_configs := mem\<rparr>)"
  using assms
  by (simp add: parser_reload_config_def crc_of_file console_setup_def console_run_def zero_console_def
      fresh_console_def Let_def)

text \<open>The shipped configuration file, and a parser to load it with.\<close>

definition default_settings :: "setting list" where
  "default_settings =
    [Number CONFIG_SCHEDULER_PREEMPTIVE_DEADLINE 1, Number CONFIG_SLEEP_TIME 10, Number CONFIG_SESSION_SIZE 1024,
     Number CONFIG_CIRCLE_BUFFER_SIZE 4096, Number CONFIG_MAX_PORTS 20, Number CONFIG_REAL_TIME_DEAD_LINE 2,
     Number CONFIG_REAL_TIME_USER_DEFINED 18, Uri CONFIG_TRUNK_ACCEPT_URI ''TCP/localhost:2727'',
     Uri CONFIG_TRUNK_DISPATCH_URI ''UDP/localhost:2727'', Number CONFIG_RB_LOG_LEVEL 255]"

definition blank_config :: cfg_server_server where
  "blank_config = \<lparr>cfg_scheduler_preemptive_deadline = 0, cfg_real_time_dead_line = 0,
     cfg_real_time_user_defined = 0, cfg_circle_buffer_size = 0, cfg_sleep_time = 0,
     cfg_session_size = 0, cfg_max_ports = 0, cfg_log_level = 0,
     cfg_trunk_accept_uri = replicate 64 NUL, cfg_trunk_dispatch_uri = replicate 64 NUL\<rparr>"

definition blank_parser :: parser where
  "blank_parser = \<lparr>ps_run = 1, ps_last_crc = 0, ps_this = True,
     ps_cfg_daemon = Some \<lparr>cfg_file = ''dmmr.conf'', cfg_daemonize = 0\<rparr>, ps_cfg_server = Some 0,
     ps_table = generate_crc32_table, ps_console = zero_console, ps_configs = (\<lambda>_. blank_config)\<rparr>"

lemma wf_blank_config: "wf_config blank_config"
  by (simp add: wf_config_def blank_config_def)

lemma wf_default_settings: "\<forall>x \<in> set default_settings. wf_setting x"
  by (simp add: default_settings_def uri_keys_def plain_text_def)

lemma delivers_whole: "s \<noteq> [] \<Longrightarrow> delivers s [map of_char s]"
  by (simp add: delivers_def)

text \<open>An identifier is a keyword exactly when its whole text is one (the longest match wins, so
  \<open>SESSION_SIZES\<close> is not \<open>SESSION_SIZE\<close>): \<open>yylex\<close> consumes all of it, sends it with the right type and
  returns \<open>TOKEN_IDENT\<close>.\<close>

lemma yylex_maximal_munch:
  assumes "w \<noteq> []" and "is_letter (hd w)" and "\<forall>x \<in> set w. is_ident x" and "\<not> is_ident c"
  shows "yylex (w @ c # r) st =
     (TOKEN_IDENT, c # r, handle_token (if w \<in> set keyword_texts then ''KEYWORD'' else ''IDENT'') w st)"
proof -
  have "NUL \<notin> set w" using assms(3) by (auto simp: is_ident_def is_letter_def is_digit_def)
  then show ?thesis using longest_ident [of w "c # r"] assms by (simp add: yylex.simps cstring_id)
qed

text \<open>C7: Loading a configuration file applies its lines in order to the server's configuration, and
  nothing else in it changes: each number is stored modulo the width of its field, each URI is cut
  to 63 characters and terminated, a repeated keyword keeps its last value, and an absent one its
  old value. The checksum of the file is remembered.\<close>

theorem load_config_round_trip:
  assumes "ps_cfg_daemon p = Some d" and "ps_cfg_server p = Some a" and "wf_config (ps_configs p a)"
    and "\<forall>x \<in> set ss. wf_setting x" and "delivers (render_config ss) cs"
  shows "parser_load_config (Some (render_config ss)) (Some cs) p =
     (0, p\<lparr>ps_console := fresh_console a [],
           ps_configs := (ps_configs p)(a := fold apply_setting ss (ps_configs p a)),
           ps_table := generate_crc32_table,
           ps_last_crc := ucast (crc32_buffer generate_crc32_table (map of_char (render_config ss)))\<rparr>)"
  using assms run_config [of ss "ps_configs p" a "fresh_console a (render_config ss)"]
  by (simp add: parser_load_config_def console_setup_def console_run_def zero_console_def fresh_console_def
      Let_def crc_of_file)

theorem load_config_round_trip_witness:
  "parser_load_config (Some (render_config default_settings)) (Some [map of_char (render_config default_settings)]) blank_parser =
     (0, blank_parser\<lparr>ps_console := fresh_console 0 [],
           ps_configs := (ps_configs blank_parser)(0 := fold apply_setting default_settings (ps_configs blank_parser 0)),
           ps_table := generate_crc32_table,
           ps_last_crc := ucast (crc32_buffer generate_crc32_table (map of_char (render_config default_settings)))\<rparr>)"
proof (rule load_config_round_trip)
  show "delivers (render_config default_settings) [map of_char (render_config default_settings)]"
    by (rule delivers_whole) (simp add: render_config_def default_settings_def)
qed (simp_all add: blank_parser_def wf_blank_config wf_default_settings)

lemma load_returns:
  assumes "ps_cfg_daemon p = Some d" and "ps_cfg_server p = Some a" and "delivers s cs"
    and "run_loop s (fresh_console a s, ps_configs p) = (con, mem)"
  shows "parser_load_config (Some s) (Some cs) p =
     (0, p\<lparr>ps_console := con\<lparr>cs_input := Some []\<rparr>, ps_configs := mem, ps_table := generate_crc32_table,
           ps_last_crc := ucast (crc32_buffer generate_crc32_table (map of_char s))\<rparr>)"
  using assms
  by (simp add: parser_load_config_def crc_of_file console_setup_def console_run_def zero_console_def fresh_console_def Let_def)

text \<open>C5: After a run of at most four bytes of a loaded file is replaced by another run of the same length, the
  reload does what loading the new file does, whatever the new file holds; unless the new checksum is 0,
  which the code takes for an unreadable file, and then nothing changes. For a new file that is a printed
  list of settings this applies its lines, in order, to the present configuration. The edit keeps the
  length: a longer or shorter file may have the same checksum.\<close>

theorem reload_after_edit:
  assumes "ps_cfg_daemon p = Some d" and "ps_cfg_server p = Some a" and "ps_table p = generate_crc32_table"
    and "ps_last_crc p = ucast (crc32_buffer generate_crc32_table (map of_char (xs @ ms @ ys)))"
    and "ms \<noteq> ms'" and "length ms = length ms'" and "length ms \<le> 4" and "delivers (xs @ ms' @ ys) cs"
  shows "parser_reload_config (Some cs) (Some (xs @ ms' @ ys)) p =
       Inr (if crc32_buffer generate_crc32_table (map of_char (xs @ ms' @ ys)) = 0 then p
            else snd (parser_load_config (Some (xs @ ms' @ ys)) (Some cs) p)) \<and>
     (xs @ ms' @ ys = render_config ss \<and> (\<forall>x \<in> set ss. wf_setting x) \<and> wf_config (ps_configs p a) \<longrightarrow>
        ps_configs (snd (parser_load_config (Some (xs @ ms' @ ys)) (Some cs) p)) =
          (ps_configs p)(a := fold apply_setting ss (ps_configs p a)))"
proof -
  let ?crc = "\<lambda>s. crc32_buffer generate_crc32_table (map of_char s)" and ?new = "xs @ ms' @ ys"
  obtain con mem where run: "run_loop ?new (fresh_console a ?new, ps_configs p) = (con, mem)" by fastforce
  note load = load_returns [OF assms(1,2,8) run]
  have "map (of_char :: char \<Rightarrow> u8) ms \<noteq> map of_char ms'"
    using assms(5) by (simp add: inj_map_eq_map inj_def of_char_u8_inj)
  then have "?crc (xs @ ms @ ys) \<noteq> ?crc ?new"
    using crc32_burst_differs assms(6,7) by simp
  then have differs: "(ucast (?crc ?new) :: u64) \<noteq> ps_last_crc p"
    unfolding assms(4) by (metis ucast_u32_u64_inj)
  have "parser_reload_config (Some cs) (Some ?new) p =
      Inr (if ?crc ?new = 0 then p else snd (parser_load_config (Some ?new) (Some cs) p))"
  proof (cases "?crc ?new = 0")
    case True
    then show ?thesis using assms(1) crc_of_file [OF assms(8), of generate_crc32_table]
      by (simp add: parser_reload_config_def assms(3) Let_def)
  next
    case False
    have table: "p\<lparr>ps_table := generate_crc32_table\<rparr> = p" using assms(3) by (cases p) simp
    have "parser_reload_config (Some cs) (Some ?new) p =
        Inr (p\<lparr>ps_last_crc := ucast (?crc ?new), ps_console := con\<lparr>cs_input := Some []\<rparr>, ps_configs := mem\<rparr>)"
      using reload_changed [OF assms(1,2,8) _ _ run] differs False by (simp add: assms(3))
    also have "\<dots> = Inr (p\<lparr>ps_table := generate_crc32_table\<rparr>\<lparr>ps_last_crc := ucast (?crc ?new),
        ps_console := con\<lparr>cs_input := Some []\<rparr>, ps_configs := mem\<rparr>)" by (simp only: table)
    also have "\<dots> = Inr (snd (parser_load_config (Some ?new) (Some cs) p))" unfolding load by simp
    finally show ?thesis using False by simp
  qed
  moreover have "mem = (ps_configs p)(a := fold apply_setting ss (ps_configs p a))"
    if "?new = render_config ss" "\<forall>x \<in> set ss. wf_setting x" "wf_config (ps_configs p a)"
  proof -
    have "run_loop ?new (fresh_console a ?new, ps_configs p) =
        (fresh_console a ?new, (ps_configs p)(a := fold apply_setting ss (ps_configs p a)))"
      unfolding that(1) using that(2,3) by (intro run_config) (simp_all add: fresh_console_def)
    then show ?thesis using run by simp
  qed
  ultimately show ?thesis unfolding load by simp
qed

definition edited_parser :: parser where
  "edited_parser = blank_parser\<lparr>ps_table := generate_crc32_table, ps_last_crc :=
     ucast (crc32_buffer generate_crc32_table (map of_char (''MAX_PORTS '' @ ''17'' @ [CHR '';'', CHR 0x0A])))\<rparr>"

theorem reload_after_edit_witness:
  "parser_reload_config (Some [map of_char (''MAX_PORTS '' @ ''20'' @ [CHR '';'', CHR 0x0A])])
      (Some (''MAX_PORTS '' @ ''20'' @ [CHR '';'', CHR 0x0A])) edited_parser =
     Inr (if crc32_buffer generate_crc32_table (map of_char (''MAX_PORTS '' @ ''20'' @ [CHR '';'', CHR 0x0A])) = 0 then edited_parser
          else snd (parser_load_config (Some (''MAX_PORTS '' @ ''20'' @ [CHR '';'', CHR 0x0A]))
                     (Some [map of_char (''MAX_PORTS '' @ ''20'' @ [CHR '';'', CHR 0x0A])]) edited_parser)) \<and>
   ps_configs (snd (parser_load_config (Some (''MAX_PORTS '' @ ''20'' @ [CHR '';'', CHR 0x0A]))
                     (Some [map of_char (''MAX_PORTS '' @ ''20'' @ [CHR '';'', CHR 0x0A])]) edited_parser)) =
     (ps_configs edited_parser)(0 := apply_setting (Number CONFIG_MAX_PORTS 20) (ps_configs edited_parser 0))"
proof -
  let ?new = "''MAX_PORTS '' @ ''20'' @ [CHR '';'', CHR 0x0A]" and ?ss = "[Number CONFIG_MAX_PORTS 20]"
  obtain d where parser: "ps_cfg_daemon edited_parser = Some d" "ps_cfg_server edited_parser = Some 0"
    "ps_table edited_parser = generate_crc32_table"
    "ps_last_crc edited_parser = ucast (crc32_buffer generate_crc32_table (map of_char (''MAX_PORTS '' @ ''17'' @ [CHR '';'', CHR 0x0A])))"
    by (simp add: edited_parser_def blank_parser_def)
  have delivers: "delivers ?new [map of_char ?new]" by (rule delivers_whole) simp
  have printed: "?new = render_config ?ss" "\<forall>x \<in> set ?ss. wf_setting x" "wf_config (ps_configs edited_parser 0)"
    by (simp_all add: render_config_def decimal.simps digit_char_def char_of_def bit_0 edited_parser_def blank_parser_def
        uri_keys_def wf_blank_config)
  have "''17'' \<noteq> ''20''" "length ''17'' = length ''20''" "length ''17'' \<le> 4" by simp_all
  note r = reload_after_edit [OF parser this delivers, of ?ss]
  have one: "fold apply_setting ?ss = apply_setting (Number CONFIG_MAX_PORTS 20)" by (simp del: apply_setting.simps)
  show ?thesis by (intro conjI, rule conjunct1 [OF r], rule mp [OF conjunct2 [OF r], unfolded one], intro conjI printed)
qed

text \<open>A reload settles: whatever the file holds, running the reload again on the same file contents
  changes nothing.\<close>

lemma reload_idempotent:
  assumes "parser_reload_config chunks opened p = Inr p'"
  shows "parser_reload_config chunks opened' p' = Inr p'"
proof (cases "ps_cfg_daemon p")
  case (Some d)
  define crc where "crc = crc32_file (ps_table p) chunks"
  show ?thesis
  proof (cases "crc \<noteq> 0 \<and> ucast crc \<noteq> ps_last_crc p")
    case True
    then have "ps_last_crc p' = ucast crc \<and> ps_table p' = ps_table p \<and> ps_cfg_daemon p' = Some d"
      using assms Some by (auto simp: parser_reload_config_def Let_def crc_def split: prod.splits if_splits)
    then show ?thesis by (simp add: parser_reload_config_def Let_def crc_def [symmetric])
  next
    case False
    then show ?thesis using assms Some by (auto simp: parser_reload_config_def Let_def crc_def)
  qed
qed (use assms in \<open>simp add: parser_reload_config_def\<close>)

text \<open>C13: Whatever text the configuration file holds, tokens in any order, unknown words, open quotes,
  numbers and strings of any length, loading and reloading it end with the server's configuration
  object typed as before, its URI fields 64 characters with a terminated string in each, and write no
  other configuration object; loading fails exactly when the file cannot be opened, and reloading
  never faults.\<close>

theorem any_file_keeps_config_typed:
  assumes "ps_cfg_daemon p = Some d" and "ps_cfg_server p = Some a" and "config_typed (ps_configs p a)"
  shows "(case parser_load_config opened chunks p of (ret, p') \<Rightarrow>
       config_typed (ps_configs p' a) \<and> (\<forall>b. b \<noteq> a \<longrightarrow> ps_configs p' b = ps_configs p b) \<and>
       ret = (if opened = None then EOF else 0)) \<and>
     (\<exists>p'. parser_reload_config chunks opened p = Inr p' \<and>
       config_typed (ps_configs p' a) \<and> (\<forall>b. b \<noteq> a \<longrightarrow> ps_configs p' b = ps_configs p b))"
proof -
  have run: "config_typed (mem' a) \<and> (\<forall>b. b \<noteq> a \<longrightarrow> mem' b = ps_configs p b) \<and> ret = 0"
    if "console_run (zero_console\<lparr>cs_cfg := Some a, cs_setting := CONFIG_NONE, cs_input := Some s\<rparr>, ps_configs p) = (ret, st', mem')"
    for s ret st' mem'
    using console_run_reads [OF _ that, of a] assms(3) by simp
  show ?thesis
  proof (cases opened)
    case None
    then show ?thesis using assms
      by (auto simp: parser_load_config_def parser_reload_config_def console_setup_def Let_def)
  next
    case (Some s)
    obtain ret st' mem' where r: "console_run (zero_console\<lparr>cs_cfg := Some a, cs_setting := CONFIG_NONE, cs_input := Some s\<rparr>, ps_configs p) = (ret, st', mem')"
      by (metis prod_cases3)
    then show ?thesis using run [OF r] Some assms
      by (auto simp: parser_load_config_def parser_reload_config_def console_setup_def Let_def)
  qed
qed

theorem any_file_keeps_config_typed_witness:
  "(case parser_load_config (Some ''MAX_PORTS ; TRUNK_ACCEPT_URI \"TCP'') (Some [[77]]) blank_parser of (ret, p') \<Rightarrow>
       config_typed (ps_configs p' 0) \<and> (\<forall>b. b \<noteq> 0 \<longrightarrow> ps_configs p' b = ps_configs blank_parser b) \<and>
       ret = (if Some ''MAX_PORTS ; TRUNK_ACCEPT_URI \"TCP'' = None then EOF else 0)) \<and>
     (\<exists>p'. parser_reload_config (Some [[77]]) (Some ''MAX_PORTS ; TRUNK_ACCEPT_URI \"TCP'') blank_parser = Inr p' \<and>
       config_typed (ps_configs p' 0) \<and> (\<forall>b. b \<noteq> 0 \<longrightarrow> ps_configs p' b = ps_configs blank_parser b))"
  by (rule any_file_keeps_config_typed)
    (simp_all add: blank_parser_def config_typed_def wf_config_def blank_config_def)

end
