(* ===== verification/Orbit_Fifo.thy ===== *)
theory Orbit_Fifo
  imports Orbit_Prelude
begin

text \<open>
  The interface of a bounded first-in first-out buffer, shared by the receive manager
  (\<^verbatim>\<open>src/node/node_recv_manager.c\<close>) and the log buffer (\<^verbatim>\<open>src/log/rb_log.c\<close>), and what a client may
  rely on: any run of insertions and removals behaves as a list, and draining returns the pending
  elements in order. Both providers insert and remove under their mutex, so an interleaving of
  producers and consumers is a sequence of whole operations.
\<close>

section \<open>Operations and the abstract queue\<close>

datatype 'a fifo_op = Put 'a | Get

text \<open>The reference: a list of at most \<open>cap\<close> elements. A \<open>Put\<close> on a full list is refused; a \<open>Get\<close> on an
  empty one finds nothing. The result lists what the \<open>Get\<close>s returned.\<close>

fun list_run :: "nat \<Rightarrow> ('i \<Rightarrow> 'a) \<Rightarrow> 'i fifo_op list \<Rightarrow> 'a list \<Rightarrow> 'a option list \<times> 'a list" where
  "list_run cap item [] q = ([], q)"
| "list_run cap item (Put i # ops) q = list_run cap item ops (if length q < cap then q @ [item i] else q)"
| "list_run cap item (Get # ops) [] = (case list_run cap item ops [] of (outs, q) \<Rightarrow> (None # outs, q))"
| "list_run cap item (Get # ops) (x # q) = (case list_run cap item ops q of (outs, q') \<Rightarrow> (Some x # outs, q'))"

text \<open>A \<open>Put\<close> is never refused during the run.\<close>

fun never_full :: "nat \<Rightarrow> 'a fifo_op list \<Rightarrow> nat \<Rightarrow> bool" where
  "never_full cap [] n \<longleftrightarrow> True"
| "never_full cap (Put a # ops) n \<longleftrightarrow> n < cap \<and> never_full cap ops (Suc n)"
| "never_full cap (Get # ops) n \<longleftrightarrow> never_full cap ops (n - 1)"

text \<open>The same run on an implementation.\<close>

fun fifo_run :: "('i \<Rightarrow> 's \<Rightarrow> 's) \<Rightarrow> ('s \<Rightarrow> ('a \<times> 's) option) \<Rightarrow> 'i fifo_op list \<Rightarrow> 's \<Rightarrow> 'a option list \<times> 's" where
  "fifo_run enq deq [] s = ([], s)"
| "fifo_run enq deq (Put a # ops) s = fifo_run enq deq ops (enq a s)"
| "fifo_run enq deq (Get # ops) s =
     (case deq s of
        None \<Rightarrow> (case fifo_run enq deq ops s of (outs, s') \<Rightarrow> (None # outs, s'))
      | Some (x, s') \<Rightarrow> (case fifo_run enq deq ops s' of (outs, s'') \<Rightarrow> (Some x # outs, s'')))"

section \<open>The interface\<close>

text \<open>An insertion of \<open>i\<close> makes \<open>item i\<close> the newest pending element.\<close>

locale bounded_fifo =
  fixes invar :: "'s \<Rightarrow> bool"
    and pending :: "'s \<Rightarrow> 'a list"
    and cap :: nat
    and item :: "'i \<Rightarrow> 'a"
    and enq :: "'i \<Rightarrow> 's \<Rightarrow> 's"
    and deq :: "'s \<Rightarrow> ('a \<times> 's) option"
  assumes pending_cap: "invar s \<Longrightarrow> length (pending s) \<le> cap"
    and enq_law: "invar s \<Longrightarrow> length (pending s) < cap \<Longrightarrow> invar (enq i s) \<and> pending (enq i s) = pending s @ [item i]"
    and deq_law: "invar s \<Longrightarrow> pending s = x # xs \<Longrightarrow> \<exists>s'. deq s = Some (x, s') \<and> invar s' \<and> pending s' = xs"
    and deq_empty: "invar s \<Longrightarrow> pending s = [] \<Longrightarrow> deq s = None"
begin

lemma run_refines:
  assumes "invar s" and "never_full cap ops (length (pending s))"
  shows "\<exists>s'. fifo_run enq deq ops s = (fst (list_run cap item ops (pending s)), s') \<and> invar s' \<and>
              pending s' = snd (list_run cap item ops (pending s))"
  using assms
proof (induction ops arbitrary: s)
  case (Cons op ops)
  show ?case
  proof (cases op)
    case (Put i)
    then show ?thesis using Cons.IH [of "enq i s"] Cons.prems enq_law [of s i] by simp
  next
    case Get
    show ?thesis
    proof (cases "pending s")
      case Nil
      then show ?thesis using Get Cons.IH [of s] Cons.prems deq_empty by (auto split: prod.splits)
    next
      case (Cons x xs)
      then obtain s' where "deq s = Some (x, s')" "invar s'" "pending s' = xs"
        using deq_law Cons.prems(1) by blast
      then show ?thesis using Get Cons.IH [of s'] Cons.prems Cons by (auto split: prod.splits)
    qed
  qed
qed simp

lemma drain:
  assumes "invar s" and "pending s = xs"
  shows "\<exists>s'. fifo_run enq deq (replicate (length xs) Get) s = (map Some xs, s') \<and> invar s' \<and> pending s' = []"
  using assms
proof (induction xs arbitrary: s)
  case (Cons x xs)
  then obtain s1 where "deq s = Some (x, s1)" "invar s1" "pending s1 = xs" using deq_law by blast
  moreover from this obtain s' where "fifo_run enq deq (replicate (length xs) Get) s1 = (map Some xs, s')"
    "invar s'" "pending s' = []" using Cons.IH by blast
  ultimately show ?case by simp
qed simp

end

text \<open>A buffer that, in addition, refuses an insertion when it is full and keeps its state.\<close>

locale refusing_fifo = bounded_fifo +
  assumes enq_full: "invar s \<Longrightarrow> length (pending s) = cap \<Longrightarrow> enq i s = s"
begin

lemma run_refines_always:
  assumes "invar s"
  shows "\<exists>s'. fifo_run enq deq ops s = (fst (list_run cap item ops (pending s)), s') \<and> invar s' \<and>
              pending s' = snd (list_run cap item ops (pending s))"
  using assms
proof (induction ops arbitrary: s)
  case (Cons op ops)
  show ?case
  proof (cases op)
    case (Put i)
    then show ?thesis
      using Cons.IH [of "enq i s"] Cons.prems enq_law [of s i] enq_full [of s i] pending_cap [of s]
      by (cases "length (pending s) < cap") auto
  next
    case Get
    show ?thesis
    proof (cases "pending s")
      case Nil
      then show ?thesis using Get Cons.IH [of s] Cons.prems deq_empty by (auto split: prod.splits)
    next
      case (Cons x xs)
      then obtain s' where "deq s = Some (x, s')" "invar s'" "pending s' = xs"
        using deq_law Cons.prems(1) by blast
      then show ?thesis using Get Cons.IH [of s'] Cons.prems Cons by (auto split: prod.splits)
    qed
  qed
qed simp

end

section \<open>Positions on a ring of 256 slots\<close>

definition slots_from :: "u8 \<Rightarrow> nat \<Rightarrow> u8 list" where
  "slots_from start n = map (\<lambda>i. start + of_nat i) [0..<n]"

lemma length_slots_from [simp]: "length (slots_from start n) = n"
  by (simp add: slots_from_def)

lemma slots_from_0 [simp]: "slots_from start 0 = []"
  by (simp add: slots_from_def)

lemma slots_from_snoc: "slots_from start (Suc n) = slots_from start n @ [start + of_nat n]"
  by (simp add: slots_from_def)

lemma slots_from_Cons: "slots_from start (Suc n) = start # slots_from (start + 1) n"
  unfolding slots_from_def upt_conv_Cons [OF zero_less_Suc] map_Suc_upt [symmetric]
  by (simp add: add.assoc)

lemma u8_offset_inj:
  assumes "n < 256" and "m < 256"
  shows "(start :: u8) + of_nat n = start + of_nat m \<longleftrightarrow> n = m"
proof
  assume "start + of_nat n = start + of_nat m"
  then have "unat (of_nat n :: u8) = unat (of_nat m :: u8)" by simp
  then show "n = m" using assms by (simp add: unat_of_nat_less)
qed simp

lemma slots_from_distinct: "n \<le> 256 \<Longrightarrow> distinct (slots_from start n)"
  using u8_offset_inj [of _ _ start] by (auto simp: slots_from_def distinct_map inj_on_def simp del: add_left_cancel)

lemma in_slots_from: "s \<in> set (slots_from start n) \<longleftrightarrow> n > 0 \<and> unat (s - start) < n" if "n \<le> 256"
proof
  assume "s \<in> set (slots_from start n)"
  then obtain i where i: "i < n" "s = start + of_nat i" by (auto simp: slots_from_def)
  then have "unat (s - start) = i" using that by (simp add: unat_of_nat_less)
  then show "n > 0 \<and> unat (s - start) < n" using i by simp
next
  assume "n > 0 \<and> unat (s - start) < n"
  then show "s \<in> set (slots_from start n)"
    by (auto simp: slots_from_def intro!: image_eqI [of _ _ "unat (s - start)"])
qed

lemma slots_from_all: "set (slots_from start 256) = UNIV"
proof -
  have "unat (s - start) < 256" for s using unsigned_less [of "s - start", where 'a = nat] by simp
  then show ?thesis using in_slots_from [of 256 _ start] by auto
qed

end
