(* ===== verification/Orbit_Recv.thy ===== *)
theory Orbit_Recv
  imports Orbit_Types Orbit_Fifo
begin

text \<open>
  The receive manager of \<^verbatim>\<open>src/node/node_recv_manager.c\<close>: 256 node slots with a status byte each,
  and two \<open>uint8_t\<close> indices that walk the slots as a ring. A pointer to a slot's node is the slot's
  index. Every operation takes the manager's mutex for its whole body, so it is one step;
  \<open>uint8_t\<close> arithmetic wraps modulo 256, which is the code's \<open>(current + 1) & 0xFF\<close>.
\<close>

section \<open>Operations\<close>

definition slot_busy :: "node_recv_manager \<Rightarrow> u8 \<Rightarrow> bool" where
  "slot_busy m i \<longleftrightarrow> rm_status m ! unat i \<noteq> 0"

definition set_status :: "u8 \<Rightarrow> u8 \<Rightarrow> node_recv_manager \<Rightarrow> node_recv_manager" where
  "set_status i v m = m\<lparr>rm_status := (rm_status m)[unat i := v]\<rparr>"

definition recicle_node :: "node_recv_manager option \<Rightarrow> u8 \<Rightarrow> node_recv_manager option" where
  "recicle_node input pos =
     (case input of None \<Rightarrow> None
      | Some m \<Rightarrow> if pos \<noteq> 0 then Some (set_status pos 0 m) else Some m)"

text \<open>The loop \<open>do { if (hit) return; current = current + 1; } while (current != start)\<close>.\<close>

function ring_scan :: "(u8 \<Rightarrow> bool) \<Rightarrow> u8 \<Rightarrow> u8 \<Rightarrow> u8 option" where
  "ring_scan hit start current =
     (if hit current then Some current
      else if current + 1 = start then None
      else ring_scan hit start (current + 1))"
  by pat_completeness auto
termination
proof (relation "measure (\<lambda>(hit, start, current). unat (start - current - 1))")
  fix hit and start current :: u8
  assume "current + 1 \<noteq> start"
  then have "start - current - 1 \<noteq> 0" by (metis add.commute diff_add_cancel diff_diff_eq right_minus_eq)
  moreover have "start - (current + 1) - 1 = start - current - 1 - 1" by simp
  ultimately show "((hit, start, current + 1), hit, start, current) \<in> measure (\<lambda>(hit, start, current). unat (start - current - 1))"
    using unat_minus_one' [of "start - current - 1"] by (simp add: unat_gt_0)
qed simp

declare ring_scan.simps [simp del]

definition get_free_node ::
    "node_recv_manager option \<Rightarrow> u8 option \<Rightarrow> u8 option \<times> node_recv_manager option \<times> u8 option" where
  "get_free_node input pos =
     (case (input, pos) of
        (Some m, Some _) \<Rightarrow>
          (case ring_scan (\<lambda>i. \<not> slot_busy m i) (rm_next_free m) (rm_next_free m) of
             None \<Rightarrow> (None, input, pos)
           | Some c \<Rightarrow> (Some c, Some ((set_status c 1 m)\<lparr>rm_next_free := c + 1\<rparr>), Some c))
      | _ \<Rightarrow> (None, input, pos))"

definition get_buzy_node ::
    "node_recv_manager option \<Rightarrow> u8 option \<Rightarrow> u8 option \<times> node_recv_manager option \<times> u8 option" where
  "get_buzy_node input pos =
     (case (input, pos) of
        (Some m, Some _) \<Rightarrow>
          (case ring_scan (slot_busy m) (rm_next_busy m) (rm_next_busy m) of
             None \<Rightarrow> (None, input, pos)
           | Some c \<Rightarrow> (Some c, Some ((set_status c 0 m)\<lparr>rm_next_busy := c + 1\<rparr>), Some c))
      | _ \<Rightarrow> (None, input, pos))"

text \<open>The loop of \<open>count_node\<close> over the slots from a position to the last.\<close>

fun count_from :: "u8 list \<Rightarrow> nat \<Rightarrow> nat" where
  "count_from [] ret = ret"
| "count_from (s # rest) ret = count_from rest (if s \<noteq> 0 then Suc ret else ret)"

definition count_node :: "node_recv_manager option \<Rightarrow> nat" where
  "count_node input = (case input of None \<Rightarrow> 0 | Some m \<Rightarrow> count_from (rm_status m) 0)"

text \<open>The scan of \<open>copy_buffer\<close>: the first busy slot at or after a position, or 256.\<close>

fun first_busy :: "u8 list \<Rightarrow> nat \<Rightarrow> nat" where
  "first_busy [] i = i"
| "first_busy (s # rest) i = (if s \<noteq> 0 then i else first_busy rest (Suc i))"

definition copy_buffer ::
    "node_recv_manager option \<Rightarrow> node option \<Rightarrow> u8 option \<Rightarrow>
     (u8 option \<times> node_recv_manager option \<times> node option \<times> u8 option) res" where
  "copy_buffer inst output pos =
     (case (inst, output, pos) of
        (Some m, Some out, Some k) \<Rightarrow>
          (let p = first_busy (drop (unat k) (rm_status m)) (unat k);
               out' = (if p < 256 then rm_nodes m ! p else out)
           in case get_buzy_node inst (Some (of_nat ((p + 1) mod 256))) of
                (slot, inst', pos') \<Rightarrow> Inr (slot, inst', Some out', pos'))
      | (_, _, Some _) \<Rightarrow> Inr (None, inst, output, Some 0)
      | (_, _, None) \<Rightarrow> Inl Null_Deref)"

definition init_node_recv_manager :: "node_recv_manager option \<Rightarrow> int \<times> node_recv_manager option" where
  "init_node_recv_manager input =
     (case input of
        Some m \<Rightarrow> (0, Some (m\<lparr>rm_status := replicate 256 0, rm_next_free := 0, rm_next_busy := 0\<rparr>))
      | None \<Rightarrow> (EOF, None))"

definition stop_node_recv_manager :: "node_recv_manager option \<Rightarrow> node_recv_manager option" where
  "stop_node_recv_manager input = (case input of Some m \<Rightarrow> Some zero_recv | None \<Rightarrow> None)"

section \<open>The scan visits every slot once, in ring order\<close>

lemma ring_scan_find:
  assumes "n < 256"
  shows "ring_scan hit start (start + of_nat n) = find hit (map (\<lambda>i. start + of_nat i) [n..<256])"
  using assms
proof (induction "255 - n" arbitrary: n)
  case 0
  then have n: "n = 255" by simp
  have "start + of_nat n + 1 = start" by (simp add: n)
  then show ?case by (simp add: n ring_scan.simps [of _ start])
next
  case (Suc k)
  have "start + of_nat n + 1 = start + of_nat (Suc n)" by simp
  moreover have "start + of_nat (Suc n) \<noteq> start"
    using u8_offset_inj [of "Suc n" 0 start] Suc by auto
  moreover have "ring_scan hit start (start + of_nat (Suc n)) = find hit (map (\<lambda>i. start + of_nat i) [Suc n..<256])"
    using Suc by (intro Suc(1)) auto
  ultimately show ?case using Suc(3)
    by (simp add: ring_scan.simps [of hit start "start + of_nat n"] upt_conv_Cons [of n] add.assoc add.commute [of 1])
qed

lemma ring_scan_slots: "ring_scan hit start start = find hit (slots_from start 256)"
  using ring_scan_find [of 0 hit start] by (simp add: slots_from_def)

lemma ring_scan_None: "ring_scan hit start start = None \<longleftrightarrow> (\<forall>i. \<not> hit i)"
  by (auto simp: ring_scan_slots find_None_iff slots_from_all)

lemma ring_scan_first:
  assumes "hit (start + of_nat n)" and "n < 256" and "\<forall>j < n. \<not> hit (start + of_nat j)"
  shows "ring_scan hit start start = Some (start + of_nat n)"
  unfolding ring_scan_slots find_Some_iff slots_from_def
  by (rule exI [of _ n]) (use assms in auto)

lemma ring_scan_Some:
  assumes "ring_scan hit start start = Some c"
  obtains n where "n < 256" "c = start + of_nat n" "hit c" "\<forall>j < n. \<not> hit (start + of_nat j)"
proof -
  obtain n where "n < 256" "hit (slots_from start 256 ! n)" "c = slots_from start 256 ! n"
      "\<forall>j < n. \<not> hit (slots_from start 256 ! j)"
    using assms unfolding ring_scan_slots find_Some_iff by auto
  then show ?thesis by (intro that [of n]) (auto simp: slots_from_def)
qed

section \<open>Slots\<close>

definition wf_recv :: "node_recv_manager \<Rightarrow> bool" where
  "wf_recv m \<longleftrightarrow> length (rm_status m) = 256 \<and> length (rm_nodes m) = 256"

lemma u8_less_256 [simp]: "unat (i :: u8) < 256"
  using unsigned_less [of i, where 'a = nat] by simp

lemma unat_inj [simp]: "unat (x :: u8) = unat y \<longleftrightarrow> x = y"
  by (simp add: word_unat_eq_iff)

lemma slot_busy_set_status:
  "wf_recv m \<Longrightarrow> slot_busy (set_status c v m) i \<longleftrightarrow> (if i = c then v \<noteq> 0 else slot_busy m i)"
  by (auto simp: slot_busy_def set_status_def wf_recv_def nth_list_update)

lemma slot_busy_fields [simp]:
  "slot_busy (m\<lparr>rm_next_free := x\<rparr>) i = slot_busy m i" "slot_busy (m\<lparr>rm_next_busy := x\<rparr>) i = slot_busy m i"
  "slot_busy (m\<lparr>rm_nodes := ns\<rparr>) i = slot_busy m i"
  by (simp_all add: slot_busy_def)

lemma set_status_fields [simp]:
  "rm_nodes (set_status c v m) = rm_nodes m" "rm_next_free (set_status c v m) = rm_next_free m"
  "rm_next_busy (set_status c v m) = rm_next_busy m" "length (rm_status (set_status c v m)) = length (rm_status m)"
  by (simp_all add: set_status_def)

lemma wf_recv_simps [simp]:
  "wf_recv (set_status c v m) = wf_recv m" "wf_recv (m\<lparr>rm_next_free := x\<rparr>) = wf_recv m"
  "wf_recv (m\<lparr>rm_next_busy := x\<rparr>) = wf_recv m"
  "length ns = 256 \<Longrightarrow> wf_recv (m\<lparr>rm_nodes := ns\<rparr>) \<longleftrightarrow> length (rm_status m) = 256"
  by (simp_all add: wf_recv_def)

lemma count_from_filter: "count_from xs n = n + length (filter (\<lambda>s. s \<noteq> 0) xs)"
  by (induction xs arbitrary: n) auto

lemma count_node_card: "wf_recv m \<Longrightarrow> count_node (Some m) = card {i. slot_busy m i}"
proof -
  assume wf: "wf_recv m"
  have "length (filter (\<lambda>s. s \<noteq> 0) (rm_status m)) = card {k. k < length (rm_status m) \<and> rm_status m ! k \<noteq> 0}"
    by (rule length_filter_conv_card)
  also have "{k. k < length (rm_status m) \<and> rm_status m ! k \<noteq> 0} = unat ` {i. slot_busy m i}"
  proof (rule set_eqI)
    fix k
    show "k \<in> {k. k < length (rm_status m) \<and> rm_status m ! k \<noteq> 0} \<longleftrightarrow> k \<in> unat ` {i. slot_busy m i}"
    proof
      assume "k \<in> {k. k < length (rm_status m) \<and> rm_status m ! k \<noteq> 0}"
      then have k: "k < 256" "rm_status m ! k \<noteq> 0" using wf by (auto simp: wf_recv_def)
      then have "k = unat (of_nat k :: u8)" by (simp add: unat_of_nat_less)
      then show "k \<in> unat ` {i. slot_busy m i}" using k(2) by (metis imageI mem_Collect_eq slot_busy_def)
    qed (use wf in \<open>auto simp: slot_busy_def wf_recv_def\<close>)
  qed
  also have "card (unat ` {i. slot_busy m i}) = card {i. slot_busy m i}"
    by (rule card_image) (simp add: inj_on_def)
  finally show ?thesis by (simp add: count_node_def count_from_filter)
qed

section \<open>The receive manager as a bounded queue\<close>

text \<open>A producer takes a free slot and fills its node, a consumer takes a busy slot and reads its node. Filling
  and reading come after the mutex is released; the two are called by one thread, the receiver of the
  connection, so nothing comes between.\<close>

definition recv_put :: "node \<Rightarrow> node_recv_manager \<Rightarrow> node_recv_manager" where
  "recv_put a m = (case get_free_node (Some m) (Some 0) of
      (Some c, Some m', _) \<Rightarrow> m'\<lparr>rm_nodes := (rm_nodes m')[unat c := a]\<rparr>
    | _ \<Rightarrow> m)"

definition recv_get :: "node_recv_manager \<Rightarrow> (node \<times> node_recv_manager) option" where
  "recv_get m = (case get_buzy_node (Some m) (Some 0) of
      (Some c, Some m', _) \<Rightarrow> Some (rm_nodes m' ! unat c, m')
    | _ \<Rightarrow> None)"

text \<open>The busy slots are a run on the ring that starts at \<open>next_busy_index\<close> and ends before
  \<open>next_free_index\<close>.\<close>

definition recv_run :: "node_recv_manager \<Rightarrow> nat \<Rightarrow> bool" where
  "recv_run m n \<longleftrightarrow> wf_recv m \<and> n \<le> 256 \<and> rm_next_free m = rm_next_busy m + of_nat n \<and>
     (\<forall>i. slot_busy m i \<longleftrightarrow> i \<in> set (slots_from (rm_next_busy m) n))"

definition recv_invar :: "node_recv_manager \<Rightarrow> bool" where
  "recv_invar m \<longleftrightarrow> (\<exists>n. recv_run m n)"

definition recv_pending :: "node_recv_manager \<Rightarrow> node list" where
  "recv_pending m = map (\<lambda>i. rm_nodes m ! unat i) (takeWhile (slot_busy m) (slots_from (rm_next_busy m) 256))"

lemma slots_from_split: "n \<le> 256 \<Longrightarrow> slots_from b 256 = slots_from b n @ map (\<lambda>i. b + of_nat i) [n..<256]"
  unfolding slots_from_def by (metis le_add_diff_inverse map_append upt_add_eq_append zero_le)

lemma recv_run_pending:
  assumes "recv_run m n"
  shows "recv_pending m = map (\<lambda>i. rm_nodes m ! unat i) (slots_from (rm_next_busy m) n)"
proof -
  let ?b = "rm_next_busy m"
  have n: "n \<le> 256" and busy: "slot_busy m i \<longleftrightarrow> i \<in> set (slots_from ?b n)" for i
    using assms by (auto simp: recv_run_def)
  have "takeWhile (slot_busy m) (slots_from ?b n @ map (\<lambda>i. ?b + of_nat i) [n..<256]) =
      slots_from ?b n @ takeWhile (slot_busy m) (map (\<lambda>i. ?b + of_nat i) [n..<256])"
    by (rule takeWhile_append2) (simp add: busy)
  moreover have "takeWhile (slot_busy m) (map (\<lambda>i. ?b + of_nat i) [n..<256]) = []"
  proof (cases "n < 256")
    case True
    then have "\<not> slot_busy m (?b + of_nat n)" using n by (simp add: busy in_slots_from unat_of_nat_less)
    then show ?thesis using True by (simp add: upt_conv_Cons)
  qed simp
  ultimately show ?thesis by (simp add: recv_pending_def slots_from_split [OF n])
qed

lemma recv_put_run:
  assumes "recv_run m n" and "n < 256"
  shows "recv_run (recv_put a m) (Suc n) \<and> recv_pending (recv_put a m) = recv_pending m @ [a]"
proof -
  let ?b = "rm_next_busy m" and ?c = "rm_next_busy m + of_nat n"
  have wf: "wf_recv m" and busy: "slot_busy m i \<longleftrightarrow> i \<in> set (slots_from ?b n)" and c: "rm_next_free m = ?c" for i
    using assms by (auto simp: recv_run_def)
  have fresh: "?c \<notin> set (slots_from ?b n)" using assms(2) by (simp add: in_slots_from unat_of_nat_less)
  then have "ring_scan (\<lambda>i. \<not> slot_busy m i) ?c ?c = Some ?c"
    using ring_scan_first [of "\<lambda>i. \<not> slot_busy m i" ?c 0] busy by simp
  then have put: "recv_put a m = (set_status ?c 1 m)\<lparr>rm_next_free := ?c + 1, rm_nodes := (rm_nodes m)[unat ?c := a]\<rparr>"
    by (simp add: recv_put_def get_free_node_def c)
  have run: "recv_run (recv_put a m) (Suc n)"
    using wf assms(2) busy
    by (auto simp: recv_run_def put wf_recv_def slot_busy_set_status [OF wf] slots_from_snoc ac_simps)
  have "rm_nodes (recv_put a m) ! unat i = rm_nodes m ! unat i" if "i \<in> set (slots_from ?b n)" for i
  proof -
    have "unat ?c \<noteq> unat i" using that fresh by (auto simp del: unat_inj dest: word_unat_eq_iff [THEN iffD2])
    then show ?thesis by (simp add: put)
  qed
  moreover have "rm_nodes (recv_put a m) ! unat ?c = a" using wf by (simp add: put wf_recv_def)
  ultimately have "recv_pending (recv_put a m) = recv_pending m @ [a]"
    unfolding recv_run_pending [OF run] recv_run_pending [OF assms(1)] by (simp add: put slots_from_snoc)
  with run show ?thesis by simp
qed

lemma recv_get_run:
  assumes "recv_run m (Suc n)"
  shows "\<exists>x m'. recv_get m = Some (x, m') \<and> recv_run m' n \<and> recv_pending m = x # recv_pending m'"
proof -
  let ?b = "rm_next_busy m"
  have wf: "wf_recv m" and n: "n < 256" and busy: "slot_busy m i \<longleftrightarrow> i \<in> set (slots_from ?b (Suc n))"
    and free: "rm_next_free m = ?b + 1 + of_nat n" for i
    using assms by (auto simp: recv_run_def ac_simps)
  have "distinct (slots_from ?b (Suc n))" using n by (intro slots_from_distinct) simp
  then have notin: "?b \<notin> set (slots_from (?b + 1) n)" by (simp add: slots_from_Cons)
  have "ring_scan (slot_busy m) ?b ?b = Some ?b"
    using ring_scan_first [of "slot_busy m" ?b 0] busy by (simp add: slots_from_Cons)
  then have get: "recv_get m = Some (rm_nodes m ! unat ?b, (set_status ?b 0 m)\<lparr>rm_next_busy := ?b + 1\<rparr>)"
    by (simp add: recv_get_def get_buzy_node_def)
  have run: "recv_run ((set_status ?b 0 m)\<lparr>rm_next_busy := ?b + 1\<rparr>) n"
    using wf n busy notin free by (auto simp: recv_run_def slot_busy_set_status [OF wf] slots_from_Cons)
  show ?thesis using get run recv_run_pending [OF run] recv_run_pending [OF assms]
    by (simp add: slots_from_Cons)
qed

lemma recv_run_length: "recv_run m n \<Longrightarrow> length (recv_pending m) = n"
  by (simp add: recv_run_pending)

lemma recv_get_empty: "recv_run m 0 \<Longrightarrow> recv_get m = None"
  using ring_scan_None [of "slot_busy m"] by (simp add: recv_run_def recv_get_def get_buzy_node_def)

lemma recv_put_full:
  assumes "recv_run m 256"
  shows "recv_put a m = m"
proof -
  have "\<forall>i. slot_busy m i" using assms by (simp add: recv_run_def slots_from_all)
  then show ?thesis using ring_scan_None [of "\<lambda>i. \<not> slot_busy m i"] by (simp add: recv_put_def get_free_node_def)
qed

interpretation recv: refusing_fifo recv_invar recv_pending 256 "\<lambda>a. a" recv_put recv_get
proof
  fix m a x xs
  assume "recv_invar m"
  then obtain n where n: "recv_run m n" "length (recv_pending m) = n" by (auto simp: recv_invar_def recv_run_length)
  then show "length (recv_pending m) \<le> 256" by (simp add: recv_run_def)
  show "recv_invar (recv_put a m) \<and> recv_pending (recv_put a m) = recv_pending m @ [a]" if "length (recv_pending m) < 256"
    using recv_put_run [OF n(1)] n(2) that by (auto simp: recv_invar_def)
  show "recv_get m = None" if "recv_pending m = []" using recv_get_empty n that by simp
  show "recv_put a m = m" if "length (recv_pending m) = 256" using recv_put_full n that by simp
  show "\<exists>m'. recv_get m = Some (x, m') \<and> recv_invar m' \<and> recv_pending m' = xs" if "recv_pending m = x # xs"
  proof (cases n)
    case (Suc k)
    then show ?thesis using recv_get_run [of m k] n that by (auto simp: recv_invar_def)
  qed (use n that in simp)
qed

lemma init_recv_run:
  "wf_recv m \<Longrightarrow> init_node_recv_manager (Some m) = (0, Some m0) \<Longrightarrow> recv_run m0 0"
  by (auto simp: init_node_recv_manager_def recv_run_def wf_recv_def slot_busy_def)

lemma wf_zero_recv: "wf_recv zero_recv"
  by (simp add: wf_recv_def zero_recv_def)

section \<open>Properties\<close>

text \<open>C6: After \<open>init_node_recv_manager\<close>, any sequence of producers (take a free slot and fill its node)
  and consumers (take a busy slot and read its node) behaves as a queue of capacity 256: every
  consumer gets the oldest unread node, or nothing exactly when all were read, and a producer is
  refused, with no effect, exactly when 256 nodes are unread. No node is lost, duplicated or
  reordered, also when the \<open>uint8_t\<close> indices wrap.\<close>

theorem recv_manager_is_fifo:
  assumes "wf_recv m" and "init_node_recv_manager (Some m) = (0, Some m0)"
  shows "\<exists>m'. fifo_run recv_put recv_get ops m0 = (fst (list_run 256 (\<lambda>a. a) ops []), m') \<and>
              recv_pending m' = snd (list_run 256 (\<lambda>a. a) ops [])"
proof -
  have "recv_run m0 0" using init_recv_run assms by blast
  then have "recv_invar m0" "recv_pending m0 = []" using recv_run_length [of m0 0] by (auto simp: recv_invar_def)
  then show ?thesis using recv.run_refines_always [of m0 ops] by auto
qed

theorem recv_manager_is_fifo_witness:
  "\<exists>m'. fifo_run recv_put recv_get [Put (zero_node\<lparr>nd_fd := 1\<rparr>), Put (zero_node\<lparr>nd_fd := 2\<rparr>), Get, Get, Get] zero_recv =
      (fst (list_run 256 (\<lambda>a. a) [Put (zero_node\<lparr>nd_fd := 1\<rparr>), Put (zero_node\<lparr>nd_fd := 2\<rparr>), Get, Get, Get] []), m') \<and>
      recv_pending m' = snd (list_run 256 (\<lambda>a. a) [Put (zero_node\<lparr>nd_fd := 1\<rparr>), Put (zero_node\<lparr>nd_fd := 2\<rparr>), Get, Get, Get] [])"
  by (rule recv_manager_is_fifo [OF wf_zero_recv]) (simp add: init_node_recv_manager_def zero_recv_def)

text \<open>\<open>c\<close> is the first slot on the ring from \<open>start\<close> whose status is not \<open>v\<close>, and \<open>m'\<close> differs from \<open>m\<close>
  in that status and in indices only.\<close>

definition flips_first :: "u8 \<Rightarrow> bool \<Rightarrow> node_recv_manager \<Rightarrow> u8 \<Rightarrow> node_recv_manager \<Rightarrow> bool" where
  "flips_first start v m c m' \<longleftrightarrow>
     (\<exists>k < 256. c = start + of_nat k \<and> slot_busy m c \<noteq> v \<and> (\<forall>j < k. slot_busy m (start + of_nat j) = v)) \<and>
     (\<forall>i. slot_busy m' i = (if i = c then v else slot_busy m i)) \<and> rm_nodes m' = rm_nodes m"

lemma get_free_cases:
  assumes "wf_recv m"
  shows "(\<forall>i. slot_busy m i) \<and> get_free_node (Some m) (Some q) = (None, Some m, Some q) \<or>
     (\<exists>c m'. get_free_node (Some m) (Some q) = (Some c, Some m', Some c) \<and> wf_recv m' \<and>
        flips_first (rm_next_free m) True m c m' \<and> rm_next_free m' = c + 1 \<and> rm_next_busy m' = rm_next_busy m)"
proof (cases "ring_scan (\<lambda>i. \<not> slot_busy m i) (rm_next_free m) (rm_next_free m)")
  case None
  then show ?thesis using ring_scan_None [of "\<lambda>i. \<not> slot_busy m i"] by (simp add: get_free_node_def)
next
  case (Some c)
  then obtain k where "k < 256" "c = rm_next_free m + of_nat k" "\<not> slot_busy m c"
    "\<forall>j < k. slot_busy m (rm_next_free m + of_nat j)" by (rule ring_scan_Some) auto
  then show ?thesis using Some assms
    by (auto simp: get_free_node_def flips_first_def slot_busy_set_status)
qed

lemma get_buzy_cases:
  assumes "wf_recv m"
  shows "(\<forall>i. \<not> slot_busy m i) \<and> get_buzy_node (Some m) (Some q) = (None, Some m, Some q) \<or>
     (\<exists>c m'. get_buzy_node (Some m) (Some q) = (Some c, Some m', Some c) \<and> wf_recv m' \<and>
        flips_first (rm_next_busy m) False m c m' \<and> rm_next_busy m' = c + 1 \<and> rm_next_free m' = rm_next_free m)"
proof (cases "ring_scan (slot_busy m) (rm_next_busy m) (rm_next_busy m)")
  case None
  then show ?thesis using ring_scan_None [of "slot_busy m"] by (simp add: get_buzy_node_def)
next
  case (Some c)
  then obtain k where "k < 256" "c = rm_next_busy m + of_nat k" "slot_busy m c"
    "\<forall>j < k. \<not> slot_busy m (rm_next_busy m + of_nat j)" by (rule ring_scan_Some) auto
  then show ?thesis using Some assms
    by (auto simp: get_buzy_node_def flips_first_def slot_busy_set_status)
qed

lemma flips_first_count:
  assumes "wf_recv m" and "wf_recv m'" and "flips_first start v m c m'"
  shows "count_node (Some m') + (if v then 0 else 1) = count_node (Some m) + (if v then 1 else 0)"
proof -
  have "{i. slot_busy m' i} = (if v then insert c {i. slot_busy m i} else {i. slot_busy m i} - {c})"
    "c \<in> {i. slot_busy m i} \<longleftrightarrow> \<not> v"
    using assms(3) by (auto simp: flips_first_def)
  moreover have "finite {i. slot_busy m i}" by simp
  ultimately show ?thesis
    using assms(1,2) card_Suc_Diff1 [of "{i. slot_busy m i}" c] by (auto simp: count_node_card)
qed

text \<open>On every state of the slots, queue-shaped or not, \<open>get_free_node\<close> either returns null,
  exactly when all 256 slots are busy, and changes nothing, or takes the first free slot on the ring
  from \<open>next_free_index\<close> and marks it busy, no other slot changing; \<open>get_buzy_node\<close> is the dual; and
  \<open>count_node\<close> goes up, or down, by exactly one.\<close>

lemma recv_slot_allocation:
  assumes "wf_recv m"
  shows "((\<forall>i. slot_busy m i) \<and> get_free_node (Some m) (Some q) = (None, Some m, Some q) \<or>
          (\<exists>c m'. get_free_node (Some m) (Some q) = (Some c, Some m', Some c) \<and>
             flips_first (rm_next_free m) True m c m' \<and> rm_next_free m' = c + 1 \<and>
             count_node (Some m') = count_node (Some m) + 1)) \<and>
         ((\<forall>i. \<not> slot_busy m i) \<and> get_buzy_node (Some m) (Some q) = (None, Some m, Some q) \<or>
          (\<exists>c m'. get_buzy_node (Some m) (Some q) = (Some c, Some m', Some c) \<and>
             flips_first (rm_next_busy m) False m c m' \<and> rm_next_busy m' = c + 1 \<and>
             count_node (Some m') + 1 = count_node (Some m)))"
  using get_free_cases [OF assms, of q] get_buzy_cases [OF assms, of q]
    flips_first_count [OF assms, of _ _ True] flips_first_count [OF assms, of _ _ False]
  by (auto; fastforce)

text \<open>\<open>copy_buffer\<close> takes the copy and the returned node from two places: the copy is the first
  busy slot at or after \<open>*pos\<close>, the returned (and freed) slot is the head of the queue, whatever
  \<open>*pos\<close> is. When the queue's head lies before \<open>*pos\<close> they are different nodes: the copied node stays
  queued and the freed one was not copied.\<close>

lemma copy_buffer_two_nodes:
  assumes "recv_run m (Suc n)" and "unat k \<le> p" and "p < 256" and "slot_busy m (of_nat p)"
    and "\<forall>j. unat k \<le> j \<and> j < p \<longrightarrow> \<not> slot_busy m (of_nat j)"
  shows "\<exists>m'. copy_buffer (Some m) (Some out) (Some k) =
           Inr (Some (rm_next_busy m), Some m', Some (rm_nodes m ! p), Some (rm_next_busy m)) \<and>
           (\<forall>i. slot_busy m' i \<longleftrightarrow> slot_busy m i \<and> i \<noteq> rm_next_busy m)"
proof -
  have wf: "wf_recv m" using assms(1) by (simp add: recv_run_def)
  have idle: "first_busy xs i = i + d" if "d < length xs" "xs ! d \<noteq> 0" "\<forall>j < d. xs ! j = 0" for xs i d
    using that
  proof (induction xs arbitrary: i d)
    case (Cons x xs)
    then show ?case by (cases d) (force simp: nth_Cons')+
  qed simp
  have st: "rm_status m ! j \<noteq> 0 \<longleftrightarrow> slot_busy m (of_nat j)" if "j < 256" for j
    using that by (simp add: slot_busy_def unat_of_nat_less)
  have "first_busy (drop (unat k) (rm_status m)) (unat k) = unat k + (p - unat k)"
  proof (rule idle)
    show "\<forall>j < p - unat k. drop (unat k) (rm_status m) ! j = 0"
    proof (intro allI impI)
      fix j
      assume "j < p - unat k"
      moreover from this have "\<not> slot_busy m (of_nat (unat k + j))" using assms(5) by (auto simp del: of_nat_add)
      ultimately show "drop (unat k) (rm_status m) ! j = 0"
        using st [of "unat k + j"] assms(3) wf by (simp add: wf_recv_def)
    qed
  qed (use assms(2-4) st [of p] wf in \<open>auto simp: wf_recv_def\<close>)
  then have p: "first_busy (drop (unat k) (rm_status m)) (unat k) = p" using assms(2) by simp
  have busy: "slot_busy m (rm_next_busy m)" using assms(1) by (auto simp: recv_run_def slots_from_Cons)
  then have "ring_scan (slot_busy m) (rm_next_busy m) (rm_next_busy m) = Some (rm_next_busy m)"
    using ring_scan_first [of "slot_busy m" "rm_next_busy m" 0] by simp
  then show ?thesis using assms(3) slot_busy_set_status [OF wf, of "rm_next_busy m" 0]
    by (auto simp: copy_buffer_def p get_buzy_node_def Let_def)
qed

end
