(* ===== verification/Orbit_Log.thy ===== *)
theory Orbit_Log
  imports Orbit_Text Orbit_Fifo
begin

text \<open>
  The log of \<^verbatim>\<open>src/log/rb_log.c\<close>: a ring of 256 lines of 512 characters, filled by \<open>rb_log_push\<close>
  under the buffer's mutex and drained in batches of at most 16 lines by the log thread and by
  \<open>rb_log_flush\<close>; with the level mask of \<^verbatim>\<open>src/include/funcs.h\<close> and the exception messages of
  \<^verbatim>\<open>src/log/include/rb_exceptions.h\<close>. What a batch is written to is recorded as an output; the
  socket calls themselves are outside the model.
\<close>

section \<open>Levels and exception messages\<close>

datatype rb_log_level = rb_log_level_fatal | rb_log_level_error | rb_log_level_warn
  | rb_log_level_info | rb_log_level_debug

fun level_value :: "rb_log_level \<Rightarrow> u32" where
  "level_value rb_log_level_fatal = 0x01"
| "level_value rb_log_level_error = 0x02"
| "level_value rb_log_level_warn = 0x04"
| "level_value rb_log_level_info = 0x08"
| "level_value rb_log_level_debug = 0x10"

text \<open>A level argument is the integer the caller passes, which may be no enumerator.\<close>

definition rb_log_enabled :: "u8 \<Rightarrow> u32 \<Rightarrow> u32" where
  "rb_log_enabled m l = ucast m AND l"

definition rb_log_level_name :: "u32 \<Rightarrow> string" where
  "rb_log_level_name l =
     (if l = level_value rb_log_level_fatal then ''FATAL''
      else if l = level_value rb_log_level_error then ''ERROR''
      else if l = level_value rb_log_level_warn then ''WARN''
      else if l = level_value rb_log_level_info then ''INFO''
      else if l = level_value rb_log_level_debug then ''DEBUG''
      else ''???'')"

section \<open>The buffer\<close>

definition RB_LOG_LINE_SIZE :: nat where "RB_LOG_LINE_SIZE = 512"
definition RB_LOG_BUFFER_SIZE :: nat where "RB_LOG_BUFFER_SIZE = 256"

record rb_log_buffer =
  lb_queue :: "string list"
  lb_write_pos :: u16
  lb_read_pos :: u16

record log_state =
  lg_buf :: rb_log_buffer
  lg_fd :: int
  lg_run :: bool

definition next_pos :: "u16 \<Rightarrow> u16" where
  "next_pos p = (p + 1) mod of_nat RB_LOG_BUFFER_SIZE"

definition zero_log_buffer :: rb_log_buffer where
  "zero_log_buffer = \<lparr>lb_queue = replicate RB_LOG_BUFFER_SIZE (replicate RB_LOG_LINE_SIZE NUL),
     lb_write_pos = 0, lb_read_pos = 0\<rparr>"

definition rb_log_init :: "log_state \<Rightarrow> log_state" where
  "rb_log_init st = st\<lparr>lg_buf := zero_log_buffer, lg_run := True\<rparr>"

section \<open>\<open>rb_log_push\<close>\<close>

text \<open>\<open>while (*s && p < end) *p++ = *s++\<close>: what is stored so far is the first argument.\<close>

fun put_chars :: "string \<Rightarrow> string \<Rightarrow> string" where
  "put_chars p [] = p"
| "put_chars p (c # cs) = (if length p < RB_LOG_LINE_SIZE - 1 then put_chars (p @ [c]) cs else p)"

text \<open>The number is built from its last digit, in front of what is already there.\<close>

fun line_digits :: "nat \<Rightarrow> string \<Rightarrow> string" where
  "line_digits n acc =
     (if 0 < n div 10 then line_digits (n div 10) (digit_char (n mod 10) # acc)
      else digit_char (n mod 10) # acc)"

declare line_digits.simps [simp del]

text \<open>The sign of the line number. The code negates a C \<open>int\<close>, which is undefined for the least one; its callers
  pass \<^verbatim>\<open>__LINE__\<close>.\<close>

definition line_text :: "int \<Rightarrow> string" where
  "line_text line = (let num = line_digits (nat (if line < 0 then - line else line)) []
                     in if line < 0 then CHR ''-'' # num else num)"

definition format_line :: "string \<Rightarrow> int \<Rightarrow> string \<Rightarrow> string" where
  "format_line func line msg =
     (let p = put_chars [] (cstring func);
          p = put_chars p '' '';
          p = put_chars p ''('';
          p = put_chars p (line_text line);
          p = put_chars p '')'';
          p = put_chars p '' ''
      in put_chars p (cstring msg))"

definition store_line :: "string \<Rightarrow> rb_log_buffer \<Rightarrow> rb_log_buffer" where
  "store_line p b =
     (let w = unat (lb_write_pos b)
      in b\<lparr>lb_queue := (lb_queue b)[w := (store_chars (lb_queue b ! w) p)[length p := NUL]],
           lb_write_pos := next_pos (lb_write_pos b)\<rparr>)"

definition rb_log_push :: "u8 option \<Rightarrow> u32 \<Rightarrow> string \<Rightarrow> string \<Rightarrow> int \<Rightarrow> log_state \<Rightarrow> log_state" where
  "rb_log_push cfg_level level msg func line st =
     (if cfg_level = None \<or> rb_log_enabled (the cfg_level) level \<noteq> 0
      then st\<lparr>lg_buf := store_line (format_line func line msg) (lg_buf st)\<rparr>
      else st)"

section \<open>Draining\<close>

datatype log_output = Writev "string list" | Stderr string

fun take_batch :: "nat \<Rightarrow> rb_log_buffer \<Rightarrow> string list \<times> rb_log_buffer" where
  "take_batch 0 b = ([], b)"
| "take_batch (Suc n) b =
     (if lb_read_pos b = lb_write_pos b then ([], b)
      else (case take_batch n (b\<lparr>lb_read_pos := next_pos (lb_read_pos b)\<rparr>) of
              (rest, b') \<Rightarrow> (cstring (lb_queue b ! unat (lb_read_pos b)) # rest, b')))"

text \<open>The loop that empties the buffer; \<open>None\<close> if it does not return.\<close>

partial_function (option) drain_log :: "rb_log_buffer \<Rightarrow> (string list list \<times> rb_log_buffer) option" where
  "drain_log b =
     (if lb_read_pos b = lb_write_pos b then Some ([], b)
      else (case take_batch 16 b of (batch, b') \<Rightarrow>
              Option.bind (drain_log b') (\<lambda>(batches, b''). Some (batch # batches, b''))))"

definition thread_output :: "int \<Rightarrow> string list list \<Rightarrow> log_output list" where
  "thread_output fd batches = (if 0 \<le> fd then map Writev batches else map Stderr (concat batches))"

definition flush_output :: "int \<Rightarrow> string list list \<Rightarrow> log_output list" where
  "flush_output fd batches = (if 0 \<le> fd then map Writev batches else [])"

text \<open>One turn of the log thread, from taking the mutex to releasing it, when it does not wait. It
  waits while the buffer is empty and \<open>run\<close> is set.\<close>

definition log_thread_waits :: "log_state \<Rightarrow> bool" where
  "log_thread_waits st \<longleftrightarrow> lb_read_pos (lg_buf st) = lb_write_pos (lg_buf st) \<and> lg_run st"

definition log_thread_turn :: "log_state \<Rightarrow> (log_output list \<times> log_state) option" where
  "log_thread_turn st =
     (case drain_log (lg_buf st) of
        None \<Rightarrow> None
      | Some (batches, b) \<Rightarrow> Some (thread_output (lg_fd st) batches, st\<lparr>lg_buf := b\<rparr>))"

text \<open>How the thread starts: the results of \<open>socket\<close> and of \<open>connect\<close>. It runs its loop only when both
  succeed.\<close>

definition log_thread_start :: "int \<Rightarrow> int \<Rightarrow> log_state \<Rightarrow> bool \<times> log_state" where
  "log_thread_start socket_result connect_result st =
     (if socket_result < 0 then (False, st\<lparr>lg_fd := socket_result\<rparr>)
      else if connect_result < 0 then (False, st\<lparr>lg_fd := EOF\<rparr>)
      else (True, st\<lparr>lg_fd := socket_result\<rparr>))"

definition rb_log_flush :: "log_state \<Rightarrow> (log_output list \<times> log_state) option" where
  "rb_log_flush st =
     (case drain_log (lg_buf st) of
        None \<Rightarrow> None
      | Some (batches, b) \<Rightarrow> Some (flush_output (lg_fd st) batches, st\<lparr>lg_buf := b\<rparr>))"

text \<open>\<open>rb_log_shutdown\<close> clears \<open>run\<close>, and the joined thread, if it is running, drains once more and
  closes its socket.\<close>

definition rb_log_shutdown :: "bool \<Rightarrow> log_state \<Rightarrow> (log_output list \<times> log_state) option" where
  "rb_log_shutdown thread_runs st =
     (let st1 = st\<lparr>lg_run := False\<rparr>
      in if thread_runs then
           (case log_thread_turn st1 of
              None \<Rightarrow> None
            | Some (out, st2) \<Rightarrow> Some (out, if 0 \<le> lg_fd st2 then st2\<lparr>lg_fd := EOF\<rparr> else st2))
         else Some ([], st1))"

section \<open>Exceptions\<close>

datatype rb_exception_code = RB_EXC_OK | RB_EXC_ALLOC_FAIL | RB_EXC_NULL_CONFIG | RB_EXC_SERVER_INIT
  | RB_EXC_FORK_FAIL | RB_EXC_POSIX_ERROR | RB_EXC_UNKNOWN | RB_EXC_MAX

fun exception_value :: "rb_exception_code \<Rightarrow> u32" where
  "exception_value RB_EXC_OK = 0"
| "exception_value RB_EXC_ALLOC_FAIL = 1"
| "exception_value RB_EXC_NULL_CONFIG = 2"
| "exception_value RB_EXC_SERVER_INIT = 3"
| "exception_value RB_EXC_FORK_FAIL = 4"
| "exception_value RB_EXC_POSIX_ERROR = 5"
| "exception_value RB_EXC_UNKNOWN = 6"
| "exception_value RB_EXC_MAX = 7"

definition rb_exception_messages :: "string list" where
  "rb_exception_messages =
    [''Sem erro'',
     ''Falha de aloca'' @ [CHR 0xE7, CHR 0xE3] @ ''o (calloc)'',
     ''Ponteiro de configura'' @ [CHR 0xE7, CHR 0xE3] @ ''o nulo'',
     ''Erro ao criar servidor'',
     ''Erro no fork()'',
     ''Erro POSIX (use strerror)'',
     ''Exce'' @ [CHR 0xE7, CHR 0xE3] @ ''o desconhecida'']"

definition rb_exc_message :: "u32 \<Rightarrow> string" where
  "rb_exc_message code =
     (if code < exception_value RB_EXC_MAX then rb_exception_messages ! unat code
      else ''C'' @ [CHR 0xF3] @ ''digo inv'' @ [CHR 0xE1] @ ''lido'')"

section \<open>The formatted line\<close>

lemma put_chars_take:
  "length p \<le> 511 \<Longrightarrow> put_chars p s = p @ take (511 - length p) s"
proof (induction s arbitrary: p)
  case (Cons c s)
  then show ?case by (cases "length p = 511") (auto simp: RB_LOG_LINE_SIZE_def Suc_diff_Suc take_Cons')
qed simp

lemma put_chars_appends: "put_chars (take 511 p') s = take 511 (p' @ s)"
  by (simp add: put_chars_take min_def)

lemma line_digits_decimal: "line_digits n acc = decimal n @ acc"
proof (induction n arbitrary: acc rule: less_induct)
  case (less n)
  show ?case
  proof (cases "0 < n div 10")
    case True
    then show ?thesis using less [of "n div 10"]
      by (subst line_digits.simps, subst decimal.simps) auto
  next
    case False
    then show ?thesis by (subst line_digits.simps, subst decimal.simps) auto
  qed
qed

definition full_line :: "string \<Rightarrow> int \<Rightarrow> string \<Rightarrow> string" where
  "full_line func line msg = cstring func @ '' ('' @ (if line < 0 then ''-'' else []) @
     decimal (nat \<bar>line\<bar>) @ '') '' @ cstring msg"

lemma format_line_full: "format_line func line msg = take 511 (full_line func line msg)"
proof -
  have start: "put_chars [] s = take 511 s" for s by (simp add: put_chars_take)
  have "format_line func line msg =
      take 511 ((((((cstring func @ '' '') @ ''('') @ line_text line) @ '')'') @ '' '') @ cstring msg)"
    by (simp only: format_line_def Let_def start put_chars_appends)
  then show ?thesis
    by (simp add: full_line_def line_text_def line_digits_decimal Let_def del: take_append)
qed

lemma full_line_no_nul: "NUL \<notin> set (full_line func line msg)"
proof -
  have "NUL \<notin> set (cstring t)" for t by (auto simp: cstring_def dest: set_takeWhileD)
  moreover have "NUL \<notin> set (decimal n)" for n using decimal_digits [of NUL n] is_digit_not by blast
  ultimately show ?thesis by (simp add: full_line_def)
qed

lemma format_line_ok: "NUL \<notin> set (format_line func line msg)" "length (format_line func line msg) < 512"
  using full_line_no_nul [of func line msg] by (auto simp: format_line_full dest: in_set_takeD)

section \<open>The buffer as a bounded queue\<close>

definition wf_log :: "rb_log_buffer \<Rightarrow> bool" where
  "wf_log b \<longleftrightarrow> length (lb_queue b) = 256 \<and> (\<forall>l \<in> set (lb_queue b). length l = 512) \<and>
     unat (lb_write_pos b) < 256 \<and> unat (lb_read_pos b) < 256"

definition log_count :: "rb_log_buffer \<Rightarrow> nat" where
  "log_count b = (unat (lb_write_pos b) + 256 - unat (lb_read_pos b)) mod 256"

definition log_line :: "rb_log_buffer \<Rightarrow> nat \<Rightarrow> string" where
  "log_line b i = cstring (lb_queue b ! ((unat (lb_read_pos b) + i) mod 256))"

definition log_pending :: "rb_log_buffer \<Rightarrow> string list" where
  "log_pending b = map (log_line b) [0..<log_count b]"

lemma mod_256_small: "x < 512 \<Longrightarrow> x mod 256 = (if x < 256 then x else x - 256)" for x :: nat
  by (simp add: mod_if)

lemma unat_next_pos: "unat p < 256 \<Longrightarrow> unat (next_pos p) = (unat p + 1) mod 256"
proof -
  assume p: "unat p < 256"
  have "unat (p + 1) = unat p + 1"
    using p by (subst unat_word_ariths) simp
  then show ?thesis by (simp add: next_pos_def RB_LOG_BUFFER_SIZE_def unat_mod)
qed

lemma log_count_cases:
  "wf_log b \<Longrightarrow> log_count b = (if unat (lb_read_pos b) \<le> unat (lb_write_pos b)
     then unat (lb_write_pos b) - unat (lb_read_pos b) else unat (lb_write_pos b) + 256 - unat (lb_read_pos b))"
  by (auto simp: wf_log_def log_count_def mod_256_small)

lemma log_count_less: "log_count b < 256"
  by (simp add: log_count_def)

lemma log_empty_iff: "wf_log b \<Longrightarrow> log_count b = 0 \<longleftrightarrow> lb_read_pos b = lb_write_pos b"
  by (auto simp: log_count_cases word_unat_eq_iff) (auto simp: wf_log_def)

lemma store_line_wf:
  assumes "wf_log b" and "length p < 512"
  shows "wf_log (store_line p b)"
proof -
  have "length (lb_queue b ! unat (lb_write_pos b)) = 512" using assms(1) by (simp add: wf_log_def)
  then have "length ((store_chars (lb_queue b ! unat (lb_write_pos b)) p)[length p := NUL]) = 512"
    using assms(2) by simp
  then show ?thesis using assms(1)
    by (auto simp: wf_log_def store_line_def Let_def unat_next_pos dest!: set_update_subset_insert [THEN subsetD])
qed

lemma store_line_count:
  assumes "wf_log b"
  shows "log_count (store_line p b) = (if log_count b = 255 then 0 else log_count b + 1)"
proof -
  have "unat (lb_write_pos b) < 256" "unat (lb_read_pos b) < 256" using assms by (auto simp: wf_log_def)
  then show ?thesis
    by (auto simp: log_count_def store_line_def Let_def unat_next_pos mod_256_small split: if_splits)
qed

lemma store_line_line:
  assumes "wf_log b" and "length p < 512" and "NUL \<notin> set p" and "i \<le> log_count b" and "i < 255 \<or> i < log_count b"
  shows "log_line (store_line p b) i = (if i = log_count b then p else log_line b i)"
proof -
  let ?w = "unat (lb_write_pos b)" and ?r = "unat (lb_read_pos b)"
  have lens: "?w < 256" "?r < 256" "length (lb_queue b) = 256" using assms(1) by (auto simp: wf_log_def)
  then have at: "(?r + i) mod 256 = ?w \<longleftrightarrow> i = log_count b"
    using assms(4) log_count_less [of b] log_count_cases [OF assms(1)] by (auto simp: mod_256_small split: if_splits)
  have "length (lb_queue b ! ?w) = 512" using assms(1) by (simp add: wf_log_def)
  then have "cstring ((store_chars (lb_queue b ! ?w) p)[length p := NUL]) = p"
    using assms(2,3) store_terminated [of "length p" p "lb_queue b ! ?w"] by simp
  moreover have "lb_read_pos (store_line p b) = lb_read_pos b"
    "lb_queue (store_line p b) = (lb_queue b)[?w := (store_chars (lb_queue b ! ?w) p)[length p := NUL]]"
    by (simp_all add: store_line_def Let_def)
  ultimately show ?thesis unfolding log_line_def at [symmetric] using lens by simp
qed

lemma store_line_pending:
  assumes "wf_log b" and "length p < 512" and "NUL \<notin> set p" and "log_count b < 255"
  shows "log_pending (store_line p b) = log_pending b @ [p]"
proof -
  have "log_count (store_line p b) = Suc (log_count b)" using store_line_count [OF assms(1)] assms(4) by simp
  moreover have "map (log_line (store_line p b)) [0..<log_count b] = map (log_line b) [0..<log_count b]"
    using store_line_line [OF assms(1-3)] by auto
  moreover have "log_line (store_line p b) (log_count b) = p" using store_line_line [OF assms(1-3)] assms(4) by simp
  ultimately show ?thesis by (simp add: log_pending_def)
qed

definition log_put :: "string \<times> int \<times> string \<Rightarrow> rb_log_buffer \<Rightarrow> rb_log_buffer" where
  "log_put = (\<lambda>(func, line, msg) b. store_line (format_line func line msg) b)"

definition log_item :: "string \<times> int \<times> string \<Rightarrow> string" where
  "log_item = (\<lambda>(func, line, msg). take 511 (full_line func line msg))"

definition log_get :: "rb_log_buffer \<Rightarrow> (string \<times> rb_log_buffer) option" where
  "log_get b = (case take_batch 1 b of ([l], b') \<Rightarrow> Some (l, b') | _ \<Rightarrow> None)"

lemma advance_read:
  assumes "wf_log b" and "log_count b = Suc n"
  defines "b' \<equiv> b\<lparr>lb_read_pos := next_pos (lb_read_pos b)\<rparr>"
  shows "wf_log b' \<and> log_count b' = n \<and> log_pending b = cstring (lb_queue b ! unat (lb_read_pos b)) # log_pending b'"
proof -
  let ?w = "unat (lb_write_pos b)" and ?r = "unat (lb_read_pos b)"
  have lens: "?w < 256" "?r < 256" using assms(1) by (auto simp: wf_log_def)
  have wf: "wf_log b'" using assms(1) by (auto simp: wf_log_def b'_def unat_next_pos)
  have count: "log_count b' = n"
    using assms(2) lens by (auto simp: log_count_def b'_def unat_next_pos mod_256_small split: if_splits)
  have "log_line b' i = log_line b (Suc i)" for i
  proof -
    have "(unat (next_pos (lb_read_pos b)) + i) mod 256 = (?r + Suc i) mod 256"
      using lens by (simp add: unat_next_pos mod_simps)
    then show ?thesis by (simp add: log_line_def b'_def)
  qed
  then have "map (log_line b') [0..<n] = map (log_line b) [Suc 0..<Suc n]"
    by (simp add: map_Suc_upt [symmetric] del: upt_Suc)
  moreover have "log_line b 0 = cstring (lb_queue b ! ?r)" using lens by (simp add: log_line_def)
  ultimately show ?thesis using wf count
    by (simp add: log_pending_def assms(2) upt_conv_Cons del: upt_Suc)
qed

lemma log_get_Cons:
  assumes "wf_log b" and "log_pending b = x # xs"
  shows "\<exists>b'. log_get b = Some (x, b') \<and> wf_log b' \<and> log_pending b' = xs"
proof -
  obtain n where n: "log_count b = Suc n" using assms(2) by (cases "log_count b") (auto simp: log_pending_def)
  then have "lb_read_pos b \<noteq> lb_write_pos b" using log_empty_iff [OF assms(1)] by simp
  then show ?thesis using advance_read [OF assms(1) n] assms(2) by (simp add: log_get_def)
qed

lemma length_log_pending [simp]: "length (log_pending b) = log_count b"
  by (simp add: log_pending_def)

interpretation log: bounded_fifo wf_log log_pending 255 log_item log_put log_get
proof
  fix b i x xs
  assume wf: "wf_log b"
  show "length (log_pending b) \<le> 255" using log_count_less [of b] by simp
  show "wf_log (log_put i b) \<and> log_pending (log_put i b) = log_pending b @ [log_item i]"
    if "length (log_pending b) < 255"
    using that wf format_line_ok store_line_wf store_line_pending
    by (auto simp: log_put_def log_item_def format_line_full [symmetric] split: prod.splits)
  show "\<exists>b'. log_get b = Some (x, b') \<and> wf_log b' \<and> log_pending b' = xs" if "log_pending b = x # xs"
    using that wf log_get_Cons by blast
  show "log_get b = None" if "log_pending b = []"
    using that log_empty_iff [OF wf] by (simp add: log_get_def log_pending_def)
qed

section \<open>Batches\<close>

lemma take_batch_pending:
  "wf_log b \<Longrightarrow> \<exists>b'. take_batch n b = (take n (log_pending b), b') \<and> wf_log b' \<and> log_pending b' = drop n (log_pending b)"
proof (induction n arbitrary: b)
  case (Suc n)
  show ?case
  proof (cases "log_count b")
    case 0
    then show ?thesis using log_empty_iff [OF Suc.prems] Suc.prems by (simp add: log_pending_def)
  next
    case (Suc m)
    then have "lb_read_pos b \<noteq> lb_write_pos b" using log_empty_iff [OF Suc.prems] by simp
    moreover note advance_read [OF Suc.prems Suc]
    moreover from this obtain b' where
      "take_batch n (b\<lparr>lb_read_pos := next_pos (lb_read_pos b)\<rparr>) =
         (take n (log_pending (b\<lparr>lb_read_pos := next_pos (lb_read_pos b)\<rparr>)), b')"
      "wf_log b'" "log_pending b' = drop n (log_pending (b\<lparr>lb_read_pos := next_pos (lb_read_pos b)\<rparr>))"
      using Suc.IH by blast
    ultimately show ?thesis by auto
  qed
qed simp

lemma drain_log_total:
  assumes "wf_log b"
  shows "\<exists>batches b'. drain_log b = Some (batches, b') \<and> concat batches = log_pending b \<and>
     (\<forall>x \<in> set batches. 1 \<le> length x \<and> length x \<le> 16) \<and> length batches = (log_count b + 15) div 16 \<and>
     wf_log b' \<and> log_pending b' = []"
  using assms
proof (induction "log_count b" arbitrary: b rule: less_induct)
  case less
  show ?case
  proof (cases "log_count b = 0")
    case True
    then have "lb_read_pos b = lb_write_pos b" using log_empty_iff [OF less.prems] by simp
    then have "drain_log b = Some ([], b)" by (simp add: drain_log.simps)
    then show ?thesis using True less.prems by (simp add: log_pending_def)
  next
    case False
    then have ne: "lb_read_pos b \<noteq> lb_write_pos b" using log_empty_iff [OF less.prems] by simp
    obtain b1 where b1: "take_batch 16 b = (take 16 (log_pending b), b1)" "wf_log b1" "log_pending b1 = drop 16 (log_pending b)"
      using take_batch_pending [OF less.prems] by blast
    have count: "log_count b1 = log_count b - 16" using arg_cong [OF b1(3), of length] by simp
    then obtain batches b' where ih: "drain_log b1 = Some (batches, b')" "concat batches = log_pending b1"
      "\<forall>x \<in> set batches. 1 \<le> length x \<and> length x \<le> 16" "length batches = (log_count b1 + 15) div 16"
      "wf_log b'" "log_pending b' = []"
      using less.hyps [of b1] b1(2) False by auto
    have "drain_log b = Some (take 16 (log_pending b) # batches, b')"
      by (simp add: drain_log.simps [of b] ne b1(1) ih(1))
    moreover have "Suc ((log_count b - 16 + 15) div 16) = (log_count b + 15) div 16"
      using False by (cases "16 \<le> log_count b") (auto simp: le_div_geq [of 16 "log_count b + 15"])
    ultimately show ?thesis using ih b1 count False by auto
  qed
qed

lemma wf_zero_log: "wf_log zero_log_buffer" "log_pending zero_log_buffer = []"
  by (simp_all add: wf_log_def zero_log_buffer_def RB_LOG_BUFFER_SIZE_def RB_LOG_LINE_SIZE_def log_pending_def log_count_def)

section \<open>Properties\<close>

text \<open>C35: \<open>rb_log_push\<close> does nothing when a configuration is set and its mask has no bit of the level;
  otherwise it writes one line into the slot at the write position: the C string \<open>func (line) msg\<close>
  cut to 511 characters, always terminated inside the slot, no other slot changing, and the position
  moves to the next slot of the ring.\<close>

theorem log_push_formats_line:
  assumes "wf_log (lg_buf st)"
  defines "w \<equiv> unat (lb_write_pos (lg_buf st))"
  shows "let st' = rb_log_push cfg level msg func line st
         in if \<exists>m. cfg = Some m \<and> ucast m AND level = 0 then st' = st
            else cstring (lb_queue (lg_buf st') ! w) = take 511 (full_line func line msg) \<and>
                 length (lb_queue (lg_buf st') ! w) = 512 \<and>
                 (\<forall>i. i \<noteq> w \<longrightarrow> lb_queue (lg_buf st') ! i = lb_queue (lg_buf st) ! i) \<and>
                 unat (lb_write_pos (lg_buf st')) = (w + 1) mod 256 \<and>
                 lb_read_pos (lg_buf st') = lb_read_pos (lg_buf st) \<and> wf_log (lg_buf st')"
proof -
  let ?b = "lg_buf st" and ?p = "format_line func line msg"
  have w: "w < 256" "length (lb_queue ?b) = 256" "length (lb_queue ?b ! w) = 512"
    using assms(1) by (auto simp: wf_log_def w_def)
  have "cstring ((store_chars (lb_queue ?b ! w) ?p)[length ?p := NUL]) = ?p"
    using w(3) format_line_ok [of func line msg] by (simp add: store_terminated)
  moreover have "length ((store_chars (lb_queue ?b ! w) ?p)[length ?p := NUL]) = 512"
    using w(3) format_line_ok [of func line msg] by simp
  moreover have "unat (next_pos (lb_write_pos ?b)) = (w + 1) mod 256" using w(1) by (simp add: unat_next_pos w_def)
  moreover have "wf_log (store_line ?p ?b)" using store_line_wf [OF assms(1)] format_line_ok by blast
  ultimately show ?thesis using w(1,2)
    by (cases cfg) (auto simp: rb_log_push_def rb_log_enabled_def store_line_def Let_def w_def [symmetric] format_line_full)
qed

definition empty_log :: log_state where
  "empty_log = \<lparr>lg_buf = zero_log_buffer, lg_fd = -1, lg_run = True\<rparr>"

theorem log_push_formats_line_witness:
  "let st' = rb_log_push (Some 255) 8 ''up'' ''main'' 58 empty_log
   in if \<exists>m. Some (255 :: u8) = Some m \<and> ucast m AND 8 = (0 :: u32) then st' = empty_log
      else cstring (lb_queue (lg_buf st') ! unat (lb_write_pos (lg_buf empty_log))) = take 511 (full_line ''main'' 58 ''up'') \<and>
           length (lb_queue (lg_buf st') ! unat (lb_write_pos (lg_buf empty_log))) = 512 \<and>
           (\<forall>i. i \<noteq> unat (lb_write_pos (lg_buf empty_log)) \<longrightarrow> lb_queue (lg_buf st') ! i = lb_queue (lg_buf empty_log) ! i) \<and>
           unat (lb_write_pos (lg_buf st')) = (unat (lb_write_pos (lg_buf empty_log)) + 1) mod 256 \<and>
           lb_read_pos (lg_buf st') = lb_read_pos (lg_buf empty_log) \<and> wf_log (lg_buf st')"
  using log_push_formats_line [of empty_log "Some 255" 8 "''up''" "''main''" 58] wf_zero_log
  by (simp add: empty_log_def)

text \<open>C8: From \<open>rb_log_init\<close>, as long as at most 255 lines are pending, any interleaving of pushed lines
  and lines taken by the drain loop is first-in first-out: every line comes out once, in order, as
  it was formatted.\<close>

theorem log_buffer_is_fifo:
  assumes "never_full 255 ops 0"
  shows "\<exists>b. fifo_run log_put log_get ops (lg_buf (rb_log_init st)) = (fst (list_run 255 log_item ops []), b) \<and>
             log_pending b = snd (list_run 255 log_item ops [])"
  using log.run_refines [of "zero_log_buffer" ops] wf_zero_log assms by (auto simp: rb_log_init_def)

theorem log_buffer_is_fifo_witness:
  "\<exists>b. fifo_run log_put log_get [Put (''f'', 1, ''a''), Put (''g'', 2, ''b''), Get, Get, Get] (lg_buf (rb_log_init empty_log)) =
      (fst (list_run 255 log_item [Put (''f'', 1, ''a''), Put (''g'', 2, ''b''), Get, Get, Get] []), b) \<and>
     log_pending b = snd (list_run 255 log_item [Put (''f'', 1, ''a''), Put (''g'', 2, ''b''), Get, Get, Get] [])"
  by (rule log_buffer_is_fifo) simp

text \<open>The 256th undrained line makes the positions equal.\<close>

lemma store_line_wraps:
  assumes "wf_log b" and "length p < 512" and "NUL \<notin> set p"
  shows "log_pending (store_line p b) = (if log_count b = 255 then [] else log_pending b @ [p])"
proof (cases "log_count b = 255")
  case True
  then have "log_count (store_line p b) = 0" using store_line_count [OF assms(1)] by simp
  then show ?thesis using True by (simp add: log_pending_def)
next
  case False
  then show ?thesis using store_line_pending [OF assms] log_count_less [of b] by simp
qed

text \<open>A run of calls under one configured level.\<close>

definition log_passes :: "u8 option \<Rightarrow> u32 \<times> string \<times> string \<times> int \<Rightarrow> bool" where
  "log_passes cfg = (\<lambda>(level, msg, func, line). case cfg of None \<Rightarrow> True | Some m \<Rightarrow> ucast m AND level \<noteq> 0)"

definition log_stores :: "u32 \<times> string \<times> string \<times> int \<Rightarrow> string" where
  "log_stores = (\<lambda>(level, msg, func, line). take 511 (full_line func line msg))"

definition log_calls :: "u8 option \<Rightarrow> (u32 \<times> string \<times> string \<times> int) list \<Rightarrow> log_state \<Rightarrow> log_state" where
  "log_calls cfg = fold (\<lambda>(level, msg, func, line). rb_log_push cfg level msg func line)"

lemma log_calls_snoc:
  "lg_buf (log_calls cfg (calls @ [c]) st) =
     (if log_passes cfg c then store_line (log_stores c) (lg_buf (log_calls cfg calls st))
      else lg_buf (log_calls cfg calls st))"
  by (cases cfg)
    (auto simp: log_calls_def log_passes_def log_stores_def rb_log_push_def rb_log_enabled_def format_line_full
      split: prod.splits)

lemma log_stores_ok: "NUL \<notin> set (log_stores c)" "length (log_stores c) < 512"
  using format_line_ok by (simp_all add: log_stores_def format_line_full split: prod.splits)

lemma keep_modulo_snoc:
  "drop (length (xs @ [x]) - length (xs @ [x]) mod 256) (xs @ [x]) =
     (if length xs mod 256 = 255 then [] else drop (length xs - length xs mod 256) xs @ [x])"
  by (auto simp: mod_Suc)

lemma log_calls_wf: "wf_log (lg_buf st) \<Longrightarrow> wf_log (lg_buf (log_calls cfg calls st))"
proof (induction calls rule: rev_induct)
  case (snoc c calls)
  then show ?case unfolding log_calls_snoc by (simp add: store_line_wf log_stores_ok)
qed (simp add: log_calls_def)

text \<open>C36: For any run of calls of \<open>rb_log_push\<close> with no drain between them, what is pending afterwards
  is what is left of the pending lines followed by the accepted ones, each cut to 511 characters,
  when whole blocks of 256 are thrown away from the front: fewer than 256 lines are all kept in
  order, and each time 256 are reached all of them are lost, because the positions become equal.\<close>

theorem undrained_log_wraps:
  assumes "wf_log (lg_buf st)"
  shows "log_pending (lg_buf (log_calls cfg calls st)) =
           (let lines = log_pending (lg_buf st) @ map log_stores (filter (log_passes cfg) calls)
            in drop (length lines - length lines mod 256) lines)"
proof (induction calls rule: rev_induct)
  case Nil
  then show ?case using log_count_less [of "lg_buf st"] by (simp add: log_calls_def)
next
  case (snoc c calls)
  let ?lines = "log_pending (lg_buf st) @ map log_stores (filter (log_passes cfg) calls)"
  let ?b = "lg_buf (log_calls cfg calls st)"
  have wf: "wf_log ?b" by (rule log_calls_wf [OF assms])
  have pending: "log_pending ?b = drop (length ?lines - length ?lines mod 256) ?lines"
    using snoc.IH by (simp only: Let_def)
  have count: "log_count ?b = length ?lines mod 256" using arg_cong [OF pending, of length]
    by (simp only: length_log_pending length_drop diff_diff_cancel [OF mod_less_eq_dividend])
  have keep: "log_pending (store_line (log_stores c) ?b) =
      (if length ?lines mod 256 = 255 then [] else log_pending ?b @ [log_stores c])"
    using store_line_wraps [OF wf log_stores_ok(2,1)] by (simp only: count)
  show ?case
  proof (cases "log_passes cfg c")
    case True
    then have "map log_stores (filter (log_passes cfg) (calls @ [c])) =
        map log_stores (filter (log_passes cfg) calls) @ [log_stores c]" by simp
    then show ?thesis using True keep
      by (simp only: log_calls_snoc Let_def append_assoc [symmetric] keep_modulo_snoc pending if_True)
  next
    case False
    then show ?thesis using snoc.IH by (simp add: log_calls_snoc)
  qed
qed

theorem undrained_log_wraps_witness:
  "log_pending (lg_buf (log_calls (Some 9) (replicate 300 (8, ''m'', ''f'', 1) @ [(4, ''n'', ''f'', 2)]) empty_log)) =
     replicate 44 ''f (1) m''"
proof -
  have "log_passes (Some 9) (8, ''m'', ''f'', 1)" "\<not> log_passes (Some 9) (4, ''n'', ''f'', 2)"
    by (simp_all add: log_passes_def)
  moreover have "log_stores (8, ''m'', ''f'', 1) = ''f (1) m''"
    by (simp add: log_stores_def full_line_def cstring_def decimal.simps [of "Suc 0"] digit_char_def char_of_def bit_0)
  moreover have "log_pending zero_log_buffer = []" by (simp add: log_pending_def log_count_def zero_log_buffer_def)
  ultimately show ?thesis
    using undrained_log_wraps [of empty_log "Some 9" "replicate 300 (8, ''m'', ''f'', 1) @ [(4, ''n'', ''f'', 2)]"] wf_zero_log
    by (simp add: empty_log_def)
qed

text \<open>C29: The drain loop of the log thread and of \<open>rb_log_flush\<close> returns and empties the buffer: the
  batches, put together, are the pending lines in order, none is empty or longer than 16, and there
  are as few as possible; the thread sends each with one \<open>writev\<close>, or its lines to \<open>stderr\<close> without a
  socket, but the flush without a socket drops them.\<close>

theorem log_drain_in_batches:
  assumes "wf_log (lg_buf st)"
  shows "\<exists>batches st'. concat batches = log_pending (lg_buf st) \<and> (\<forall>x \<in> set batches. 1 \<le> length x \<and> length x \<le> 16) \<and>
     length batches = (length (log_pending (lg_buf st)) + 15) div 16 \<and> log_pending (lg_buf st') = [] \<and>
     lg_fd st' = lg_fd st \<and> lg_run st' = lg_run st \<and>
     log_thread_turn st = Some (if 0 \<le> lg_fd st then map Writev batches else map Stderr (log_pending (lg_buf st)), st') \<and>
     rb_log_flush st = Some (if 0 \<le> lg_fd st then map Writev batches else [], st')"
proof -
  obtain batches b' where "drain_log (lg_buf st) = Some (batches, b')" "concat batches = log_pending (lg_buf st)"
    "\<forall>x \<in> set batches. 1 \<le> length x \<and> length x \<le> 16" "length batches = (log_count (lg_buf st) + 15) div 16"
    "log_pending b' = []"
    using drain_log_total [OF assms] by blast
  then show ?thesis
    by (intro exI [of _ batches] exI [of _ "st\<lparr>lg_buf := b'\<rparr>"])
      (simp add: log_thread_turn_def rb_log_flush_def thread_output_def flush_output_def)
qed

theorem log_drain_in_batches_witness:
  "\<exists>batches st'. concat batches = log_pending (lg_buf empty_log) \<and> (\<forall>x \<in> set batches. 1 \<le> length x \<and> length x \<le> 16) \<and>
     length batches = (length (log_pending (lg_buf empty_log)) + 15) div 16 \<and> log_pending (lg_buf st') = [] \<and>
     lg_fd st' = lg_fd empty_log \<and> lg_run st' = lg_run empty_log \<and>
     log_thread_turn empty_log = Some (if 0 \<le> lg_fd empty_log then map Writev batches else map Stderr (log_pending (lg_buf empty_log)), st') \<and>
     rb_log_flush empty_log = Some (if 0 \<le> lg_fd empty_log then map Writev batches else [], st')"
  by (rule log_drain_in_batches) (simp add: empty_log_def wf_zero_log)

end
