(* ===== verification/Orbit_Circle.thy ===== *)
theory Orbit_Circle
  imports Orbit_Types
begin

text \<open>
  The ring that distributes received nodes to the sessions:
  \<^verbatim>\<open>src/circle_buffer/dmmr_circle_buffer.c\<close> and \<open>calc_buffer\<close> of
  \<^verbatim>\<open>src/circle_buffer/include/calc_circle_buffer_size.h\<close>. The buffer is an array of slots, slot \<open>i\<close> at
  byte offset \<open>1520 * i\<close> (the size of \<open>struct node_circle_buffer\<close>); the \<open>CIRCLEQ\<close> is the list of its
  slots and its head, and a \<open>TAILQ\<close> of received entries feeds the worker thread.

  \<open>fifo_worker\<close> copies from \<open>&(*batch_ptr)->n\<close>, the address of the entry's pointer field, not from
  the node it points to: what a slot then holds are the bytes at the entry's address, which
  \<open>Bytes_At\<close> records; \<open>Node\<close> is a proper node (the zeroed one of \<open>calloc\<close>).
\<close>

section \<open>State\<close>

datatype slot_content = Node node | Bytes_At nat

record circle =
  ci_this :: bool
  ci_cfg :: "cfg_server_server option"
  ci_slots :: "slot_content list"
  ci_buffer :: bool
  ci_queue :: "nat list"
  ci_prev :: "nat \<Rightarrow> nat option"
  ci_cursor :: "circ_ptr option"
  ci_fifo :: "nat list"
  ci_run :: bool

definition zero_circle :: circle where
  "zero_circle = \<lparr>ci_this = False, ci_cfg = None, ci_slots = [], ci_buffer = False, ci_queue = [],
     ci_prev = (\<lambda>_. None), ci_cursor = None, ci_fifo = [], ci_run = False\<rparr>"

section \<open>The queue macros\<close>

text \<open>The successor of an element of the queue: the next element, the head after the last one. Reading
  the link field of the head itself as if it were a slot is out of bounds.\<close>

fun next_in :: "nat list \<Rightarrow> nat \<Rightarrow> circ_ptr" where
  "next_in (x # y # xs) i = (if i = x then Slot y else next_in (y # xs) i)"
| "next_in _ i = Head"

definition circleq_next :: "nat list \<Rightarrow> circ_ptr \<Rightarrow> circ_ptr res" where
  "circleq_next q p = (case p of Slot i \<Rightarrow> Inr (next_in q i) | Head \<Rightarrow> Inl Out_Of_Bounds)"

definition circleq_first :: "nat list \<Rightarrow> circ_ptr" where
  "circleq_first q = (if q = [] then Head else Slot (hd q))"

definition circleq_last :: "nat list \<Rightarrow> circ_ptr" where
  "circleq_last q = (if q = [] then Head else Slot (last q))"

section \<open>Operations\<close>

definition get_current_node_inline :: "circle \<Rightarrow> circ_ptr option" where
  "get_current_node_inline st = (if ci_this st then ci_cursor st else None)"

text \<open>\<open>get_current_node\<close>, the exported function, calls itself.\<close>

partial_function (option) get_current_node :: "circle \<Rightarrow> circ_ptr option option" where
  "get_current_node st = get_current_node st"

definition slot_addr :: "nat \<Rightarrow> int" where
  "slot_addr i = 1520 * int i"

text \<open>The addresses are relative to the buffer; \<open>slots\<close> is the configured size when it is called.\<close>

definition is_behind_cursor_inline :: "nat \<Rightarrow> nat \<Rightarrow> nat \<Rightarrow> int" where
  "is_behind_cursor_inline slots cur cursor =
     (let a = slot_addr cur; b = slot_addr cursor; base = 0; end = slot_addr slots
      in if a = b then 0
         else if a < b then of_bool (b - a < end - base)
         else of_bool ((end - a) + (b - base) < end - base))"

definition is_behind_cursor :: "circle \<Rightarrow> nat option \<Rightarrow> int res" where
  "is_behind_cursor st cur =
     (case cur of
        None \<Rightarrow> Inl Indeterminate
      | Some c \<Rightarrow>
         (case (ci_this st, ci_cursor st, ci_cfg st) of
            (True, Some (Slot k), Some cfg) \<Rightarrow> Inr (is_behind_cursor_inline (unat (cfg_circle_buffer_size cfg)) c k)
          | (True, Some Head, _) \<Rightarrow> Inl Out_Of_Bounds
          | _ \<Rightarrow> Inl Null_Deref))"

definition foward_current_node :: "circle \<Rightarrow> circle res" where
  "foward_current_node st =
     (if ci_this st then
        and_then (deref Some (ci_cursor st)) (\<lambda>cur.
        and_then (circleq_next (ci_queue st) cur) (\<lambda>next.
          Inr (st\<lparr>ci_cursor := Some (if next = circleq_last (ci_queue st) then circleq_first (ci_queue st) else next)\<rparr>)))
      else Inr st)"

definition iterate :: "circ_ptr option \<Rightarrow> nat list \<Rightarrow> circ_ptr option res" where
  "iterate cursor q =
     (case cursor of
        None \<Rightarrow> Inr None
      | Some cur \<Rightarrow>
         if q = [] then Inr None
         else and_then (circleq_next q cur) (\<lambda>next.
                Inr (Some (if next = circleq_last q then circleq_first q else next))))"

text \<open>The loop of \<open>fifo_worker\<close> that publishes the batch: each entry is copied into the slot under the
  cursor, then the cursor moves. Copying over the head is out of bounds. What is copied are the bytes at the entry
  of the queue, from the address of its pointer to the node on and beyond the entry's end: they are
  \<open>Bytes_At\<close> the entry. The worker as one step is for its own properties; where sessions read the
  ring meanwhile, each store of the cursor is a step of its own.\<close>

definition publish_one :: "nat \<Rightarrow> circle \<Rightarrow> circle res" where
  "publish_one e st =
     (case get_current_node_inline st of
        Some (Slot i) \<Rightarrow> Inr (st\<lparr>ci_slots := (ci_slots st)[i := Bytes_At e]\<rparr>)
      | Some Head \<Rightarrow> Inl Out_Of_Bounds
      | None \<Rightarrow> Inr st)"

fun publish :: "nat list \<Rightarrow> circle \<Rightarrow> circle res" where
  "publish [] st = Inr st"
| "publish (e # es) st = and_then (publish_one e st) (\<lambda>st1. and_then (foward_current_node st1) (publish es))"

definition MAX_BATCH :: nat where "MAX_BATCH = 0x400"

text \<open>Moving entries from the fifo to the batch array, while there are any and there is room.\<close>

fun take_entries :: "nat list \<Rightarrow> nat list \<Rightarrow> nat list \<times> nat list" where
  "take_entries batch [] = (batch, [])"
| "take_entries batch (e # fifo) =
     (if length batch < MAX_BATCH then take_entries (batch @ [e]) fifo else (batch, e # fifo))"

text \<open>One turn of the worker's outer loop, from the lock to the loop condition, once it does not wait:
  \<open>batch\<close> is what lies between \<open>batch\<close> and \<open>b\<close>, which the code sets once, before the loop. The first
  component says whether the worker goes on.\<close>

definition worker_waits :: "circle \<Rightarrow> bool" where
  "worker_waits st \<longleftrightarrow> ci_fifo st = [] \<and> ci_run st"

definition fifo_worker_turn :: "nat list \<Rightarrow> circle \<Rightarrow> (bool \<times> nat list \<times> circle) res" where
  "fifo_worker_turn batch st =
     (if \<not> ci_this st then Inl Null_Deref
      else if \<not> ci_run st then Inr (False, batch, st)
      else (case take_entries batch (ci_fifo st) of
              (batch', fifo') \<Rightarrow>
                and_then (if batch' \<noteq> [] then publish batch' (st\<lparr>ci_fifo := fifo'\<rparr>) else Inr (st\<lparr>ci_fifo := fifo'\<rparr>))
                  (\<lambda>st'. Inr (ci_run st', batch', st'))))"

text \<open>The loop of \<open>start\<close> that links the slots; a do-while, so it touches slot 0 even of an empty
  buffer.\<close>

fun link_slots :: "nat \<Rightarrow> nat \<Rightarrow> nat option \<Rightarrow> circle \<Rightarrow> circle" where
  "link_slots 0 p prev st = st"
| "link_slots (Suc n) p prev st =
     link_slots n (Suc p) (Some p)
       (st\<lparr>ci_queue := ci_queue st @ [p], ci_prev := (if prev = None then ci_prev st else (ci_prev st)(p := prev))\<rparr>)"

definition start_circle :: "bool \<Rightarrow> circle \<Rightarrow> (int \<times> circle) res" where
  "start_circle allocated st =
     (if ci_this st then
        and_then (deref Some (ci_cfg st)) (\<lambda>cfg.
          (let slots = unat (cfg_circle_buffer_size cfg)
           in if \<not> allocated then Inr (0, st\<lparr>ci_buffer := False\<rparr>)
              else if slots = 0 then Inl Out_Of_Bounds
              else
                let st1 = link_slots slots 0 None
                      (st\<lparr>ci_buffer := True, ci_slots := replicate slots (Node zero_node), ci_queue := [],
                         ci_fifo := [], ci_prev := (\<lambda>_. None)\<rparr>);
                    first = hd (ci_queue st1)
                in Inr (0, st1\<lparr>ci_cursor := Some (circleq_first (ci_queue st1)),
                               ci_prev := (ci_prev st1)(first := Some (last (ci_queue st1))), ci_run := True\<rparr>)))
      else Inr (EOF, st))"

text \<open>The worker is detached, so that joining it is undefined in POSIX; with the C library of Linux the call
  returns an error while the worker lives, and its result is not looked at.\<close>

definition stop_circle :: "circle \<Rightarrow> circle" where
  "stop_circle st = (if ci_this st then st\<lparr>ci_run := False, ci_this := False\<rparr> else st)"

definition new_circle_buffer :: "cfg_server_server option \<Rightarrow> bool \<Rightarrow> circle \<Rightarrow> bool \<times> circle" where
  "new_circle_buffer cfg allocated st =
     (if cfg = None then (False, st)
      else if \<not> allocated then (False, st)
      else (True, st\<lparr>ci_cfg := cfg, ci_this := True, ci_cursor := None, ci_queue := [], ci_fifo := []\<rparr>))"

definition calc_buffer :: "u32 \<Rightarrow> u32 \<Rightarrow> u32 \<Rightarrow> u32 \<Rightarrow> (u32 \<times> u32 \<times> u32 \<times> u32) res" where
  "calc_buffer interval_ms sleep_us conns bytes_per_ms =
     (if sleep_us = 0 then Inl Div_Zero
      else let slots_per_conn = (interval_ms * 1000) div sleep_us;
               total_slots = slots_per_conn * conns;
               total_bytes = bytes_per_ms * interval_ms * conns
           in Inr (slots_per_conn, total_slots, total_bytes, total_bytes * 8))"

section \<open>The ring after \<open>start\<close>\<close>

lemma link_slots_fields [simp]:
  "ci_this (link_slots n p prev st) = ci_this st" "ci_cfg (link_slots n p prev st) = ci_cfg st"
  "ci_slots (link_slots n p prev st) = ci_slots st" "ci_fifo (link_slots n p prev st) = ci_fifo st"
  "ci_buffer (link_slots n p prev st) = ci_buffer st"
  by (induction n p prev st rule: link_slots.induct) simp_all

lemma link_slots_queue: "ci_queue (link_slots n p prev st) = ci_queue st @ [p..<p + n]"
  by (induction n p prev st rule: link_slots.induct) (simp_all add: upt_conv_Cons)

lemma link_slots_prev:
  "ci_prev (link_slots n p prev st) i =
     (if p < i \<and> i < p + n then Some (i - 1) else if i = p \<and> 0 < n \<and> prev \<noteq> None then prev else ci_prev st i)"
  by (induction n p prev st rule: link_slots.induct) auto

text \<open>A started ring of \<open>n\<close> slots with its cursor at slot \<open>c\<close>.\<close>

definition ring :: "circle \<Rightarrow> nat \<Rightarrow> nat \<Rightarrow> bool" where
  "ring st n c \<longleftrightarrow> ci_this st \<and> ci_queue st = [0..<n] \<and> length (ci_slots st) = n \<and> ci_cursor st = Some (Slot c)"

lemma next_in_upt: "a \<le> i \<Longrightarrow> i < b \<Longrightarrow> next_in [a..<b] i = (if Suc i < b then Slot (Suc i) else Head)"
proof (induction "b - a" arbitrary: a)
  case (Suc k)
  show ?case
  proof (cases "Suc a < b")
    case True
    then have "[a..<b] = a # Suc a # [Suc (Suc a)..<b]" by (simp add: upt_conv_Cons)
    moreover have "next_in [Suc a..<b] i = (if Suc i < b then Slot (Suc i) else Head)" if "i \<noteq> a"
      using Suc that by (intro Suc(1)) auto
    ultimately show ?thesis using True by (auto simp: upt_conv_Cons)
  next
    case False
    then have "i = a" "b = Suc a" using Suc by auto
    then show ?thesis by simp
  qed
qed simp

lemma step_in_ring:
  assumes "2 \<le> n" and "c < n - 1"
  shows "circleq_next [0..<n] (Slot c) = Inr (Slot (Suc c))"
    and "(if Slot (Suc c) = circleq_last [0..<n] then circleq_first [0..<n] else Slot (Suc c)) = Slot (Suc c mod (n - 1))"
proof -
  have "last [0..<n] = n - 1" "hd [0..<n] = 0" using assms by simp_all
  then show "(if Slot (Suc c) = circleq_last [0..<n] then circleq_first [0..<n] else Slot (Suc c)) = Slot (Suc c mod (n - 1))"
    using assms by (auto simp: circleq_last_def circleq_first_def)
  show "circleq_next [0..<n] (Slot c) = Inr (Slot (Suc c))" using assms by (simp add: circleq_next_def next_in_upt)
qed

lemma forward_in_ring:
  assumes "ring st n c" and "2 \<le> n" and "c < n - 1"
  shows "foward_current_node st = Inr (st\<lparr>ci_cursor := Some (Slot (Suc c mod (n - 1)))\<rparr>)"
  using assms step_in_ring [OF assms(2,3)] by (auto simp: foward_current_node_def ring_def deref_def split: if_splits)

lemma iterate_in_ring:
  assumes "2 \<le> n" and "c < n - 1"
  shows "iterate (Some (Slot c)) [0..<n] = Inr (Some (Slot (Suc c mod (n - 1))))"
  using assms step_in_ring [OF assms] by (simp add: iterate_def)

lemma publish_append: "publish (xs @ ys) st = and_then (publish xs st) (publish ys)"
proof (induction xs arbitrary: st)
  case (Cons x xs)
  then have "publish (xs @ ys) = (\<lambda>st. and_then (publish xs st) (publish ys))" by auto
  then show ?case by (simp add: and_then_assoc)
qed simp

text \<open>After publishing \<open>es\<close> from slot \<open>c\<close>: the cursor, and the slots that hold the last \<open>n - 1\<close> entries.\<close>

lemma mod_neq_within:
  assumes "i < j" and "j < i + m"
  shows "(c + i) mod m \<noteq> (c + j) mod (m :: nat)"
proof
  assume "(c + i) mod m = (c + j) mod m"
  then have "m dvd (c + j) - (c + i)" using assms(1) by (metis add_le_cancel_left less_imp_le mod_eq_dvd_iff_nat)
  then have "m dvd j - i" by simp
  then show False using assms by (auto dest: dvd_imp_le)
qed

lemma publish_ring:
  assumes "ring st n c" and "2 \<le> n" and "c < n - 1"
  shows "\<exists>st'. publish es st = Inr st' \<and> ring st' n ((c + length es) mod (n - 1)) \<and>
     (\<forall>i. i < length es \<and> length es \<le> i + (n - 1) \<longrightarrow> ci_slots st' ! ((c + i) mod (n - 1)) = Bytes_At (es ! i)) \<and>
     ci_slots st' ! (n - 1) = ci_slots st ! (n - 1) \<and> ci_fifo st' = ci_fifo st \<and> ci_run st' = ci_run st"
proof (induction es rule: rev_induct)
  case Nil
  then show ?case using assms by simp
next
  case (snoc e es)
  let ?k = "(c + length es) mod (n - 1)"
  obtain st1 where st1: "publish es st = Inr st1" "ring st1 n ?k"
    "\<forall>i. i < length es \<and> length es \<le> i + (n - 1) \<longrightarrow> ci_slots st1 ! ((c + i) mod (n - 1)) = Bytes_At (es ! i)"
    "ci_slots st1 ! (n - 1) = ci_slots st ! (n - 1)" "ci_fifo st1 = ci_fifo st" "ci_run st1 = ci_run st"
    using snoc by blast
  have k: "?k < n - 1" using assms(2) by simp
  have len: "length (ci_slots st1) = n" using st1(2) by (simp add: ring_def)
  define st2 where "st2 = st1\<lparr>ci_slots := (ci_slots st1)[?k := Bytes_At e]\<rparr>"
  have one: "publish_one e st1 = Inr st2"
    using st1(2) by (simp add: publish_one_def get_current_node_inline_def ring_def st2_def)
  have "ring st2 n ?k" using st1(2) by (simp add: ring_def st2_def)
  then have fwd: "foward_current_node st2 = Inr (st2\<lparr>ci_cursor := Some (Slot (Suc ?k mod (n - 1)))\<rparr>)"
    using forward_in_ring assms(2) k by blast
  have "Suc ?k mod (n - 1) = (c + length (es @ [e])) mod (n - 1)" by (simp add: mod_Suc_eq)
  moreover have "ci_slots st2 ! ((c + i) mod (n - 1)) = Bytes_At ((es @ [e]) ! i)"
    if i: "i < Suc (length es)" "Suc (length es) \<le> i + (n - 1)" for i
  proof (cases "i = length es")
    case True
    then show ?thesis using k len by (simp add: st2_def)
  next
    case False
    then have "(c + i) mod (n - 1) \<noteq> ?k" using i by (intro mod_neq_within) auto
    then show ?thesis using st1(3) i False by (simp add: st2_def nth_append)
  qed
  moreover have "ci_slots st2 ! (n - 1) = ci_slots st ! (n - 1)" using st1(4) k by (simp add: st2_def)
  moreover have "publish (es @ [e]) st = Inr (st2\<lparr>ci_cursor := Some (Slot (Suc ?k mod (n - 1)))\<rparr>)"
    by (simp add: publish_append st1(1) one fwd)
  ultimately show ?case using \<open>ring st2 n ?k\<close> st1(5,6)
    by (auto simp: ring_def st2_def)
qed

lemma start_ring:
  assumes "ci_this st" and "ci_cfg st = Some cfg" and "n = unat (cfg_circle_buffer_size cfg)" and "0 < n"
  shows "\<exists>st'. start_circle True st = Inr (0, st') \<and> ring st' n 0 \<and> ci_slots st' = replicate n (Node zero_node) \<and>
     ci_fifo st' = [] \<and> ci_run st' \<and> ci_cfg st' = Some cfg \<and> (\<forall>i < n. ci_prev st' i = Some (if i = 0 then n - 1 else i - 1))"
proof -
  have ne: "[0..<n] \<noteq> []" using assms(4) by simp
  have "last [0..<n] = n - 1" "hd [0..<n] = 0" using assms(4) by simp_all
  then show ?thesis using assms ne
    by (auto simp: start_circle_def deref_def Let_def link_slots_queue link_slots_prev ring_def circleq_first_def)
qed

section \<open>Properties\<close>

text \<open>C28: A started ring of \<open>n \<ge> 2\<close> slots is the circular list of all its slots, with the matching
  back pointers; publishing any list of entries never faults, leaves the cursor \<open>|es|\<close> steps on and
  keeps the last \<open>n - 1\<close> entries readable at their places. The walk has \<open>n - 1\<close> steps: the code
  compares with the last element after moving, so the last slot is never used.\<close>

theorem ring_keeps_last_entries:
  assumes "ci_this st" and "ci_cfg st = Some cfg" and "n = unat (cfg_circle_buffer_size cfg)" and "2 \<le> n"
  shows "\<exists>st0 st'. start_circle True st = Inr (0, st0) \<and> publish es st0 = Inr st' \<and>
     ci_queue st0 = [0..<n] \<and> (\<forall>i < n. ci_prev st0 i = Some (if i = 0 then n - 1 else i - 1)) \<and>
     ci_cursor st' = Some (Slot (length es mod (n - 1))) \<and>
     (\<forall>i. i < length es \<and> length es \<le> i + (n - 1) \<longrightarrow> ci_slots st' ! (i mod (n - 1)) = Bytes_At (es ! i)) \<and>
     ci_slots st' ! (n - 1) = Node zero_node"
proof -
  obtain st0 where st0: "start_circle True st = Inr (0, st0)" "ring st0 n 0" "ci_slots st0 = replicate n (Node zero_node)"
    "\<forall>i < n. ci_prev st0 i = Some (if i = 0 then n - 1 else i - 1)"
    using start_ring [OF assms(1-3)] assms(4) by auto
  moreover from this obtain st' where "publish es st0 = Inr st'" "ring st' n (length es mod (n - 1))"
    "\<forall>i. i < length es \<and> length es \<le> i + (n - 1) \<longrightarrow> ci_slots st' ! (i mod (n - 1)) = Bytes_At (es ! i)"
    "ci_slots st' ! (n - 1) = Node zero_node"
    using publish_ring [of st0 n 0 es] assms(4) by auto
  ultimately show ?thesis by (intro exI [of _ st0] exI [of _ st']) (simp add: ring_def)
qed

definition small_config :: "u32 \<Rightarrow> cfg_server_server" where
  "small_config n = \<lparr>cfg_scheduler_preemptive_deadline = 1, cfg_real_time_dead_line = 2,
     cfg_real_time_user_defined = 18, cfg_circle_buffer_size = n, cfg_sleep_time = 10,
     cfg_session_size = 1024, cfg_max_ports = 20, cfg_log_level = 255,
     cfg_trunk_accept_uri = [], cfg_trunk_dispatch_uri = []\<rparr>"

definition new_circle :: "u32 \<Rightarrow> circle" where
  "new_circle n = snd (new_circle_buffer (Some (small_config n)) True zero_circle)"

lemma new_circle_simps: "ci_this (new_circle n)" "ci_cfg (new_circle n) = Some (small_config n)"
  by (simp_all add: new_circle_def new_circle_buffer_def)

theorem ring_keeps_last_entries_witness:
  "\<exists>st0 st'. start_circle True (new_circle 4) = Inr (0, st0) \<and> publish [10, 11, 12, 13] st0 = Inr st' \<and>
     ci_queue st0 = [0..<4] \<and> (\<forall>i < 4. ci_prev st0 i = Some (if i = 0 then 4 - 1 else i - 1)) \<and>
     ci_cursor st' = Some (Slot (length [10 :: nat, 11, 12, 13] mod (4 - 1))) \<and>
     (\<forall>i. i < length [10 :: nat, 11, 12, 13] \<and> length [10 :: nat, 11, 12, 13] \<le> i + (4 - 1) \<longrightarrow>
        ci_slots st' ! (i mod (4 - 1)) = Bytes_At ([10, 11, 12, 13] ! i)) \<and>
     ci_slots st' ! (4 - 1) = Node zero_node"
  by (rule ring_keeps_last_entries [OF new_circle_simps]) (simp_all add: small_config_def)

lemma is_behind_inline: "k < n \<Longrightarrow> c < n \<Longrightarrow> is_behind_cursor_inline n c k = (if c = k then 0 else 1)"
  by (auto simp: is_behind_cursor_inline_def slot_addr_def Let_def)

text \<open>For two slots of the buffer, \<open>is_behind_cursor\<close> is 1 unless they are the same slot, whatever
  their distance: the two address computations never exceed the buffer, so a reader is held back
  only on the cursor's own slot, and one that the writer laps is not noticed.\<close>

lemma is_behind_means_not_cursor:
  assumes "ring st n k" and "ci_cfg st = Some cfg" and "n = unat (cfg_circle_buffer_size cfg)" and "k < n" and "c < n"
  shows "is_behind_cursor st (Some c) = Inr (if c = k then 0 else 1)"
  using assms(1,2) is_behind_inline [OF assms(4,5)] assms(3) by (simp add: is_behind_cursor_def ring_def)

lemma take_entries_eq:
  "length batch \<le> 1024 \<Longrightarrow> take_entries batch fifo = (batch @ take (1024 - length batch) fifo, drop (1024 - length batch) fifo)"
  by (induction batch fifo rule: take_entries.induct) (auto simp: MAX_BATCH_def Suc_diff_Suc take_Cons' drop_Cons')

text \<open>C37: One turn of \<open>fifo_worker\<close> moves waiting entries behind the ones it already took, up to 1024 in
  all, and then publishes the whole batch again: the batch pointer is set once, before the loop, so
  every turn republishes every entry taken so far, and once 1024 were taken no entry leaves the fifo
  any more.\<close>

theorem worker_turn_republishes:
  assumes "ring st n c" and "2 \<le> n" and "c < n - 1" and "ci_run st" and "length batch \<le> 1024"
  defines "batch' \<equiv> batch @ take (1024 - length batch) (ci_fifo st)"
  shows "\<exists>st'. fifo_worker_turn batch st = Inr (True, batch', st') \<and>
     ci_fifo st' = drop (1024 - length batch) (ci_fifo st) \<and>
     ring st' n ((c + length batch') mod (n - 1)) \<and>
     (\<forall>i. i < length batch' \<and> length batch' \<le> i + (n - 1) \<longrightarrow>
        ci_slots st' ! ((c + i) mod (n - 1)) = Bytes_At (batch' ! i))"
proof -
  have live: "ci_this st" using assms(1) by (simp add: ring_def)
  let ?st = "st\<lparr>ci_fifo := drop (1024 - length batch) (ci_fifo st)\<rparr>"
  have "ring ?st n c" using assms(1) by (simp add: ring_def)
  then obtain st' where st': "publish batch' ?st = Inr st'" "ring st' n ((c + length batch') mod (n - 1))"
    "\<forall>i. i < length batch' \<and> length batch' \<le> i + (n - 1) \<longrightarrow> ci_slots st' ! ((c + i) mod (n - 1)) = Bytes_At (batch' ! i)"
    "ci_fifo st' = ci_fifo ?st" "ci_run st' = ci_run ?st"
    using publish_ring [of ?st n c batch'] assms(2,3) by blast
  have "(if batch' \<noteq> [] then publish batch' ?st else Inr ?st) = Inr st'" using st'(1) by auto
  then have "fifo_worker_turn batch st = Inr (True, batch', st')"
    using assms(4) live st'(5) take_entries_eq [OF assms(5), of "ci_fifo st"]
    by (simp add: fifo_worker_turn_def batch'_def [symmetric])
  then show ?thesis using st' by auto
qed

theorem worker_turn_republishes_witness:
  "\<exists>st st'. start_circle True (new_circle 4) = Inr (0, st) \<and>
     fifo_worker_turn [7] (st\<lparr>ci_fifo := [8]\<rparr>) = Inr (True, [7, 8], st') \<and> ci_fifo st' = []"
proof -
  obtain st where st: "start_circle True (new_circle 4) = Inr (0, st)" "ring st 4 0" "ci_run st"
    using start_ring [OF new_circle_simps, of 4 4] by (auto simp: small_config_def)
  then have "ring (st\<lparr>ci_fifo := [8]\<rparr>) 4 0" by (simp add: ring_def)
  from worker_turn_republishes [OF this, of "[7]"] st show ?thesis by auto
qed

end
