(* ===== verification/Orbit_Sort.thy ===== *)
theory Orbit_Sort
  imports Orbit_Prelude "HOL-Library.Multiset"
begin

text \<open>
  In-place insertion sort as an interface: an outer loop over the positions of an array whose body
  moves element \<open>i\<close> into the sorted part before it, behind every element with a key not greater.
  Whatever way the body finds the place, the loop is the stable sort. The session pool
  (\<^verbatim>\<open>src/session/session_connection.c\<close>) finds it by a linear scan from the right, the scheduler
  (\<^verbatim>\<open>src/scheduler/dmmr_scheduler.c\<close>) by binary search.
\<close>

definition insert_after :: "('a \<Rightarrow> 'k :: linorder) \<Rightarrow> 'a \<Rightarrow> 'a list \<Rightarrow> 'a list" where
  "insert_after key x ys = takeWhile (\<lambda>y. key y \<le> key x) ys @ x # dropWhile (\<lambda>y. key y \<le> key x) ys"

lemma mset_insert_after [simp]: "mset (insert_after key x ys) = add_mset x (mset ys)"
  unfolding insert_after_def by (metis mset.simps(2) mset_append takeWhile_dropWhile_id union_mset_add_mset_right)

lemma set_insert_after [simp]: "set (insert_after key x ys) = insert x (set ys)"
  by (metis mset_insert_after set_mset_add_mset_insert set_mset_mset)

lemma length_insert_after [simp]: "length (insert_after key x ys) = Suc (length ys)"
  by (metis mset_insert_after size_add_mset size_mset)

lemma dropWhile_greater:
  "sorted (map key ys) \<Longrightarrow> y \<in> set (dropWhile (\<lambda>y. key y \<le> k) ys) \<Longrightarrow> k < key y"
  by (induction ys) (auto split: if_splits)

lemma sorted_insert_after: "sorted (map key ys) \<Longrightarrow> sorted (map key (insert_after key x ys))"
proof (induction ys)
  case (Cons y ys)
  show ?case
  proof (cases "key y \<le> key x")
    case True
    then have "insert_after key x (y # ys) = y # insert_after key x ys" by (simp add: insert_after_def)
    then show ?thesis using Cons True by auto
  next
    case False
    then show ?thesis using Cons by (auto simp: insert_after_def)
  qed
qed (simp add: insert_after_def)

lemma filter_insert_after:
  assumes "sorted (map key ys)"
  shows "filter (\<lambda>y. key y = k) (insert_after key x ys) = filter (\<lambda>y. key y = k) (ys @ [x])"
proof (cases "k = key x")
  case True
  then have "filter (\<lambda>y. key y = k) (dropWhile (\<lambda>y. key y \<le> key x) ys) = []"
    using dropWhile_greater [OF assms, of _ "key x"] by (fastforce simp: filter_empty_conv)
  moreover have "filter (\<lambda>y. key y = k) ys = filter (\<lambda>y. key y = k) (takeWhile (\<lambda>y. key y \<le> key x) ys) @
      filter (\<lambda>y. key y = k) (dropWhile (\<lambda>y. key y \<le> key x) ys)"
    by (metis filter_append takeWhile_dropWhile_id)
  ultimately show ?thesis using True by (simp add: insert_after_def)
next
  case False
  have "filter (\<lambda>y. key y = k) ys = filter (\<lambda>y. key y = k) (takeWhile (\<lambda>y. key y \<le> key x) ys) @
      filter (\<lambda>y. key y = k) (dropWhile (\<lambda>y. key y \<le> key x) ys)"
    by (metis filter_append takeWhile_dropWhile_id)
  then show ?thesis using False by (simp add: insert_after_def)
qed

text \<open>Inserting one more element keeps being the stable sort.\<close>

lemma sort_key_snoc: "sort_key key (xs @ [x]) = insert_after key x (sort_key key xs)"
proof (rule properties_for_sort_key)
  show "mset (insert_after key x (sort_key key xs)) = mset (xs @ [x])" by simp
  show "sorted (map key (insert_after key x (sort_key key xs)))" by (simp add: sorted_insert_after)
  show "filter (\<lambda>y. key k = key y) (insert_after key x (sort_key key xs)) = filter (\<lambda>y. key k = key y) (xs @ [x])" for k
    unfolding eq_commute [of "key k"] by (simp add: filter_insert_after sort_key_stable)
qed

locale stable_insertion =
  fixes key :: "'a \<Rightarrow> 'k :: linorder"
    and body :: "'a list \<Rightarrow> nat \<Rightarrow> 'a list"
  assumes body_law: "i < length xs \<Longrightarrow> sorted (map key (take i xs)) \<Longrightarrow>
    body xs i = insert_after key (xs ! i) (take i xs) @ drop (Suc i) xs"
begin

definition outer :: "'a list \<Rightarrow> nat \<Rightarrow> 'a list" where
  "outer xs c = foldl body xs [1..<c]"

lemma outer_sorts:
  assumes "c \<le> length xs"
  shows "outer xs c = sort_key key (take c xs) @ drop c xs"
  using assms
proof (induction c)
  case (Suc c)
  show ?case
  proof (cases c)
    case 0
    then show ?thesis by (cases xs) (auto simp: outer_def)
  next
    case (Suc d)
    have c: "c < length xs" using Suc.prems by simp
    have ih: "outer xs c = sort_key key (take c xs) @ drop c xs" using Suc.IH c by simp
    have len: "length (sort_key key (take c xs)) = c" using c by simp
    have "outer xs (Suc c) = body (outer xs c) c" using Suc by (simp add: outer_def)
    also have "\<dots> = insert_after key (outer xs c ! c) (take c (outer xs c)) @ drop (Suc c) (outer xs c)"
      using c by (intro body_law) (simp_all add: ih len)
    also have "\<dots> = insert_after key (xs ! c) (sort_key key (take c xs)) @ drop (Suc c) xs"
      using c by (simp add: ih nth_append len)
    also have "\<dots> = sort_key key (take (Suc c) xs) @ drop (Suc c) xs"
      using c by (simp add: sort_key_snoc [symmetric] take_Suc_conv_app_nth)
    finally show ?thesis .
  qed
qed (simp add: outer_def)

end

end
