(* ===== verification/Orbit_Pool.thy ===== *)
theory Orbit_Pool
  imports Orbit_Types
begin

text \<open>
  The growable pools of the program: the receive entries and protocol blocks of
  \<^verbatim>\<open>src/socket/dmmr_socket.c\<close>, the nodes and connections of \<^verbatim>\<open>src/socket/socket_tcp.c\<close> and
  the slots of \<^verbatim>\<open>src/scheduler/dmmr_scheduler.c\<close>. The first four functions have the same text up to
  the names and the test of a free slot: scan for a free slot; else double a full array; else hand
  out the slot at the count. This theory has their common shape, the contract a caller needs of an
  allocator, and where the shape breaks it.

  A pool is the array (\<open>None\<close> for a null pointer), its \<open>size\<close> and its \<open>count\<close> variables, \<open>unsigned\<close>
  as in the code (the scheduler's are \<open>size_t\<close>, which is the same below 2^31 insertions, and the statements
  about its runs are bounded so). A slot is named by its index; a \<open>realloc\<close> that moves the array keeps the indices
  but not the addresses handed out before.
\<close>

record 'a pool =
  pl_items :: "'a list option"
  pl_size :: u32
  pl_count :: u32

text \<open>After \<open>free\<close> the pointer stays: it is not null, and the block has no slot left that could be used.\<close>

definition free_items :: "'a list option \<Rightarrow> 'a list option" where
  "free_items items = map_option (\<lambda>_. []) items"

definition zero_pool :: "'a pool" where
  "zero_pool = \<lparr>pl_items = None, pl_size = 0, pl_count = 0\<rparr>"

text \<open>\<open>realloc\<close>: null, or an array of the new length that begins with the old one; the rest is what the
  memory held, given as a function.\<close>

definition realloc_items :: "(nat \<Rightarrow> 'a) option \<Rightarrow> 'a list option \<Rightarrow> nat \<Rightarrow> 'a list option" where
  "realloc_items grown old n =
     (case grown of
        None \<Rightarrow> None
      | Some junk \<Rightarrow> (let xs = (case old of None \<Rightarrow> [] | Some ys \<Rightarrow> ys)
                     in Some (take n xs @ map junk [length xs..<n])))"

text \<open>The scan over the first \<open>n\<close> slots, from slot \<open>i\<close> on.\<close>

fun scan_free :: "('a \<Rightarrow> bool) \<Rightarrow> nat \<Rightarrow> nat \<Rightarrow> 'a list \<Rightarrow> nat option res" where
  "scan_free free 0 i xs = Inr None"
| "scan_free free (Suc n) i [] = Inl Out_Of_Bounds"
| "scan_free free (Suc n) i (x # xs) = (if free x then Inr (Some i) else scan_free free n (Suc i) xs)"

text \<open>The common text: \<open>pool_take\<close> is what follows the scan, \<open>region\<close> the number of slots scanned.\<close>

definition pool_take :: "nat option \<Rightarrow> (nat \<Rightarrow> 'a) option \<Rightarrow> 'a pool \<Rightarrow> nat option \<times> 'a pool" where
  "pool_take found grown p =
     (case found of
        Some i \<Rightarrow> (Some i, p)
      | None \<Rightarrow>
          let p1 = (if pl_size p \<le> pl_count p then
                      p\<lparr>pl_size := pl_size p * 2, pl_items := realloc_items grown (pl_items p) (unat (pl_size p * 2))\<rparr>
                    else p)
          in if pl_size p \<le> pl_count p \<and> pl_items p1 = None then (None, p1)
             else (Some (unat (pl_count p1)), p1\<lparr>pl_count := pl_count p1 + 1\<rparr>))"

definition pool_get :: "('a \<Rightarrow> bool) \<Rightarrow> nat \<Rightarrow> (nat \<Rightarrow> 'a) option \<Rightarrow> 'a pool \<Rightarrow> (nat option \<times> 'a pool) res" where
  "pool_get free region grown p =
     and_then (scan_free free region 0 (case pl_items p of None \<Rightarrow> [] | Some xs \<Rightarrow> xs))
       (\<lambda>found. Inr (pool_take found grown p))"

section \<open>The contract\<close>

text \<open>What a caller needs: while some slot is free, the allocator hands out a free one and changes
  nothing.\<close>

locale slot_allocator =
  fixes free :: "'a \<Rightarrow> bool"
    and slots :: "'p \<Rightarrow> 'a list"
    and alloc :: "'p \<Rightarrow> (nat option \<times> 'p) res"
    and ok :: "'p \<Rightarrow> bool"
  assumes alloc_free: "ok p \<Longrightarrow> \<exists>x \<in> set (slots p). free x \<Longrightarrow>
    \<exists>i. alloc p = Inr (Some i, p) \<and> i < length (slots p) \<and> free (slots p ! i) \<and> (\<forall>j < i. \<not> free (slots p ! j))"
begin

text \<open>Taking a slot, by any update that makes it busy, never disturbs another slot, and as many slots
  can be taken as are free.\<close>

lemma alloc_never_busy:
  assumes "ok p" and "\<exists>x \<in> set (slots p). free x" and "alloc p = Inr (Some i, p')"
  shows "free (slots p ! i) \<and> p' = p \<and> i < length (slots p)"
  using alloc_free [OF assms(1,2)] assms(3) by auto

lemma alloc_uses_one:
  assumes "ok p" and "\<exists>x \<in> set (slots p). free x" and "alloc p = Inr (Some i, p')" and "\<not> free y"
  shows "length (filter free ((slots p)[i := y])) + 1 = length (filter free (slots p))"
proof -
  have i: "free (slots p ! i)" "i < length (slots p)" using alloc_never_busy [OF assms(1-3)] by auto
  then have "slots p = take i (slots p) @ slots p ! i # drop (Suc i) (slots p)" by (simp add: Cons_nth_drop_Suc)
  moreover have "(slots p)[i := y] = take i (slots p) @ y # drop (Suc i) (slots p)" using i by (simp add: upd_conv_take_nth_drop)
  ultimately have "length (filter free ((slots p)[i := y])) = length (filter free (take i (slots p))) + length (filter free (drop (Suc i) (slots p)))"
    "length (filter free (slots p)) = length (filter free (take i (slots p))) + Suc (length (filter free (drop (Suc i) (slots p))))"
    using i(1) assms(4) by (metis filter.simps(2) filter_append length_append, metis filter.simps(2) filter_append length_Cons length_append)
  then show ?thesis by simp
qed

end

section \<open>What the common text does\<close>

definition pool_slots :: "'a pool \<Rightarrow> 'a list" where
  "pool_slots p = (case pl_items p of None \<Rightarrow> [] | Some xs \<Rightarrow> xs)"

text \<open>The array has as many slots as \<open>size\<close> says.\<close>

definition wf_pool :: "'a pool \<Rightarrow> bool" where
  "wf_pool p \<longleftrightarrow> length (pool_slots p) = unat (pl_size p)"

lemma scan_free_take:
  "n \<le> length xs \<Longrightarrow> scan_free free n i xs =
     Inr (if \<exists>x \<in> set (take n xs). free x then Some (i + length (takeWhile (\<lambda>x. \<not> free x) (take n xs))) else None)"
  by (induction free n i xs rule: scan_free.induct) auto

lemma first_free:
  assumes "\<exists>x \<in> set xs. free x"
  defines "i \<equiv> length (takeWhile (\<lambda>x. \<not> free x) xs)"
  shows "i < length xs \<and> free (xs ! i) \<and> (\<forall>j < i. \<not> free (xs ! j))"
proof -
  have "i < length xs" unfolding i_def using assms(1)
    by (metis length_takeWhile_le nat_less_le takeWhile_eq_all_conv takeWhile_eq_take take_all_iff order_refl)
  moreover have "free (xs ! i)" using nth_length_takeWhile [of "\<lambda>x. \<not> free x" xs] \<open>i < length xs\<close> by (simp add: i_def)
  moreover have "\<forall>j < i. \<not> free (xs ! j)" unfolding i_def by (metis nth_mem set_takeWhileD takeWhile_nth)
  ultimately show ?thesis by simp
qed

lemma pool_get_region:
  assumes "n \<le> length (pool_slots p)" and "\<exists>x \<in> set (take n (pool_slots p)). free x"
  shows "\<exists>i. pool_get free n grown p = Inr (Some i, p) \<and> i < n \<and> free (pool_slots p ! i) \<and>
             (\<forall>j < i. \<not> free (pool_slots p ! j))"
proof -
  let ?xs = "take n (pool_slots p)"
  have "scan_free free n 0 (pool_slots p) = Inr (Some (length (takeWhile (\<lambda>x. \<not> free x) ?xs)))"
    using assms by (simp add: scan_free_take)
  then show ?thesis using first_free [OF assms(2)] assms(1) by (auto simp: pool_get_def pool_take_def pool_slots_def)
qed

lemma pool_get_free:
  assumes "wf_pool p" and "\<exists>x \<in> set (pool_slots p). free x"
  shows "\<exists>i. pool_get free (unat (pl_size p)) grown p = Inr (Some i, p) \<and> i < length (pool_slots p) \<and>
             free (pool_slots p ! i) \<and> (\<forall>j < i. \<not> free (pool_slots p ! j))"
  using pool_get_region [of "unat (pl_size p)" p free grown] assms by (simp add: wf_pool_def)

lemma pool_get_none:
  assumes "wf_pool p" and "\<forall>x \<in> set (pool_slots p). \<not> free x"
  shows "pool_get free (unat (pl_size p)) grown p =
     (let p1 = (if pl_size p \<le> pl_count p then
                  p\<lparr>pl_size := pl_size p * 2, pl_items := realloc_items grown (pl_items p) (unat (pl_size p * 2))\<rparr>
                else p)
      in if pl_size p \<le> pl_count p \<and> pl_items p1 = None then Inr (None, p1)
         else Inr (Some (unat (pl_count p1)), p1\<lparr>pl_count := pl_count p1 + 1\<rparr>))"
proof -
  have "scan_free free (unat (pl_size p)) 0 (pool_slots p) = Inr None"
    using assms by (simp add: wf_pool_def scan_free_take)
  then show ?thesis by (simp add: pool_get_def pool_take_def pool_slots_def Let_def)
qed

text \<open>With no free slot and a count below the size, the text hands out a busy slot.\<close>

lemma pool_get_busy_slot:
  assumes "wf_pool p" and "\<forall>x \<in> set (pool_slots p). \<not> free x" and "pl_count p < pl_size p"
  shows "pool_get free (unat (pl_size p)) grown p = Inr (Some (unat (pl_count p)), p\<lparr>pl_count := pl_count p + 1\<rparr>) \<and>
     unat (pl_count p) < length (pool_slots p) \<and> \<not> free (pool_slots p ! unat (pl_count p))"
proof -
  have "unat (pl_count p) < length (pool_slots p)" using assms(1,3) by (simp add: wf_pool_def word_less_nat_alt)
  then show ?thesis using pool_get_none [OF assms(1,2), of grown] assms(2,3) by (simp add: not_le Let_def)
qed

end
