(* ===== verification/Orbit_Session.thy ===== *)
theory Orbit_Session
  imports Orbit_Circle Orbit_Sort
begin

text \<open>
  The sessions of \<^verbatim>\<open>src/session/session_connection.c\<close>: a table with one TCP and one UDP session per
  port, each with a pool of nodes that its worker thread collects from the ring, sends in batches
  and keeps in order of arrival. The node under a session's cursor is an argument (what a ring slot
  holds is in \<open>Orbit_Circle\<close>), as is what \<open>calloc\<close> and \<open>realloc\<close> return. A batch handed to the send
  callback is recorded with the block it is sent through.
\<close>

section \<open>The table\<close>

type_synonym session_id = "nat \<times> proto_arr_t"
type_synonym recno = "session_id \<Rightarrow> session_connection_pool"

definition RECNO_SIZE :: nat where "RECNO_SIZE = 0xFFFF"

definition get_recno_slot :: "u16 \<Rightarrow> proto_arr_t \<Rightarrow> session_id res" where
  "get_recno_slot port proto = (if unat port < RECNO_SIZE then Inr (unat port, proto) else Inl Out_Of_Bounds)"

definition get_session :: "heap \<Rightarrow> base_cb option \<Rightarrow> session_id option res" where
  "get_session hp u =
     (case u of
        None \<Rightarrow> Inr None
      | Some _ \<Rightarrow> and_then (get_session_cfg hp u) (\<lambda>cfg.
          (case cfg of
             None \<Rightarrow> Inl Indeterminate
           | Some (port, arr) \<Rightarrow>
               if unat port < 0x10000 \<and> (arr = proto_arr_tcp_t \<or> arr = proto_arr_udp_t)
               then and_then (get_recno_slot port arr) (\<lambda>s. Inr (Some s))
               else Inr None)))"

section \<open>Sorting the pool\<close>

text \<open>The inner loop: elements that arrived later than the key move up by one.\<close>

fun shift_up :: "node \<Rightarrow> nat \<Rightarrow> node list \<Rightarrow> node list \<times> nat" where
  "shift_up key 0 v = (v, 0)"
| "shift_up key (Suc j) v =
     (if nd_arrival key < nd_arrival (v ! j) then shift_up key j (v[Suc j := v ! j]) else (v, Suc j))"

definition sort_step :: "node list \<Rightarrow> nat \<Rightarrow> node list" where
  "sort_step v i = (let key = v ! i in case shift_up key i v of (v', j) \<Rightarrow> v'[j := key])"

definition sort_pool_by_arrival_inline :: "node list option \<Rightarrow> nat \<Rightarrow> node list option res" where
  "sort_pool_by_arrival_inline v c =
     (case v of
        None \<Rightarrow> Inr None
      | Some xs \<Rightarrow> if c < 2 then Inr v
                  else if length xs < c then Inl Out_Of_Bounds
                  else Inr (Some (foldl sort_step xs [1..<c])))"

section \<open>Collecting and sending\<close>

definition SEND_LIMIT :: u32 where "SEND_LIMIT = of_nat VALUE_OUTPUT_BUFFER_SIZE"

text \<open>\<open>get_session_size\<close>: the running total is a \<open>uint16_t\<close>.\<close>

fun add_sizes :: "u32 \<Rightarrow> node list \<Rightarrow> u16 \<Rightarrow> u16" where
  "add_sizes limit [] tot = tot"
| "add_sizes limit (n # ns) tot =
     (let tot' = ucast (ucast tot + nd_value_size n)
      in if limit \<le> ucast tot' then tot' else add_sizes limit ns tot')"

definition pool_prefix :: "session_connection_pool \<Rightarrow> node list res" where
  "pool_prefix p =
     (if sp_pool_count p = 0 then Inr []
      else case sp_pool p of
             None \<Rightarrow> Inl Null_Deref
           | Some xs \<Rightarrow> if length xs < unat (sp_pool_count p) then Inl Out_Of_Bounds
                        else Inr (take (unat (sp_pool_count p)) xs))"

definition get_session_size :: "session_connection_pool option \<Rightarrow> u32 \<Rightarrow> u16 res" where
  "get_session_size p limit =
     (case p of None \<Rightarrow> Inr 0
      | Some s \<Rightarrow> and_then (pool_prefix s) (\<lambda>ns. Inr (add_sizes limit ns 0)))"

text \<open>The loop that counts the nodes to send.\<close>

fun count_to_send :: "u32 \<Rightarrow> nat \<Rightarrow> node list \<Rightarrow> nat" where
  "count_to_send siz k [] = k"
| "count_to_send siz k (n # ns) =
     (let siz' = siz + nd_value_size n
      in if siz' \<le> SEND_LIMIT \<and> ns \<noteq> [] then count_to_send siz' (Suc k) ns else Suc k)"

type_synonym send = "cb_ptr option \<times> node list"

text \<open>\<open>process_session_node\<close>. \<open>cur\<close> is the node under the cursor, \<open>snd\<close> tells whether a send callback is
  set. \<open>__bcpy\<close> moves the rest of the pool to its start (\<open>bcpy_is_memmove\<close>).\<close>

definition send_and_keep :: "heap \<Rightarrow> bool \<Rightarrow> session_connection_pool \<Rightarrow> (session_connection_pool \<times> send list) res" where
  "send_and_keep hp has_cb conn =
     and_then (pool_prefix conn) (\<lambda>ns.
     (let k = count_to_send 0 0 ns in
      and_then (if has_cb then and_then (get_session_pointer (Some (sp_session conn))) (\<lambda>u. Inr [(u, take k ns)])
                else Inr []) (\<lambda>sent.
      (if k \<le> length ns then
         (let rest = length ns - k;
              moved = map_option (\<lambda>xs. take rest (drop k xs) @ drop rest xs) (sp_pool conn);
              conn1 = conn\<lparr>sp_pool := moved, sp_pool_count := of_nat rest\<rparr>
          in and_then (update_session_counter hp (sp_session conn1)) (\<lambda>session.
             and_then (sort_pool_by_arrival_inline moved rest) (\<lambda>sorted.
               Inr (conn1\<lparr>sp_session := session, sp_pool := sorted\<rparr>, sent))))
       else Inr (conn\<lparr>sp_pool_count := 0\<rparr>, sent)))))"

definition process_session_node ::
    "heap \<Rightarrow> bool \<Rightarrow> node \<Rightarrow> session_connection_pool \<Rightarrow> (session_connection_pool \<times> send list) res" where
  "process_session_node hp has_cb cur conn =
     and_then (case get_session_node (sp_session conn) of
                 None \<Rightarrow> Inr None | Some a \<Rightarrow> and_then (deref (hp_node hp) (Some a)) (\<lambda>n. Inr (Some n))) (\<lambda>own.
     (if node_cmp (Some cur) own \<noteq> 0 then Inr (conn, [])
      else case sp_pool conn of
             None \<Rightarrow> Inl Null_Deref
           | Some xs \<Rightarrow>
              if length xs \<le> unat (sp_pool_count conn) then Inl Out_Of_Bounds
              else
                (let conn1 = conn\<lparr>sp_pool := Some (xs[unat (sp_pool_count conn) := cur]),
                                  sp_pool_count := sp_pool_count conn + 1\<rparr>
                 in and_then (get_session_size (Some conn1) SEND_LIMIT) (\<lambda>size.
                    (if SEND_LIMIT \<le> ucast size \<and> 0 < sp_pool_size conn1 then send_and_keep hp has_cb conn1
                     else Inr (conn1, []))))))"

section \<open>The worker thread\<close>

text \<open>The growth at the top of the loop; false when \<open>realloc\<close> fails and the thread ends.\<close>

definition session_grow :: "(nat \<Rightarrow> node) option \<Rightarrow> session_connection_pool \<Rightarrow> bool \<times> session_connection_pool" where
  "session_grow grown conn =
     (if sp_pool_size conn < sp_pool_count conn + 1 then
        (let size = sp_pool_size conn * 2;
             xs = (case sp_pool conn of None \<Rightarrow> [] | Some ys \<Rightarrow> ys);
             pool = map_option (\<lambda>junk. take (unat size) xs @ map junk [length xs..<unat size]) grown
         in (pool \<noteq> None, conn\<lparr>sp_pool_size := size, sp_pool := pool\<rparr>))
      else (True, conn))"

definition session_worker_starts :: "bool \<Rightarrow> session_connection_pool option \<Rightarrow> bool" where
  "session_worker_starts has_circle conn =
     (case conn of None \<Rightarrow> False | Some c \<Rightarrow> sp_pool c \<noteq> None \<and> has_circle)"

text \<open>One turn up to the wait, the condition under which the thread goes on waiting, and the step to
  the next slot after it. The first component of the turn says whether the thread still runs.\<close>

definition session_worker_turn ::
    "heap \<Rightarrow> bool \<Rightarrow> (nat \<Rightarrow> node) option \<Rightarrow> node \<Rightarrow> session_connection_pool \<Rightarrow>
     (bool \<times> session_connection_pool \<times> send list) res" where
  "session_worker_turn hp has_cb grown cur conn =
     (case session_grow grown conn of
        (False, conn1) \<Rightarrow> Inr (False, conn1, [])
      | (True, conn1) \<Rightarrow> and_then (process_session_node hp has_cb cur conn1) (\<lambda>(conn2, sent). Inr (True, conn2, sent)))"

definition session_waits :: "circle \<Rightarrow> session_connection_pool \<Rightarrow> bool res" where
  "session_waits cb conn =
     (case sp_cursor conn of
        None \<Rightarrow> and_then (is_behind_cursor cb None) (\<lambda>b. Inr (b = 0))
      | Some Head \<Rightarrow> Inl Out_Of_Bounds
      | Some (Slot i) \<Rightarrow> and_then (is_behind_cursor cb (Some i)) (\<lambda>b. Inr (b = 0)))"

definition session_advance :: "circle \<Rightarrow> session_connection_pool \<Rightarrow> (bool \<times> session_connection_pool) res" where
  "session_advance cb conn =
     and_then (iterate (sp_cursor conn) (ci_queue cb)) (\<lambda>next. Inr (sp_run conn, conn\<lparr>sp_cursor := next\<rparr>))"

section \<open>Opening and closing sessions\<close>

text \<open>The module's state: the table, the ring and the send callback.\<close>

record session_module =
  sm_recno :: recno
  sm_circle :: "circle option"
  sm_snd_cb :: bool

definition set_snd_cb :: "bool \<Rightarrow> session_module \<Rightarrow> session_module" where
  "set_snd_cb cb st = st\<lparr>sm_snd_cb := cb\<rparr>"

definition insert_session :: "bool \<Rightarrow> int \<Rightarrow> session_id option \<Rightarrow> session_module \<Rightarrow> (int \<times> session_module) res" where
  "insert_session allocated spawn_result session st =
     (case (sm_circle st, session) of
        (Some cb, Some s) \<Rightarrow>
          if \<not> allocated then Inr (EOF, st\<lparr>sm_recno := (sm_recno st)(s := (sm_recno st s)\<lparr>sp_pool := None\<rparr>)\<rparr>)
          else
            (let p = (sm_recno st s)\<lparr>sp_pool := Some (replicate 0x400 zero_node), sp_pool_size := 0x400,
                       sp_pool_count := 0, sp_run := True\<rparr>
             in case get_current_node cb of
                  None \<Rightarrow> Inl No_Return
                | Some cursor \<Rightarrow> Inr (spawn_result, st\<lparr>sm_recno := (sm_recno st)(s := p\<lparr>sp_cursor := cursor\<rparr>)\<rparr>))
      | _ \<Rightarrow> Inr (EOF, st))"

definition delete_session :: "session_id option \<Rightarrow> session_module \<Rightarrow> session_module" where
  "delete_session p st =
     (case p of None \<Rightarrow> st | Some s \<Rightarrow> st\<lparr>sm_recno := (sm_recno st)(s := zero_session)\<rparr>)"

definition reload_session_conection :: int where
  "reload_session_conection = 0"

definition start_session_connection :: "circle option \<Rightarrow> session_module \<Rightarrow> int \<times> session_module" where
  "start_session_connection cb st = (0, st\<lparr>sm_recno := (\<lambda>_. zero_session), sm_circle := cb\<rparr>)"

definition stop_one :: "session_id \<Rightarrow> session_module \<Rightarrow> session_module" where
  "stop_one s st = (if sp_port (sm_recno st s) \<noteq> 0 then delete_session (Some s) st else st)"

text \<open>The loop of \<open>stop_session_connection\<close>, over \<open>n\<close> entries from entry \<open>i\<close>.\<close>

fun stop_loop :: "nat \<Rightarrow> nat \<Rightarrow> session_module \<Rightarrow> session_module res" where
  "stop_loop 0 i st = Inr st"
| "stop_loop (Suc n) i st =
     (if i < RECNO_SIZE
      then stop_loop n (Suc i) (stop_one (i, proto_arr_tcp_t) (stop_one (i, proto_arr_udp_t) st))
      else Inl Out_Of_Bounds)"

definition stop_session_connection :: "session_module \<Rightarrow> session_module res" where
  "stop_session_connection st = stop_loop 0x10000 0 st"

section \<open>The pool sort is stable\<close>

lemma takeWhile_snoc_fail: "\<not> P y \<Longrightarrow> takeWhile P (xs @ [y]) = takeWhile P xs"
  by (induction xs) auto

lemma dropWhile_snoc_fail: "\<not> P y \<Longrightarrow> dropWhile P (xs @ [y]) = dropWhile P xs @ [y]"
  by (induction xs) auto

lemma shift_up_inserts:
  assumes "j < length v" and "sorted (map nd_arrival (take j v))"
  shows "(case shift_up key j v of (v', k) \<Rightarrow> v'[k := key]) =
     insert_after nd_arrival key (take j v) @ drop (Suc j) v"
  using assms
proof (induction key j v rule: shift_up.induct)
  case (1 key v)
  then show ?case by (cases v) (auto simp: insert_after_def)
next
  case (2 key j v)
  have take: "take (Suc j) v = take j v @ [v ! j]" using 2(2) by (simp add: take_Suc_conv_app_nth)
  show ?case
  proof (cases "nd_arrival key < nd_arrival (v ! j)")
    case True
    let ?v = "v[Suc j := v ! j]"
    have "(case shift_up key j ?v of (v', k) \<Rightarrow> v'[k := key]) = insert_after nd_arrival key (take j ?v) @ drop (Suc j) ?v"
      using 2 True by (intro 2(1)) (auto simp: take sorted_append)
    moreover have "drop (Suc j) ?v = v ! j # drop (Suc (Suc j)) v"
      using 2(2) by (simp add: drop_update_swap Cons_nth_drop_Suc [symmetric])
    ultimately show ?thesis using True
      by (simp add: take insert_after_def takeWhile_snoc_fail dropWhile_snoc_fail not_le)
  next
    case False
    have "\<forall>x \<in> set (take (Suc j) v). nd_arrival x \<le> nd_arrival key"
      using 2(3) False by (fastforce simp: take sorted_append not_less)
    then have "insert_after nd_arrival key (take (Suc j) v) = take (Suc j) v @ [key]"
      by (simp add: insert_after_def takeWhile_eq_all_conv [THEN iffD2] dropWhile_eq_Nil_conv [THEN iffD2])
    then show ?thesis using False 2(2) by (simp add: upd_conv_take_nth_drop)
  qed
qed

interpretation session_sort: stable_insertion nd_arrival sort_step
proof
  fix i and xs :: "node list"
  assume "i < length xs" "sorted (map nd_arrival (take i xs))"
  then show "sort_step xs i = insert_after nd_arrival (xs ! i) (take i xs) @ drop (Suc i) xs"
    using shift_up_inserts [of i xs "xs ! i"] by (simp add: sort_step_def Let_def)
qed

text \<open>The insertion sort of the session pool is the stable sort by arrival of the first \<open>c\<close> nodes and
  leaves the others where they are, for every pool and every \<open>c\<close> up to its length.\<close>

lemma sort_pool_sorts:
  assumes "c \<le> length xs"
  shows "sort_pool_by_arrival_inline (Some xs) c = Inr (Some (sort_key nd_arrival (take c xs) @ drop c xs))"
proof (cases "c < 2")
  case True
  then have "sort_key nd_arrival (take c xs) = take c xs" by (cases xs; cases c) auto
  then show ?thesis using True by (simp add: sort_pool_by_arrival_inline_def)
next
  case False
  then show ?thesis using session_sort.outer_sorts [OF assms] assms
    by (simp add: sort_pool_by_arrival_inline_def session_sort.outer_def)
qed

section \<open>What is sent\<close>

definition total_size :: "node list \<Rightarrow> nat" where
  "total_size ns = sum_list (map (\<lambda>n. unat (nd_value_size n)) ns)"

definition packets :: "node list \<Rightarrow> bool" where
  "packets ns \<longleftrightarrow> (\<forall>n \<in> set ns. unat (nd_value_size n) \<le> VALUE_BUFFER_SIZE)"

text \<open>\<open>k\<close> is the length of the shortest nonempty prefix above the limit, or of the whole list.\<close>

definition cut_at :: "node list \<Rightarrow> nat \<Rightarrow> bool" where
  "cut_at ns k \<longleftrightarrow> 1 \<le> k \<and> k \<le> length ns \<and> (\<forall>j < k. total_size (take j ns) \<le> VALUE_OUTPUT_BUFFER_SIZE) \<and>
     (k = length ns \<or> VALUE_OUTPUT_BUFFER_SIZE < total_size (take k ns))"

lemma limits: "VALUE_BUFFER_SIZE = 1420" "VALUE_OUTPUT_BUFFER_SIZE = 8520" "SEND_LIMIT = 8520"
  by (simp_all add: VALUE_BUFFER_SIZE_def VALUE_OUTPUT_BUFFER_SIZE_def SEND_LIMIT_def DEFAULT_MTU_def
      MAX_HEADER_OVERHEAD_def VALUE_OUTPUT_SIZE_def)

lemma add_sizes_reaches:
  "packets ns \<Longrightarrow> unat tot < 8520 \<Longrightarrow>
   SEND_LIMIT \<le> ucast (add_sizes SEND_LIMIT ns tot) \<longleftrightarrow> 8520 \<le> unat tot + total_size ns"
proof (induction ns arbitrary: tot)
  case Nil
  then show ?case by (simp add: limits total_size_def word_le_nat_alt)
next
  case (Cons n ns)
  let ?t = "ucast (ucast tot + nd_value_size n :: u32) :: u16"
  have v: "unat (nd_value_size n) \<le> 1420" using Cons.prems(1) by (simp add: packets_def limits)
  then have "unat (ucast tot + nd_value_size n :: u32) = unat tot + unat (nd_value_size n)"
    using Cons.prems(2) by (subst unat_word_ariths) (simp add:)
  then have t: "unat ?t = unat tot + unat (nd_value_size n)" using v Cons.prems(2) by (simp add:)
  have reach: "SEND_LIMIT \<le> ucast ?t \<longleftrightarrow> 8520 \<le> unat ?t" by (simp add: limits word_le_nat_alt)
  show ?case
  proof (cases "SEND_LIMIT \<le> ucast ?t")
    case True
    then show ?thesis using reach t by (simp add: Let_def total_size_def)
  next
    case False
    then show ?thesis using reach t Cons.IH [of ?t] Cons.prems(1)
      by (simp add: Let_def total_size_def packets_def add.assoc)
  qed
qed

lemma count_to_send_cut:
  assumes "packets ns" and "ns \<noteq> []" and "unat siz \<le> 8520"
  shows "\<exists>m. count_to_send siz k ns = k + m \<and> 1 \<le> m \<and> m \<le> length ns \<and>
     (\<forall>j < m. unat siz + total_size (take j ns) \<le> 8520) \<and>
     (m = length ns \<or> 8520 < unat siz + total_size (take m ns))"
  using assms
proof (induction siz k ns rule: count_to_send.induct)
  case (2 siz k n ns)
  let ?s = "siz + nd_value_size n"
  have "unat (nd_value_size n) \<le> 1420" using 2(2) by (simp add: packets_def limits)
  then have s: "unat ?s = unat siz + unat (nd_value_size n)" using 2(4) by (subst unat_word_ariths) simp
  show ?case
  proof (cases "?s \<le> SEND_LIMIT \<and> ns \<noteq> []")
    case True
    then have le: "unat ?s \<le> 8520" by (simp add: limits word_le_nat_alt)
    obtain m where m: "count_to_send ?s (Suc k) ns = Suc k + m" "1 \<le> m" "m \<le> length ns"
      "\<forall>j < m. unat ?s + total_size (take j ns) \<le> 8520" "m = length ns \<or> 8520 < unat ?s + total_size (take m ns)"
      using 2(1) [OF refl True] 2(2) True le by (auto simp: packets_def)
    have "unat siz + total_size (take j (n # ns)) \<le> 8520" if "j < Suc m" for j
      using that m(4) s 2(4) by (cases j) (auto simp: total_size_def)
    then show ?thesis using m s True
      by (intro exI [of _ "Suc m"]) (auto simp: Let_def total_size_def)
  next
    case False
    then have "ns = [] \<or> 8520 < unat ?s" by (auto simp: limits word_le_nat_alt not_le)
    then show ?thesis using False s 2(4)
      by (intro exI [of _ 1]) (auto simp: Let_def total_size_def)
  qed
qed simp

lemma count_to_send_cut_at: "packets ns \<Longrightarrow> ns \<noteq> [] \<Longrightarrow> cut_at ns (count_to_send 0 0 ns)"
  using count_to_send_cut [of ns 0 0] by (auto simp: cut_at_def limits)

lemma get_session_size_reaches:
  assumes "sp_pool p = Some xs" and "0 < sp_pool_count p" and "unat (sp_pool_count p) \<le> length xs"
    and "packets (take (unat (sp_pool_count p)) xs)"
  shows "\<exists>size. get_session_size (Some p) SEND_LIMIT = Inr size \<and>
     (SEND_LIMIT \<le> ucast size \<longleftrightarrow> 8520 \<le> total_size (take (unat (sp_pool_count p)) xs))"
  using assms add_sizes_reaches [of "take (unat (sp_pool_count p)) xs" 0]
  by (auto simp: get_session_size_def pool_prefix_def)

lemma send_and_keep_spec:
  assumes "sp_pool conn = Some xs" and "0 < sp_pool_count conn" and "unat (sp_pool_count conn) \<le> length xs"
    and "get_session_pointer (Some (sp_session conn)) = Inr u"
    and "update_session_counter hp (sp_session conn) = Inr session"
  defines "q \<equiv> take (unat (sp_pool_count conn)) xs"
  defines "k \<equiv> count_to_send 0 0 q"
  assumes "k \<le> length q"
  shows "\<exists>pool. send_and_keep hp True conn =
      Inr (conn\<lparr>sp_pool := Some pool, sp_pool_count := of_nat (length q - k), sp_session := session\<rparr>, [(u, take k q)]) \<and>
      length pool = length xs \<and> take (length q - k) pool = sort_key nd_arrival (drop k q)"
proof -
  have lq: "length q = unat (sp_pool_count conn)" using assms(3) by (simp add: q_def)
  let ?rest = "length q - k"
  let ?moved = "take ?rest (drop k xs) @ drop ?rest xs"
  have len: "length ?moved = length xs" using assms(3) lq assms(8) by simp
  have "take ?rest (drop k xs) = drop k q" unfolding lq by (simp add: q_def drop_take)
  then have moved: "take ?rest ?moved = drop k q" using assms(3) lq assms(8) by simp
  have sorted: "sort_pool_by_arrival_inline (Some ?moved) ?rest =
      Inr (Some (sort_key nd_arrival (drop k q) @ drop ?rest ?moved))"
    using sort_pool_sorts [of ?rest ?moved] len assms(3) lq moved by simp
  have prefix: "pool_prefix conn = Inr q" using assms(1-3) by (auto simp: pool_prefix_def q_def)
  show ?thesis
    using assms(1,4,5,8) prefix sorted len assms(3) lq
    by (intro exI [of _ "sort_key nd_arrival (drop k q) @ drop ?rest ?moved"])
      (auto simp: send_and_keep_def Let_def k_def [symmetric])
qed

lemma process_session_node_collects:
  assumes "sp_pool conn = Some xs" and "unat (sp_pool_count conn) < length xs" and "length xs = unat (sp_pool_size conn)"
    and "get_session_node (sp_session conn) = Some a" and "hp_node hp a = Some own" and "node_cmp (Some cur) (Some own) = 0"
    and "get_session_pointer (Some (sp_session conn)) = Inr u"
    and "update_session_counter hp (sp_session conn) = Inr session"
  defines "q \<equiv> take (unat (sp_pool_count conn)) xs @ [cur]"
  assumes "packets q"
  shows "\<exists>conn' sent pool. process_session_node hp True cur conn = Inr (conn', sent) \<and> sp_pool conn' = Some pool \<and>
     length pool = length xs \<and> sp_pool_size conn' = sp_pool_size conn \<and>
     (if total_size q < VALUE_OUTPUT_BUFFER_SIZE
      then sent = [] \<and> unat (sp_pool_count conn') = length q \<and> take (unat (sp_pool_count conn')) pool = q \<and> sp_session conn' = sp_session conn
      else \<exists>k. cut_at q k \<and> sent = [(u, take k q)] \<and> unat (sp_pool_count conn') = length q - k \<and>
             take (unat (sp_pool_count conn')) pool = sort_key nd_arrival (drop k q) \<and> sp_session conn' = session)"
proof -
  let ?c = "unat (sp_pool_count conn)"
  define conn1 where "conn1 = conn\<lparr>sp_pool := Some (xs[?c := cur]), sp_pool_count := sp_pool_count conn + 1\<rparr>"
  have size: "0 < sp_pool_size conn" using assms(2,3) by (simp add: word_less_nat_alt)
  have "?c + 1 < 2 ^ 32" using assms(2,3) unsigned_less [of "sp_pool_size conn", where 'a = nat] by simp
  then have count: "unat (sp_pool_count conn1) = Suc ?c" by (simp add: conn1_def unat_word_ariths)
  have q: "take (unat (sp_pool_count conn1)) (xs[?c := cur]) = q"
    using assms(2) unfolding count by (simp add: q_def take_Suc_conv_app_nth)
  have pos: "0 < sp_pool_count conn1" using count by (simp add: word_less_nat_alt)
  have len: "unat (sp_pool_count conn1) \<le> length (xs[?c := cur])" using assms(2) count by simp
  obtain sz where sz: "get_session_size (Some conn1) SEND_LIMIT = Inr sz" "SEND_LIMIT \<le> ucast sz \<longleftrightarrow> 8520 \<le> total_size q"
    using get_session_size_reaches [of conn1 "xs[?c := cur]"] pos len assms(10) q by (auto simp: conn1_def)
  have fields: "sp_session conn1 = sp_session conn" "sp_pool conn1 = Some (xs[?c := cur])" "sp_pool_size conn1 = sp_pool_size conn"
    by (simp_all add: conn1_def)
  have run: "process_session_node hp True cur conn =
      (if 8520 \<le> total_size q then send_and_keep hp True conn1 else Inr (conn1, []))"
    using assms(1,2,4-6) sz size unfolding process_session_node_def
    by (simp add: conn1_def [symmetric] Let_def fields)
  show ?thesis
  proof (cases "total_size q < 8520")
    case True
    have "unat (sp_pool_count conn1) = length q" using assms(2) count by (simp add: q_def)
    then show ?thesis using True run q fields by (simp add: limits)
  next
    case False
    have ne: "q \<noteq> []" by (simp add: q_def)
    have cut: "cut_at q (count_to_send 0 0 q)" using count_to_send_cut_at assms(10) ne by blast
    then have "count_to_send 0 0 q \<le> length q" by (simp add: cut_at_def)
    then obtain pool where "send_and_keep hp True conn1 =
        Inr (conn1\<lparr>sp_pool := Some pool, sp_pool_count := of_nat (length q - count_to_send 0 0 q), sp_session := session\<rparr>,
             [(u, take (count_to_send 0 0 q) q)])"
      "length pool = length xs" "take (length q - count_to_send 0 0 q) pool = sort_key nd_arrival (drop (count_to_send 0 0 q) q)"
      using send_and_keep_spec [of conn1 "xs[?c := cur]" u hp session] fields pos len assms(7,8) q by auto
    moreover have "unat (of_nat (length q - count_to_send 0 0 q) :: u32) = length q - count_to_send 0 0 q"
      using \<open>?c + 1 < 2 ^ 32\<close> assms(2) by (intro unat_of_nat_less) (simp add: q_def)
    ultimately show ?thesis using run False cut fields by (auto simp: limits)
  qed
qed

section \<open>Properties\<close>

text \<open>C16: A node under the cursor that compares equal to the session's own node joins the pool. Below 8520
  bytes nothing is sent. From 8520 bytes on, one batch goes to the session's linked block: the
  shortest prefix of the pool with more than 8520 bytes, or the whole pool; the rest stays, in order
  of arrival, and nothing is lost or sent twice between the pool and the batch.\<close>

theorem session_collects_and_sends:
  assumes "sp_pool conn = Some xs" and "unat (sp_pool_count conn) < length xs" and "length xs = unat (sp_pool_size conn)"
    and "get_session_node (sp_session conn) = Some a" and "hp_node hp a = Some own" and "node_cmp (Some cur) (Some own) = 0"
    and "get_session_pointer (Some (sp_session conn)) = Inr u"
    and "update_session_counter hp (sp_session conn) = Inr session"
    and "packets (take (unat (sp_pool_count conn)) xs @ [cur])"
  defines "q \<equiv> take (unat (sp_pool_count conn)) xs @ [cur]"
  shows "\<exists>conn' sent pool. process_session_node hp True cur conn = Inr (conn', sent) \<and> sp_pool conn' = Some pool \<and>
     length pool = length xs \<and>
     (if total_size q < VALUE_OUTPUT_BUFFER_SIZE
      then sent = [] \<and> take (unat (sp_pool_count conn')) pool = q \<and> sp_session conn' = sp_session conn
      else \<exists>k. cut_at q k \<and> sent = [(u, take k q)] \<and> unat (sp_pool_count conn') = length q - k \<and>
             take (unat (sp_pool_count conn')) pool = sort_key nd_arrival (drop k q) \<and> sp_session conn' = session)"
  using process_session_node_collects [OF assms(1-9)] unfolding q_def by meson

definition demo_session :: session_connection_pool where
  "demo_session = zero_session\<lparr>sp_pool := Some (replicate 3 zero_node), sp_pool_size := 3, sp_pool_count := 1,
     sp_session := zero_cb\<lparr>cb_proto := proto_udp_t, cb_node := Some 0, cb_linked := Some (Udp_Pool 0)\<rparr>\<rparr>"

definition demo_heap :: heap where
  "demo_heap = \<lparr>hp_node = (\<lambda>_. Some zero_node), hp_cb = (\<lambda>_. Some zero_cb)\<rparr>"

theorem session_collects_and_sends_witness:
  "\<exists>conn' sent pool. process_session_node demo_heap True zero_node demo_session = Inr (conn', sent) \<and>
     sp_pool conn' = Some pool \<and> sent = [] \<and> take (unat (sp_pool_count conn')) pool = [zero_node, zero_node]"
proof -
  have c: "unat (sp_pool_count demo_session) = 1" by (simp add: demo_session_def)
  have p: "sp_pool demo_session = Some (replicate 3 zero_node)" by (simp add: demo_session_def)
  have vs: "nd_value_size zero_node = 0" by (simp add: zero_node_def)
  have q: "take (unat (sp_pool_count demo_session)) (replicate 3 zero_node) @ [zero_node] = [zero_node, zero_node]"
    by (simp add: c)
  have lens: "unat (sp_pool_count demo_session) < length (replicate 3 zero_node)"
    "length (replicate 3 zero_node) = unat (sp_pool_size demo_session)"
    by (simp_all add: c) (simp add: demo_session_def)
  have own: "get_session_node (sp_session demo_session) = Some 0" "hp_node demo_heap 0 = Some zero_node"
    "get_session_pointer (Some (sp_session demo_session)) = Inr (Some (Udp_Pool 0))"
    "update_session_counter demo_heap (sp_session demo_session) = Inr (sp_session demo_session)"
    by (simp_all add: demo_session_def demo_heap_def get_session_node_def get_session_pointer_def update_session_counter_def zero_cb_def)
  have cmp: "node_cmp (Some zero_node) (Some zero_node) = 0" by (simp add: cmp3_def zero_node_def)
  have small: "packets (take (unat (sp_pool_count demo_session)) (replicate 3 zero_node) @ [zero_node])"
    unfolding q by (simp add: packets_def vs)
  have "total_size [zero_node, zero_node] < VALUE_OUTPUT_BUFFER_SIZE" by (simp add: total_size_def vs limits)
  then show ?thesis
    using session_collects_and_sends [OF p lens own(1,2) cmp own(3,4) small] unfolding q by auto
qed

lemma stop_loop_overruns: "i \<le> RECNO_SIZE \<Longrightarrow> RECNO_SIZE < i + n \<Longrightarrow> stop_loop n i st = Inl Out_Of_Bounds"
  by (induction n i st rule: stop_loop.induct) (auto simp: Suc_le_eq not_less)

text \<open>Stopping walks 65536 table entries although the table has 65535, so it always runs past the end,
  whatever the sessions are; and so does looking up port 65535.\<close>

lemma stop_sessions_out_of_bounds:
  "stop_session_connection st = Inl Out_Of_Bounds \<and> get_recno_slot 0xFFFF proto = Inl Out_Of_Bounds \<and>
   (port < 0xFFFF \<longrightarrow> get_recno_slot port proto = Inr (unat port, proto))"
  using stop_loop_overruns [of 0 "0x10000" st]
  by (auto simp: stop_session_connection_def get_recno_slot_def RECNO_SIZE_def word_less_nat_alt)

end
