(* ===== verification/Orbit_Sched.thy ===== *)
theory Orbit_Sched
  imports Orbit_Session Orbit_Pool
begin

text \<open>
  The deadline scheduler of \<^verbatim>\<open>src/scheduler/dmmr_scheduler.c\<close> and the session manager of
  \<^verbatim>\<open>src/session/dmmr_session_connection_manager.c\<close> that joins it with the sessions. The slots are
  the pool of \<open>Orbit_Pool\<close>; a slot points to an entry of the session table. The reorder thread and
  the send thread run under the slots' mutex: each pass is one step. What the dispatcher sends is
  recorded with the block it is sent through; the clock is an argument.
\<close>

section \<open>State\<close>

record scheduler =
  sd_slots :: "scheduler_connection pool"
  sd_run :: bool
  sd_this :: bool
  sd_deadline :: u64
  sd_cfg :: "cfg_server_server option"

text \<open>Two pointers are the same session exactly when they are the same table entry; a null session is
  \<open>None\<close>.\<close>

definition session_runs :: "recno \<Rightarrow> session_id option \<Rightarrow> bool" where
  "session_runs tab s = (case s of None \<Rightarrow> False | Some i \<Rightarrow> sp_run (tab i))"

definition get_monotonic_time_us :: "u64 \<Rightarrow> u64 \<Rightarrow> u64" where
  "get_monotonic_time_us sec nsec = sec * 1000000 + nsec div 1000"

section \<open>Slots\<close>

definition get_scheduler_connection ::
    "recno \<Rightarrow> (nat \<Rightarrow> scheduler_connection) option \<Rightarrow> scheduler \<Rightarrow> (nat option \<times> scheduler) res" where
  "get_scheduler_connection tab grown sd =
     and_then (pool_get (\<lambda>c. \<not> session_runs tab (sc_session c)) (unat (pl_count (sd_slots sd))) grown (sd_slots sd))
       (\<lambda>(slot, p). Inr (slot, sd\<lparr>sd_slots := p\<rparr>))"

section \<open>The reorder thread\<close>

text \<open>The binary search. Its variables are C \<open>int\<close>s; the sum of two stays in range below 2^30 slots, and the
  model, over the integers, is exact there.\<close>

function bin_search :: "(int \<Rightarrow> u64) \<Rightarrow> u64 \<Rightarrow> int \<Rightarrow> int \<Rightarrow> int" where
  "bin_search at key left right =
     (if left \<le> right then
        (let mid = (left + right) div 2
         in if at mid \<le> key then bin_search at key (mid + 1) right
            else bin_search at key left (mid - 1))
      else left)"
  by pat_completeness auto
termination
  by (relation "measure (\<lambda>(at, key, left, right). nat (right - left + 1))") auto

declare bin_search.simps [simp del]

text \<open>The shift: \<open>for (j = i - 1; j >= left; j--) slots[j + 1] = slots[j];\<close>\<close>

fun shift_right :: "nat \<Rightarrow> nat \<Rightarrow> scheduler_connection list \<Rightarrow> scheduler_connection list" where
  "shift_right 0 left v = v"
| "shift_right (Suc j) left v = (if left \<le> j then shift_right j left (v[Suc j := v ! j]) else v)"

definition reorder_step :: "scheduler_connection list \<Rightarrow> nat \<Rightarrow> scheduler_connection list" where
  "reorder_step v i =
     (let key = v ! i;
          left = bin_search (\<lambda>m. sc_realtime_deadline_us (v ! nat m)) (sc_realtime_deadline_us key) 0 (int i - 1)
      in (shift_right i (nat left) v)[nat left := key])"

definition reorder_pass :: "scheduler \<Rightarrow> scheduler res" where
  "reorder_pass sd =
     (let p = sd_slots sd; c = unat (pl_count p)
      in if c < 2 then Inr sd
         else case pl_items p of
                None \<Rightarrow> Inl Null_Deref
              | Some xs \<Rightarrow> if length xs < c then Inl Out_Of_Bounds
                           else Inr (sd\<lparr>sd_slots := p\<lparr>pl_items := Some (foldl reorder_step xs [1..<c])\<rparr>\<rparr>))"

section \<open>Sending\<close>

text \<open>\<open>__mset\<close> to zero of the first \<open>n\<close> nodes of an array.\<close>

definition clear_nodes :: "nat \<Rightarrow> node list option \<Rightarrow> node list option res" where
  "clear_nodes n pool =
     (if n = 0 then Inr pool
      else case pool of
             None \<Rightarrow> Inl Null_Deref
           | Some xs \<Rightarrow> if length xs < n then Inl Out_Of_Bounds else Inr (Some (replicate n zero_node @ drop n xs)))"

text \<open>\<open>sched_trigger_snd\<close> on the slot \<open>conn\<close>. The address of the session field of a null pool is not
  null, so \<open>get_session_pointer\<close> reads through it before the test for null.\<close>

definition sched_trigger_snd ::
    "scheduler_connection option \<Rightarrow> recno \<Rightarrow> (scheduler_connection option \<times> recno \<times> send list) res" where
  "sched_trigger_snd conn tab =
     (case conn of
        None \<Rightarrow> Inr (None, tab, [])
      | Some c \<Rightarrow>
         (case sc_session c of
            None \<Rightarrow> Inl Null_Deref
          | Some s \<Rightarrow>
             and_then (get_session_pointer (Some (sp_session (tab s)))) (\<lambda>u.
               (case u of
                  None \<Rightarrow> Inr (conn, tab, [])
                | Some _ \<Rightarrow>
                   and_then (pool_prefix (tab s)) (\<lambda>ns.
                   and_then (clear_nodes (unat (sp_pool_size (tab s))) (sp_pool (tab s))) (\<lambda>pool.
                     Inr (Some (c\<lparr>sc_last_active_time_us := 0, sc_realtime_deadline_us := 0, sc_deadline_us := 0\<rparr>),
                          tab(s := (tab s)\<lparr>sp_pool_count := 0, sp_pool := pool\<rparr>), [(u, ns)])))))))"

text \<open>The pass of \<open>_check_and_send_thread\<close> over the first \<open>n\<close> slots from slot \<open>i\<close>: it stops at the first
  slot that is not due.\<close>

fun check_slots ::
    "u64 \<Rightarrow> nat \<Rightarrow> nat \<Rightarrow> scheduler_connection list \<Rightarrow> recno \<Rightarrow> (scheduler_connection list \<times> recno \<times> send list) res" where
  "check_slots due 0 i xs tab = Inr (xs, tab, [])"
| "check_slots due (Suc n) i xs tab =
     (if length xs \<le> i then Inl Out_Of_Bounds
      else if sc_realtime_deadline_us (xs ! i) \<le> due then
        and_then (sched_trigger_snd (Some (xs ! i)) tab) (\<lambda>(c, tab1, sent).
          and_then (check_slots due n (Suc i) (xs[i := the c]) tab1) (\<lambda>(xs2, tab2, sent2).
            Inr (xs2, tab2, sent @ sent2)))
      else Inr (xs, tab, []))"

definition check_and_send_pass :: "u64 \<Rightarrow> scheduler \<Rightarrow> recno \<Rightarrow> (scheduler \<times> recno \<times> send list) res" where
  "check_and_send_pass now sd tab =
     (let p = sd_slots sd
      in if pl_count p = 0 then Inr (sd, tab, [])
         else case (pl_items p, sd_cfg sd) of
                (Some xs, Some cfg) \<Rightarrow>
                  and_then (check_slots (now + cfg_scheduler_preemptive_deadline cfg) (unat (pl_count p)) 0 xs tab)
                    (\<lambda>(ys, tab', sent). Inr (sd\<lparr>sd_slots := p\<lparr>pl_items := Some ys\<rparr>\<rparr>, tab', sent))
              | _ \<Rightarrow> Inl Null_Deref)"

text \<open>\<open>sched_snd\<close>: sends at most six of the nodes \<open>ns\<close> (an array of the caller's), moves the rest down and
  takes the number from the session's count and, as written, from its size.\<close>

definition sched_snd ::
    "scheduler_connection option \<Rightarrow> node list \<Rightarrow> recno \<Rightarrow>
     (scheduler_connection option \<times> node list \<times> recno \<times> send list) res" where
  "sched_snd conn ns tab =
     (case conn of
        None \<Rightarrow> Inr (None, ns, tab, [])
      | Some c \<Rightarrow>
         (case sc_session c of
            None \<Rightarrow> Inl Null_Deref
          | Some s \<Rightarrow>
             and_then (get_session_pointer (Some (sp_session (tab s)))) (\<lambda>u.
               (case u of
                  None \<Rightarrow> Inr (conn, ns, tab, [])
                | Some _ \<Rightarrow>
                   (let size = unat (sp_pool_size (tab s));
                        siz = (if size < VALUE_OUTPUT_SIZE then size else VALUE_OUTPUT_SIZE)
                    in if length ns < size \<or> ns = [] then Inl Out_Of_Bounds
                       else
                         let ns' = take (size - siz) (drop siz ns) @ drop (size - siz) ns
                         in Inr (Some (c\<lparr>sc_last_active_time_us := nd_arrival (ns' ! 0),
                                         sc_realtime_deadline_us := nd_deadline (ns' ! 0),
                                         sc_deadline_us := nd_deadline (ns' ! 0)\<rparr>),
                                 ns',
                                 tab(s := (tab s)\<lparr>sp_pool_count := sp_pool_count (tab s) - of_nat siz,
                                                  sp_pool_size := sp_pool_size (tab s) - of_nat siz\<rparr>),
                                 [(u, take siz ns)]))))))"

section \<open>Insertion and deletion\<close>

definition sched_insert ::
    "(nat \<Rightarrow> scheduler_connection) option \<Rightarrow> session_id option \<Rightarrow> recno \<Rightarrow> scheduler \<Rightarrow> (int \<times> scheduler) res" where
  "sched_insert grown pool tab sd =
     (case pool of
        None \<Rightarrow> Inr (EOF, sd)
      | Some s \<Rightarrow>
         and_then (get_scheduler_connection tab grown sd) (\<lambda>(slot, sd1).
           (case (slot, pl_items (sd_slots sd1), sp_pool (tab s)) of
              (Some i, Some xs, Some (n # _)) \<Rightarrow>
                if length xs \<le> i then Inl Out_Of_Bounds
                else if \<not> sd_this sd1 then Inl Null_Deref
                else Inr (0, sd1\<lparr>sd_slots := (sd_slots sd1)\<lparr>pl_items :=
                       Some (xs[i := (xs ! i)\<lparr>sc_session := pool, sc_last_active_time_us := nd_arrival n,
                                              sc_realtime_deadline_us := nd_deadline n,
                                              sc_deadline_us := sd_deadline sd1\<rparr>])\<rparr>\<rparr>)
            | (None, _, _) \<Rightarrow> Inl Null_Deref
            | (Some _, _, None) \<Rightarrow> Inl Null_Deref
            | _ \<Rightarrow> Inl Out_Of_Bounds)))"

text \<open>The loop of \<open>sched_delete\<close> over the first \<open>n\<close> slots.\<close>

fun clear_slot :: "session_id option \<Rightarrow> nat \<Rightarrow> scheduler_connection list \<Rightarrow> scheduler_connection list" where
  "clear_slot pool 0 xs = xs"
| "clear_slot pool (Suc n) [] = []"
| "clear_slot pool (Suc n) (x # xs) = (if sc_session x = pool then zero_slot # xs else x # clear_slot pool n xs)"

definition sched_delete :: "session_id option \<Rightarrow> scheduler \<Rightarrow> scheduler res" where
  "sched_delete pool sd =
     (let c = unat (pl_count (sd_slots sd))
      in if c = 0 then Inr sd
         else case pl_items (sd_slots sd) of
                None \<Rightarrow> Inl Null_Deref
              | Some xs \<Rightarrow>
                 if length xs < c \<and> (\<forall>x \<in> set xs. sc_session x \<noteq> pool) then Inl Out_Of_Bounds
                 else Inr (sd\<lparr>sd_slots := (sd_slots sd)\<lparr>pl_items := Some (clear_slot pool c xs)\<rparr>\<rparr>))"

section \<open>Start, stop, construction\<close>

definition sched_start :: "bool \<Rightarrow> int \<Rightarrow> scheduler \<Rightarrow> int \<times> scheduler" where
  "sched_start allocated spawn_result sd =
     (if \<not> sd_this sd then (EOF, sd)
      else if \<not> allocated then (EOF, sd\<lparr>sd_slots := (sd_slots sd)\<lparr>pl_items := None\<rparr>\<rparr>)
      else (let sd1 = sd\<lparr>sd_slots := (sd_slots sd)\<lparr>pl_items := Some (replicate 0x400 zero_slot), pl_size := 0x400\<rparr>,
                         sd_run := True\<rparr>
            in (if spawn_result \<noteq> 0 then spawn_result else 0, sd1)))"

definition sched_stop :: "scheduler \<Rightarrow> scheduler" where
  "sched_stop sd = sd\<lparr>sd_run := False, sd_slots := (sd_slots sd)\<lparr>pl_items := free_items (pl_items (sd_slots sd))\<rparr>\<rparr>"

definition sched_reload :: "scheduler \<Rightarrow> scheduler" where
  "sched_reload sd = sd"

definition new_dmmr_scheduler :: "bool \<Rightarrow> cfg_server_server option \<Rightarrow> bool \<Rightarrow> scheduler \<Rightarrow> bool \<times> scheduler" where
  "new_dmmr_scheduler has_sock cfg allocated sd =
     (if \<not> has_sock \<or> cfg = None then (False, sd)
      else if \<not> allocated then (False, sd)
      else (True, sd\<lparr>sd_cfg := cfg, sd_this := True, sd_deadline := 0\<rparr>))"

section \<open>Session manager\<close>

definition session_insert_session :: "bool \<Rightarrow> int \<Rightarrow> session_id option \<Rightarrow> session_module \<Rightarrow> (int \<times> session_module) res" where
  "session_insert_session allocated spawn_result session st =
     (if session \<noteq> None then insert_session allocated spawn_result session st else Inr (EOF, st))"

definition session_get_session :: "heap \<Rightarrow> base_cb option \<Rightarrow> session_id option res" where
  "session_get_session hp u = (if u \<noteq> None then get_session hp u else Inr None)"

definition manager_sched_insert ::
    "(nat \<Rightarrow> scheduler_connection) option \<Rightarrow> session_id option \<Rightarrow> recno \<Rightarrow> scheduler \<Rightarrow> (int \<times> scheduler) res" where
  "manager_sched_insert grown pool tab sd = (if pool \<noteq> None then sched_insert grown pool tab sd else Inr (EOF, sd))"

definition sm_delete_session ::
    "heap \<Rightarrow> base_cb option \<Rightarrow> session_module \<Rightarrow> scheduler \<Rightarrow> (session_module \<times> scheduler) res" where
  "sm_delete_session hp u st sd =
     (if u = None then Inr (st, sd)
      else and_then (get_session hp u) (\<lambda>s.
             if s \<noteq> None then and_then (sched_delete s sd) (\<lambda>sd1. Inr (delete_session s st, sd1))
             else Inr (st, sd)))"

text \<open>The functions not yet implemented in the code.\<close>

definition socket_connect :: "string \<Rightarrow> int" where
  "socket_connect uri = EOF"

definition session_delete_session :: "session_id option \<Rightarrow> session_module \<Rightarrow> session_module" where
  "session_delete_session session st = st"

record manager =
  mg_cfg :: "cfg_server_server option"
  mg_this :: bool

text \<open>A failure after a manager existed stops the sessions in the handler; that is what the code does
  when a second manager is refused.\<close>

definition new_session_connection_manager ::
    "circle option \<Rightarrow> bool \<Rightarrow> bool \<Rightarrow> cfg_server_server option \<Rightarrow> bool \<Rightarrow> manager \<Rightarrow> session_module \<Rightarrow>
     (bool \<times> manager \<times> session_module) res" where
  "new_session_connection_manager cb has_sched has_sock cfg allocated mg st =
     (if cb = None \<or> \<not> has_sched \<or> \<not> has_sock \<or> \<not> allocated then
        (if mg_this mg then and_then (stop_session_connection st) (\<lambda>st'. Inr (False, mg\<lparr>mg_this := False\<rparr>, st'))
         else Inr (False, mg, st))
      else (case start_session_connection cb st of
              (ret, st1) \<Rightarrow> Inr (True, mg\<lparr>mg_cfg := cfg, mg_this := True\<rparr>, set_snd_cb True st1)))"

definition delete_session_connection_manager :: "session_module \<Rightarrow> session_module res" where
  "delete_session_connection_manager st = stop_session_connection st"

section \<open>The slot allocator\<close>

interpretation sched_alloc: slot_allocator "\<lambda>c. \<not> session_runs tab (sc_session c)"
    "\<lambda>sd. take (unat (pl_count (sd_slots sd))) (pool_slots (sd_slots sd))" "get_scheduler_connection tab grown"
    "\<lambda>sd. unat (pl_count (sd_slots sd)) \<le> length (pool_slots (sd_slots sd))" for tab grown
proof
  fix sd :: scheduler
  let ?n = "unat (pl_count (sd_slots sd))"
  assume ok: "?n \<le> length (pool_slots (sd_slots sd))"
    and "\<exists>x \<in> set (take ?n (pool_slots (sd_slots sd))). \<not> session_runs tab (sc_session x)"
  then obtain i where "pool_get (\<lambda>c. \<not> session_runs tab (sc_session c)) ?n grown (sd_slots sd) = Inr (Some i, sd_slots sd)"
    "i < ?n" "\<not> session_runs tab (sc_session (pool_slots (sd_slots sd) ! i))"
    "\<forall>j < i. \<not> \<not> session_runs tab (sc_session (pool_slots (sd_slots sd) ! j))"
    using pool_get_region [OF ok, of "\<lambda>c. \<not> session_runs tab (sc_session c)" grown] by blast
  then show "\<exists>i. get_scheduler_connection tab grown sd = Inr (Some i, sd) \<and>
      i < length (take ?n (pool_slots (sd_slots sd))) \<and>
      \<not> session_runs tab (sc_session (take ?n (pool_slots (sd_slots sd)) ! i)) \<and>
      (\<forall>j < i. \<not> \<not> session_runs tab (sc_session (take ?n (pool_slots (sd_slots sd)) ! j)))"
    using ok by (intro exI [of _ i]) (simp add: get_scheduler_connection_def)
qed

section \<open>Binary insertion\<close>

lemma bin_search_place:
  fixes at :: "int \<Rightarrow> u64"
  assumes mono: "\<And>a b. 0 \<le> a \<Longrightarrow> a \<le> b \<Longrightarrow> b < n \<Longrightarrow> at a \<le> at b"
    and "0 \<le> left" and "left \<le> right + 1" and "right < n"
    and "\<And>m. 0 \<le> m \<Longrightarrow> m < left \<Longrightarrow> at m \<le> key" and "\<And>m. right < m \<Longrightarrow> m < n \<Longrightarrow> key < at m"
  defines "r \<equiv> bin_search at key left right"
  shows "0 \<le> r \<and> r \<le> n \<and> (\<forall>m. 0 \<le> m \<and> m < r \<longrightarrow> at m \<le> key) \<and> (\<forall>m. r \<le> m \<and> m < n \<longrightarrow> key < at m)"
  using assms(2-6) unfolding r_def
proof (induction "nat (right - left + 1)" arbitrary: left right rule: less_induct)
  case less
  show ?case
  proof (cases "left \<le> right")
    case True
    define mid where "mid = (left + right) div 2"
    have mid: "left \<le> mid" "mid \<le> right" "0 \<le> mid" "mid < n" using True less.prems by (auto simp: mid_def)
    show ?thesis
    proof (cases "at mid \<le> key")
      case below: True
      have step: "bin_search at key left right = bin_search at key (mid + 1) right"
        using True below by (simp add: bin_search.simps [of at key left right] mid_def)
      have "at m \<le> key" if "0 \<le> m" "m < mid + 1" for m
        using mono [of m mid] that mid below by (meson order_trans zle_add1_eq_le)
      then show ?thesis unfolding step using less.prems mid
        by (intro less.hyps) auto
    next
      case above: False
      have step: "bin_search at key left right = bin_search at key left (mid - 1)"
        using True above by (simp add: bin_search.simps [of at key left right] mid_def Let_def)
      have "key < at m" if "mid - 1 < m" "m < n" for m
        using mono [of mid m] that mid above by (meson le_less_trans not_le zle_diff1_eq order.strict_trans2)
      then show ?thesis unfolding step using less.prems mid
        by (intro less.hyps) auto
    qed
  next
    case False
    then have "bin_search at key left right = left" by (simp add: bin_search.simps [of at key left right])
    then show ?thesis using less.prems False by auto
  qed
qed

lemma shift_right_inserts:
  "left \<le> i \<Longrightarrow> i < length v \<Longrightarrow>
   (shift_right i left v)[left := key] = take left v @ key # drop left (take i v) @ drop (Suc i) v"
proof (induction i left v rule: shift_right.induct)
  case (1 left v)
  then show ?case by (cases v) simp_all
next
  case (2 j left v)
  show ?case
  proof (cases "left \<le> j")
    case True
    let ?v = "v[Suc j := v ! j]"
    have "(shift_right j left ?v)[left := key] = take left ?v @ key # drop left (take j ?v) @ drop (Suc j) ?v"
      using 2 True by simp
    moreover have "drop (Suc j) ?v = v ! j # drop (Suc (Suc j)) v"
      using 2(3) by (simp add: drop_update_swap Cons_nth_drop_Suc [symmetric])
    moreover have "drop left (take (Suc j) v) = drop left (take j v) @ [v ! j]"
      using 2(3) True by (simp add: take_Suc_conv_app_nth)
    ultimately show ?thesis using True by simp
  next
    case False
    then have "left = Suc j" using 2(2) by simp
    then show ?thesis using 2(3) by (simp add: upd_conv_take_nth_drop)
  qed
qed

lemma reorder_step_inserts:
  assumes "i < length v" and "sorted (map sc_realtime_deadline_us (take i v))"
  shows "reorder_step v i = insert_after sc_realtime_deadline_us (v ! i) (take i v) @ drop (Suc i) v"
proof -
  let ?key = "sc_realtime_deadline_us (v ! i)"
  let ?at = "\<lambda>m. sc_realtime_deadline_us (v ! nat m)"
  define r where "r = bin_search ?at ?key 0 (int i - 1)"
  have mono: "?at a \<le> ?at b" if "0 \<le> a" "a \<le> b" "b < int i" for a b
  proof -
    have "map sc_realtime_deadline_us (take i v) ! nat a \<le> map sc_realtime_deadline_us (take i v) ! nat b"
      using that assms by (intro sorted_nth_mono) auto
    then show ?thesis using that assms(1) by simp
  qed
  have r: "0 \<le> r" "r \<le> int i" "\<forall>m. 0 \<le> m \<and> m < r \<longrightarrow> ?at m \<le> ?key" "\<forall>m. r \<le> m \<and> m < int i \<longrightarrow> ?key < ?at m"
    using bin_search_place [of "int i" ?at 0 "int i - 1" ?key] mono unfolding r_def by auto
  have left: "nat r \<le> i" using r(1,2) by simp
  have tw: "takeWhile (\<lambda>y. sc_realtime_deadline_us y \<le> ?key) (take i v) = take (nat r) (take i v)"
  proof (rule takeWhile_eq_take_P_nth)
    fix j
    assume "j < nat r"
    then show "sc_realtime_deadline_us (take i v ! j) \<le> ?key" using r(3) [rule_format, of "int j"] left by simp
  next
    assume "nat r < length (take i v)"
    then have "r < int i" "nat r < i" using r(1) by (auto simp: nat_less_iff)
    then show "\<not> sc_realtime_deadline_us (take i v ! nat r) \<le> ?key" using r(1) r(4) [rule_format, of r] by (simp add: not_le)
  qed
  then have "dropWhile (\<lambda>y. sc_realtime_deadline_us y \<le> ?key) (take i v) = drop (nat r) (take i v)"
    using left assms(1) by (simp add: dropWhile_eq_drop)
  then show ?thesis using tw shift_right_inserts [OF left assms(1), of "v ! i"] left
    by (simp add: reorder_step_def Let_def r_def [symmetric] insert_after_def min_def)
qed

interpretation sched_sort: stable_insertion sc_realtime_deadline_us reorder_step
  by unfold_locales (rule reorder_step_inserts)

lemma reorder_pass_sorts:
  assumes "pl_items (sd_slots sd) = Some xs" and "unat (pl_count (sd_slots sd)) \<le> length xs"
  defines "c \<equiv> unat (pl_count (sd_slots sd))"
  shows "reorder_pass sd = Inr (sd\<lparr>sd_slots := (sd_slots sd)\<lparr>pl_items :=
     Some (sort_key sc_realtime_deadline_us (take c xs) @ drop c xs)\<rparr>\<rparr>)"
proof (cases "c < 2")
  case True
  then have "sort_key sc_realtime_deadline_us (take c xs) = take c xs" by (cases xs; cases c) auto
  then show ?thesis using True assms(1) by (simp add: reorder_pass_def Let_def c_def [symmetric])
next
  case False
  then show ?thesis using sched_sort.outer_sorts [OF assms(2)] assms(1,2)
    by (simp add: reorder_pass_def Let_def sched_sort.outer_def c_def)
qed

section \<open>A pass of the send thread\<close>

text \<open>A slot whose session can be sent: a live block linked to another, and a pool of at least the
  size and the count the session says.\<close>

definition slot_ready :: "recno \<Rightarrow> scheduler_connection \<Rightarrow> bool" where
  "slot_ready tab x \<longleftrightarrow> (\<exists>s xs. sc_session x = Some s \<and> cb_proto (sp_session (tab s)) \<noteq> proto_none_t \<and>
     cb_linked (sp_session (tab s)) \<noteq> None \<and> sp_pool (tab s) = Some xs \<and>
     unat (sp_pool_count (tab s)) \<le> length xs \<and> unat (sp_pool_size (tab s)) \<le> length xs)"

definition slot_batch :: "recno \<Rightarrow> scheduler_connection \<Rightarrow> send" where
  "slot_batch tab x = (let p = tab (the (sc_session x))
     in (cb_linked (sp_session p), take (unat (sp_pool_count p)) (the (sp_pool p))))"

definition slot_reset :: "scheduler_connection \<Rightarrow> scheduler_connection" where
  "slot_reset x = x\<lparr>sc_last_active_time_us := 0, sc_realtime_deadline_us := 0, sc_deadline_us := 0\<rparr>"

definition session_sent :: "session_connection_pool \<Rightarrow> session_connection_pool" where
  "session_sent p = p\<lparr>sp_pool_count := 0, sp_pool :=
     map_option (\<lambda>xs. replicate (unat (sp_pool_size p)) zero_node @ drop (unat (sp_pool_size p)) xs) (sp_pool p)\<rparr>"

definition mark_sent :: "scheduler_connection \<Rightarrow> recno \<Rightarrow> recno" where
  "mark_sent x tab = tab(the (sc_session x) := session_sent (tab (the (sc_session x))))"

lemma trigger_ready:
  assumes "slot_ready tab x"
  shows "sched_trigger_snd (Some x) tab = Inr (Some (slot_reset x), mark_sent x tab, [slot_batch tab x])"
proof -
  obtain s xs where s: "sc_session x = Some s" "cb_proto (sp_session (tab s)) \<noteq> proto_none_t"
    "cb_linked (sp_session (tab s)) \<noteq> None" "sp_pool (tab s) = Some xs"
    "unat (sp_pool_count (tab s)) \<le> length xs" "unat (sp_pool_size (tab s)) \<le> length xs"
    using assms by (auto simp: slot_ready_def)
  obtain l where l: "cb_linked (sp_session (tab s)) = Some l" using s(3) by auto
  then have "get_session_pointer (Some (sp_session (tab s))) = Inr (Some l)"
    using s(2) by (cases "cb_proto (sp_session (tab s))") (auto simp: get_session_pointer_def)
  moreover have "pool_prefix (tab s) = Inr (take (unat (sp_pool_count (tab s))) xs)"
    using s(4,5) by (auto simp: pool_prefix_def)
  moreover have "clear_nodes (unat (sp_pool_size (tab s))) (sp_pool (tab s)) = Inr (sp_pool (session_sent (tab s)))"
    using s(4,6) by (auto simp: clear_nodes_def session_sent_def)
  ultimately show ?thesis using s l
    by (simp add: sched_trigger_snd_def slot_reset_def mark_sent_def slot_batch_def session_sent_def)
qed

lemma mark_sent_other: "sc_session y \<noteq> sc_session x \<Longrightarrow> sc_session x \<noteq> None \<Longrightarrow> sc_session y \<noteq> None \<Longrightarrow>
    mark_sent x tab (the (sc_session y)) = tab (the (sc_session y))"
  by (auto simp: mark_sent_def)

lemma slot_ready_other:
  assumes "sc_session y \<noteq> sc_session x" and "sc_session x \<noteq> None" and "slot_ready tab y"
  shows "slot_ready (mark_sent x tab) y \<and> slot_batch (mark_sent x tab) y = slot_batch tab y"
proof -
  have y: "sc_session y \<noteq> None" using assms(3) by (auto simp: slot_ready_def)
  have "mark_sent x tab (the (sc_session y)) = tab (the (sc_session y))"
    using mark_sent_other [OF assms(1,2) y] .
  then show ?thesis using assms(3) by (auto simp: slot_ready_def slot_batch_def)
qed

lemma check_slots_due:
  assumes "i + n \<le> length xs" and "\<forall>x \<in> set (takeWhile (\<lambda>x. sc_realtime_deadline_us x \<le> due) (take n (drop i xs))). slot_ready tab x"
    and "distinct (map sc_session (take n (drop i xs)))"
  defines "d \<equiv> takeWhile (\<lambda>x. sc_realtime_deadline_us x \<le> due) (take n (drop i xs))"
  shows "check_slots due n i xs tab =
     Inr (take i xs @ map slot_reset d @ drop (i + length d) xs, fold mark_sent d tab, map (slot_batch tab) d)"
  using assms(1-3) unfolding d_def
proof (induction n arbitrary: i xs tab)
  case (Suc n)
  have i: "i < length xs" using Suc.prems(1) by simp
  then have head: "take (Suc n) (drop i xs) = xs ! i # take n (drop (Suc i) xs)" by (simp add: Cons_nth_drop_Suc [symmetric])
  show ?case
  proof (cases "sc_realtime_deadline_us (xs ! i) \<le> due")
    case True
    let ?ys = "xs[i := slot_reset (xs ! i)]" and ?tab = "mark_sent (xs ! i) tab"
    let ?d = "takeWhile (\<lambda>x. sc_realtime_deadline_us x \<le> due) (take n (drop (Suc i) xs))"
    have ready: "slot_ready tab (xs ! i)" using Suc.prems(2) True by (simp add: head)
    then have some: "sc_session (xs ! i) \<noteq> None" by (auto simp: slot_ready_def)
    have other: "slot_ready ?tab y \<and> slot_batch ?tab y = slot_batch tab y" if "y \<in> set ?d" for y
    proof (rule slot_ready_other [OF _ some])
      show "sc_session y \<noteq> sc_session (xs ! i)" using Suc.prems(3) that
        by (simp add: head) (metis image_eqI set_takeWhileD)
      show "slot_ready tab y" using Suc.prems(2) that True by (simp add: head)
    qed
    have drop: "drop (Suc i) ?ys = drop (Suc i) xs" by simp
    have "check_slots due n (Suc i) ?ys ?tab =
        Inr (take (Suc i) ?ys @ map slot_reset ?d @ drop (Suc i + length ?d) ?ys, fold mark_sent ?d ?tab, map (slot_batch ?tab) ?d)"
      using Suc.IH [of "Suc i" ?ys ?tab] Suc.prems other by (simp add: head drop)
    moreover have "take (Suc i) ?ys = take i xs @ [slot_reset (xs ! i)]" using i by (simp add: take_Suc_conv_app_nth)
    moreover have "map (slot_batch ?tab) ?d = map (slot_batch tab) ?d" using other by simp
    ultimately show ?thesis using True i trigger_ready [OF ready] by (simp add: head)
  next
    case False
    then show ?thesis using i by (simp add: head)
  qed
qed simp

lemma takeWhile_sorted_filter:
  "sorted (map f xs) \<Longrightarrow> takeWhile (\<lambda>x. f x \<le> k) xs = filter (\<lambda>x. f x \<le> (k :: 'k :: linorder)) xs"
proof (induction xs)
  case (Cons x xs)
  show ?case
  proof (cases "f x \<le> k")
    case False
    have "\<not> f y \<le> k" if "y \<in> set xs" for y
    proof -
      have "f x \<le> f y" using Cons.prems that by simp
      then show ?thesis using False by (meson order_trans)
    qed
    then show ?thesis using False by (simp add: filter_empty_conv [THEN iffD2])
  qed (use Cons in simp)
qed simp

lemma reset_due_sorted:
  fixes due :: u64
  assumes "sorted (map sc_realtime_deadline_us xs)"
  defines "d \<equiv> takeWhile (\<lambda>x. sc_realtime_deadline_us x \<le> due) xs"
  shows "map slot_reset d @ drop (length d) xs = map (\<lambda>x. if sc_realtime_deadline_us x \<le> due then slot_reset x else x) xs"
  using assms(1) unfolding d_def
proof (induction xs)
  case (Cons x xs)
  then show ?case by (cases "sc_realtime_deadline_us x \<le> due") (auto intro!: map_idI [symmetric])
qed simp

lemma fold_mark_sent:
  assumes "distinct (map sc_session d)" and "\<forall>x \<in> set d. sc_session x \<noteq> None"
  shows "fold mark_sent d tab s = (if Some s \<in> sc_session ` set d then session_sent (tab s) else tab s)"
  using assms
proof (induction d arbitrary: tab)
  case (Cons x d)
  then obtain a where "sc_session x = Some a" by auto
  then show ?case using Cons by (auto simp: mark_sent_def)
qed simp

section \<open>A deleted session\<close>

lemma clear_slot_zero:
  "x \<in> set (take n xs) \<Longrightarrow> sc_session x = pool \<Longrightarrow>
   zero_slot \<in> set (take n (clear_slot pool n xs)) \<and> length (clear_slot pool n xs) = length xs"
proof (induction pool n xs rule: clear_slot.induct)
  case (3 pool n y xs)
  have len: "length (clear_slot pool n xs) = length xs" for pool n and xs :: "scheduler_connection list"
    by (induction pool n xs rule: clear_slot.induct) auto
  show ?case using 3 len by auto
qed simp_all

lemma check_slots_null:
  assumes "i \<le> k" and "k < i + n" and "xs ! k = zero_slot" and "k < length xs"
    and "\<forall>j. i \<le> j \<and> j \<le> k \<longrightarrow> sc_realtime_deadline_us (xs ! j) \<le> due"
  shows "\<exists>f. check_slots due n i xs tab = Inl f"
  using assms
proof (induction n arbitrary: i xs tab)
  case (Suc n)
  have i: "i < length xs" "sc_realtime_deadline_us (xs ! i) \<le> due" using Suc.prems by auto
  show ?case
  proof (cases "sched_trigger_snd (Some (xs ! i)) tab")
    case (Inr r)
    obtain c tab1 sent where r: "r = (c, tab1, sent)" by (cases r) auto
    have "xs ! i \<noteq> zero_slot" using Inr by (auto simp: sched_trigger_snd_def zero_slot_def)
    then have "i \<noteq> k" using Suc.prems(3) by auto
    then obtain f where "check_slots due n (Suc i) (xs[i := the c]) tab1 = Inl f"
      using Suc.IH [of "Suc i" "xs[i := the c]" tab1] Suc.prems by auto
    then show ?thesis using i Inr r by (simp add: not_le)
  qed (use i in \<open>simp add: not_le\<close>)
qed simp

lemma check_and_send_pass_due:
  assumes "pl_items (sd_slots sd) = Some xs" and "pl_count (sd_slots sd) \<noteq> 0" and "c = unat (pl_count (sd_slots sd))"
    and "c \<le> length xs" and "sd_cfg sd = Some cfg" and "due = now + cfg_scheduler_preemptive_deadline cfg"
    and "sorted (map sc_realtime_deadline_us (take c xs))" and "distinct (map sc_session (take c xs))"
    and "\<forall>x \<in> set (take c xs). sc_realtime_deadline_us x \<le> due \<longrightarrow> slot_ready tab x"
  shows "\<exists>tab'. check_and_send_pass now sd tab =
     Inr (sd\<lparr>sd_slots := (sd_slots sd)\<lparr>pl_items :=
            Some (map (\<lambda>x. if sc_realtime_deadline_us x \<le> due then slot_reset x else x) (take c xs) @ drop c xs)\<rparr>\<rparr>,
          tab', map (slot_batch tab) (filter (\<lambda>x. sc_realtime_deadline_us x \<le> due) (take c xs))) \<and>
     (\<forall>s. tab' s = (if \<exists>x \<in> set (take c xs). sc_realtime_deadline_us x \<le> due \<and> sc_session x = Some s
                    then session_sent (tab s) else tab s))"
proof -
  let ?due = "\<lambda>x. sc_realtime_deadline_us x \<le> due"
  let ?d = "takeWhile ?due (take c xs)"
  have d: "?d = filter ?due (take c xs)" using takeWhile_sorted_filter [OF assms(7)] .
  have run: "check_slots due c 0 xs tab =
      Inr (map slot_reset ?d @ drop (length ?d) xs, fold mark_sent ?d tab, map (slot_batch tab) ?d)"
    using check_slots_due [of 0 c xs due tab] assms(4,8,9) by (auto simp: d)
  have "drop (length ?d) xs = drop (length ?d) (take c xs) @ drop c xs"
    using length_takeWhile_le [of ?due "take c xs"] assms(4)
    by (metis append_take_drop_id drop_append length_take min.absorb2 diff_is_0_eq drop_0)
  then have slots: "map slot_reset ?d @ drop (length ?d) xs =
      map (\<lambda>x. if ?due x then slot_reset x else x) (take c xs) @ drop c xs"
    using reset_due_sorted [OF assms(7), of due] by (simp add: d)
  have "distinct (map sc_session ?d)" using assms(8) by (simp add: d distinct_map_filter)
  moreover have "\<forall>x \<in> set ?d. sc_session x \<noteq> None" using assms(9) by (auto simp: d slot_ready_def)
  ultimately have tab: "fold mark_sent ?d tab s =
      (if \<exists>x \<in> set (take c xs). ?due x \<and> sc_session x = Some s then session_sent (tab s) else tab s)" for s
    using fold_mark_sent [of ?d tab s] by (auto simp: d image_iff)
  have "check_and_send_pass now sd tab =
     Inr (sd\<lparr>sd_slots := (sd_slots sd)\<lparr>pl_items :=
            Some (map (\<lambda>x. if ?due x then slot_reset x else x) (take c xs) @ drop c xs)\<rparr>\<rparr>,
          fold mark_sent ?d tab, map (slot_batch tab) (filter ?due (take c xs)))"
    using run assms(1,2,5) unfolding slots
    by (simp add: check_and_send_pass_def Let_def assms(3) [symmetric] assms(6) [symmetric] d)
  then show ?thesis using tab by blast
qed

section \<open>Properties\<close>

text \<open>C10: A pass of the reorder thread, binary search and shift, is the stable sort of the used slots by
  realtime deadline, and leaves the rest of the array alone.\<close>

theorem reorder_is_stable_sort:
  assumes "pl_items (sd_slots sd) = Some xs" and "unat (pl_count (sd_slots sd)) \<le> length xs"
  shows "reorder_pass sd = Inr (sd\<lparr>sd_slots := (sd_slots sd)\<lparr>pl_items :=
     Some (sort_key sc_realtime_deadline_us (take (unat (pl_count (sd_slots sd))) xs) @
           drop (unat (pl_count (sd_slots sd))) xs)\<rparr>\<rparr>)"
  using reorder_pass_sorts [OF assms] .

definition demo_scheduler :: scheduler where
  "demo_scheduler = \<lparr>sd_slots = \<lparr>pl_items = Some [zero_slot\<lparr>sc_realtime_deadline_us := 9, sc_session := Some (1, proto_arr_tcp_t)\<rparr>,
       zero_slot\<lparr>sc_realtime_deadline_us := 5, sc_session := Some (2, proto_arr_tcp_t)\<rparr>, zero_slot], pl_size = 3, pl_count = 2\<rparr>,
     sd_run = True, sd_this = True, sd_deadline = 0, sd_cfg = Some (small_config 4)\<rparr>"

theorem reorder_is_stable_sort_witness:
  "\<exists>xs. pl_items (sd_slots demo_scheduler) = Some xs \<and>
    reorder_pass demo_scheduler = Inr (demo_scheduler\<lparr>sd_slots := (sd_slots demo_scheduler)\<lparr>pl_items :=
     Some (sort_key sc_realtime_deadline_us (take 2 xs) @ drop 2 xs)\<rparr>\<rparr>)"
proof -
  obtain xs where xs: "pl_items (sd_slots demo_scheduler) = Some xs" "length xs = 3" by (simp add: demo_scheduler_def)
  have "unat (pl_count (sd_slots demo_scheduler)) = 2" by (simp add: demo_scheduler_def)
  then show ?thesis using reorder_is_stable_sort [OF xs(1)] xs by simp
qed

text \<open>C17: On sorted slots a pass of the send thread sends exactly the sessions that are due, each once, its
  whole pool in slot order, clears those pools and resets those slots, and touches no other slot and
  no other session; stopping at the first slot that is not due loses none.\<close>

theorem send_pass_sends_due:
  assumes "pl_items (sd_slots sd) = Some xs" and "pl_count (sd_slots sd) \<noteq> 0" and "c = unat (pl_count (sd_slots sd))"
    and "c \<le> length xs" and "sd_cfg sd = Some cfg" and "due = now + cfg_scheduler_preemptive_deadline cfg"
    and "sorted (map sc_realtime_deadline_us (take c xs))" and "distinct (map sc_session (take c xs))"
    and "\<forall>x \<in> set (take c xs). sc_realtime_deadline_us x \<le> due \<longrightarrow> slot_ready tab x"
  shows "\<exists>tab'. check_and_send_pass now sd tab =
     Inr (sd\<lparr>sd_slots := (sd_slots sd)\<lparr>pl_items :=
            Some (map (\<lambda>x. if sc_realtime_deadline_us x \<le> due then slot_reset x else x) (take c xs) @ drop c xs)\<rparr>\<rparr>,
          tab', map (slot_batch tab) (filter (\<lambda>x. sc_realtime_deadline_us x \<le> due) (take c xs))) \<and>
     (\<forall>s. tab' s = (if \<exists>x \<in> set (take c xs). sc_realtime_deadline_us x \<le> due \<and> sc_session x = Some s
                    then session_sent (tab s) else tab s))"
  by (rule check_and_send_pass_due [OF assms])

definition demo_table :: recno where
  "demo_table = (\<lambda>_. zero_session\<lparr>sp_pool := Some [zero_node], sp_pool_size := 1, sp_pool_count := 1,
     sp_session := zero_cb\<lparr>cb_proto := proto_tcp_t, cb_linked := Some (Tcp_Pool 0)\<rparr>\<rparr>)"

theorem send_pass_sends_due_witness:
  "\<exists>sd' tab'. reorder_pass demo_scheduler = Inr sd' \<and>
     (\<exists>sd''. check_and_send_pass 6 sd' demo_table = Inr (sd'', tab', [(Some (Tcp_Pool 0), [zero_node])])) \<and>
     tab' (2, proto_arr_tcp_t) = session_sent (demo_table (2, proto_arr_tcp_t)) \<and>
     tab' (1, proto_arr_tcp_t) = demo_table (1, proto_arr_tcp_t)"
proof -
  let ?a = "zero_slot\<lparr>sc_realtime_deadline_us := 9, sc_session := Some (1, proto_arr_tcp_t)\<rparr>"
  let ?b = "zero_slot\<lparr>sc_realtime_deadline_us := 5, sc_session := Some (2, proto_arr_tcp_t)\<rparr>"
  define sd where "sd = demo_scheduler\<lparr>sd_slots := (sd_slots demo_scheduler)\<lparr>pl_items := Some [?b, ?a, zero_slot]\<rparr>\<rparr>"
  have "reorder_pass demo_scheduler = Inr sd"
    using reorder_pass_sorts [of demo_scheduler "[?a, ?b, zero_slot]"] by (simp add: demo_scheduler_def sd_def)
  moreover have "\<exists>tab'. check_and_send_pass 6 sd demo_table =
     Inr (sd\<lparr>sd_slots := (sd_slots sd)\<lparr>pl_items :=
            Some (map (\<lambda>x. if sc_realtime_deadline_us x \<le> 7 then slot_reset x else x) (take 2 [?b, ?a, zero_slot]) @ drop 2 [?b, ?a, zero_slot])\<rparr>\<rparr>,
          tab', map (slot_batch demo_table) (filter (\<lambda>x. sc_realtime_deadline_us x \<le> 7) (take 2 [?b, ?a, zero_slot]))) \<and>
     (\<forall>s. tab' s = (if \<exists>x \<in> set (take 2 [?b, ?a, zero_slot]). sc_realtime_deadline_us x \<le> 7 \<and> sc_session x = Some s
                    then session_sent (demo_table s) else demo_table s))"
    by (rule send_pass_sends_due [where cfg = "small_config 4"])
      (simp_all add: sd_def demo_scheduler_def small_config_def slot_ready_def demo_table_def zero_cb_def)
  ultimately show ?thesis
    by (auto simp: slot_batch_def demo_table_def)
qed

text \<open>C38: Deleting a scheduled session zeroes its slot but leaves it among the used ones, with deadline 0
  and no session: the next reorder puts it at the front, where it is always due, and the send thread
  then dereferences the null session; no such pass completes.\<close>

theorem deleted_session_faults:
  assumes "pl_items (sd_slots sd) = Some xs" and "unat (pl_count (sd_slots sd)) \<le> length xs"
    and "x \<in> set (take (unat (pl_count (sd_slots sd))) xs)" and "sc_session x = Some s"
  shows "\<exists>sd0 f. sched_delete (Some s) sd = Inr sd0 \<and>
     and_then (reorder_pass sd0) (\<lambda>sd1. check_and_send_pass now sd1 tab) = Inl f"
proof -
  let ?c = "unat (pl_count (sd_slots sd))"
  define ys where "ys = clear_slot (Some s) ?c xs"
  have ys: "zero_slot \<in> set (take ?c ys)" "length ys = length xs"
    using clear_slot_zero [OF assms(3), of "Some s"] assms(4) by (auto simp: ys_def)
  let ?del = "sd\<lparr>sd_slots := (sd_slots sd)\<lparr>pl_items := Some ys\<rparr>\<rparr>"
  have del: "pl_items (sd_slots ?del) = Some ys" "pl_count (sd_slots ?del) = pl_count (sd_slots sd)" by simp_all
  have "?c \<noteq> 0" using assms(3) by (cases "?c = 0") simp_all
  then have deleted: "sched_delete (Some s) sd = Inr ?del" using assms(1,2) by (simp add: sched_delete_def ys_def Let_def not_less)
  define zs where "zs = sort_key sc_realtime_deadline_us (take ?c ys)"
  define sd1 where "sd1 = ?del\<lparr>sd_slots := (sd_slots ?del)\<lparr>pl_items := Some (zs @ drop ?c ys)\<rparr>\<rparr>"
  have reorder: "reorder_pass ?del = Inr sd1"
    using reorder_pass_sorts [OF del(1)] assms(2) ys(2) by (simp add: del sd1_def zs_def)
  have zs: "length zs = ?c" "sorted (map sc_realtime_deadline_us zs)" using assms(2) ys(2) by (simp_all add: zs_def)
  have "zero_slot \<in> set zs" using ys(1) by (simp add: zs_def)
  then obtain k where k: "k < ?c" "zs ! k = zero_slot" using zs(1) by (metis in_set_conv_nth)
  have front: "sc_realtime_deadline_us ((zs @ drop ?c ys) ! j) \<le> due" if "j \<le> k" for j due
  proof -
    have "map sc_realtime_deadline_us zs ! j \<le> map sc_realtime_deadline_us zs ! k"
      using zs k that by (intro sorted_nth_mono) auto
    then have "sc_realtime_deadline_us (zs ! j) = 0" using k zs(1) that by (simp add: zero_slot_def)
    then show ?thesis using that k zs(1) by (simp add: nth_append)
  qed
  have "\<exists>f. check_slots due ?c 0 (zs @ drop ?c ys) tab = Inl f" for due
    using check_slots_null [of 0 k ?c "zs @ drop ?c ys" due tab] k zs(1) front by (simp add: nth_append)
  then show ?thesis using deleted reorder k(1)
    by (auto simp: check_and_send_pass_def Let_def sd1_def del split: option.splits) (metis and_then_simps(1))
qed

theorem deleted_session_faults_witness:
  "\<exists>sd0 f. sched_delete (Some (2, proto_arr_tcp_t)) demo_scheduler = Inr sd0 \<and>
     and_then (reorder_pass sd0) (\<lambda>sd1. check_and_send_pass 6 sd1 demo_table) = Inl f"
  by (rule deleted_session_faults [where xs = "the (pl_items (sd_slots demo_scheduler))" and x = "zero_slot\<lparr>sc_realtime_deadline_us := 5, sc_session := Some (2, proto_arr_tcp_t)\<rparr>"])
    (simp_all add: demo_scheduler_def)

end
