(* ===== verification/Orbit_Net.thy ===== *)
theory Orbit_Net
  imports Orbit_Sched Orbit_Recv
begin

text \<open>
  The TCP and UDP services: \<^verbatim>\<open>src/socket/socket_tcp.c\<close> and \<^verbatim>\<open>src/socket/socket_udp.c\<close>. The
  results of the system calls are arguments; the calls with an effect outside the program are
  recorded as \<open>sys\<close> events, with the bytes they are given. A callback is an argument that changes
  the state. A block of the protocol union is named by the array it lies in and its index
  (\<open>cb_ptr\<close>), a node by its index in the node pool.
\<close>

section \<open>State\<close>

record net =
  nt_node :: "node pool"
  nt_tcp :: "base_cb pool"
  nt_cap :: "base_cb pool"
  nt_udp :: "base_cb pool"
  nt_tab :: recno

datatype sys =
    Sys_Bind int "u8 list"
  | Sys_Connect int "u8 list"
  | Sys_Listen int nat
  | Sys_Close int
  | Sys_Send int "(u8 list \<times> u32) list"
  | Sys_Send_To int ezp_addr_type u16 "u8 list" "(u8 list \<times> u32) list"

definition nth_opt :: "'a list \<Rightarrow> nat \<Rightarrow> 'a option" where
  "nth_opt xs i = (if i < length xs then Some (xs ! i) else None)"

definition read_cb :: "net \<Rightarrow> cb_ptr \<Rightarrow> base_cb option" where
  "read_cb st p =
     (case p of
        Cap i \<Rightarrow> nth_opt (pool_slots (nt_cap st)) i
      | Tcp_Pool i \<Rightarrow> nth_opt (pool_slots (nt_tcp st)) i
      | Udp_Pool i \<Rightarrow> nth_opt (pool_slots (nt_udp st)) i
      | Session k arr \<Rightarrow> if k < RECNO_SIZE then Some (sp_session (nt_tab st (k, arr))) else None)"

definition set_slot :: "nat \<Rightarrow> 'a \<Rightarrow> 'a pool \<Rightarrow> 'a pool" where
  "set_slot i x p = p\<lparr>pl_items := map_option (\<lambda>xs. xs[i := x]) (pl_items p)\<rparr>"

definition write_cb :: "cb_ptr \<Rightarrow> base_cb \<Rightarrow> net \<Rightarrow> net" where
  "write_cb p c st =
     (case p of
        Cap i \<Rightarrow> st\<lparr>nt_cap := set_slot i c (nt_cap st)\<rparr>
      | Tcp_Pool i \<Rightarrow> st\<lparr>nt_tcp := set_slot i c (nt_tcp st)\<rparr>
      | Udp_Pool i \<Rightarrow> st\<lparr>nt_udp := set_slot i c (nt_udp st)\<rparr>
      | Session k arr \<Rightarrow> st\<lparr>nt_tab := (nt_tab st)((k, arr) := (nt_tab st (k, arr))\<lparr>sp_session := c\<rparr>)\<rparr>)"

definition heap_of :: "net \<Rightarrow> heap" where
  "heap_of st = \<lparr>hp_node = nth_opt (pool_slots (nt_node st)), hp_cb = read_cb st\<rparr>"

text \<open>The address of a peer as \<open>accept\<close>, \<open>getsockname\<close> and \<open>recvmsg\<close> report it: port and address bytes.\<close>

type_synonym peer = "u16 \<times> u8 list"

text \<open>Storing a peer in a node: four bytes at the start of the IPv4 field, or sixteen at the start of the
  IPv6 field.\<close>

definition store_bytes :: "u8 list \<Rightarrow> u8 list \<Rightarrow> u8 list" where
  "store_bytes field bytes = bytes @ drop (length bytes) field"

definition store_peer :: "peer \<Rightarrow> node \<Rightarrow> node" where
  "store_peer = (\<lambda>(port, addr) n.
     (if nd_family n = EZP_IPV4 then n\<lparr>nd_port := port, nd_ipv4 := store_bytes (nd_ipv4 n) (take 4 addr)\<rparr>
      else n\<lparr>nd_port := port, nd_ipv6 := store_bytes (nd_ipv6 n) (take 16 addr)\<rparr>))"

section \<open>TCP pools\<close>

definition get_node :: "(nat \<Rightarrow> node) option \<Rightarrow> net \<Rightarrow> (nat option \<times> net) res" where
  "get_node grown st =
     and_then (pool_get (\<lambda>n. nd_fd n = 0) (unat (pl_size (nt_node st))) grown (nt_node st))
       (\<lambda>(slot, p). Inr (slot, st\<lparr>nt_node := p\<rparr>))"

definition delete_node :: "nat option \<Rightarrow> net \<Rightarrow> net" where
  "delete_node p st = (case p of None \<Rightarrow> st | Some i \<Rightarrow> st\<lparr>nt_node := set_slot i zero_node (nt_node st)\<rparr>)"

definition get_tcp_node :: "(nat \<Rightarrow> base_cb) option \<Rightarrow> net \<Rightarrow> (nat option \<times> net) res" where
  "get_tcp_node grown st =
     and_then (pool_get (\<lambda>c. \<not> cb_run c) (unat (pl_size (nt_tcp st))) grown (nt_tcp st))
       (\<lambda>(slot, p). Inr (slot, st\<lparr>nt_tcp := p\<rparr>))"

definition delete_tcp_node :: "cb_ptr \<Rightarrow> net \<Rightarrow> net" where
  "delete_tcp_node p st = write_cb p zero_cb st"

definition start_tcp_socket :: "bool \<Rightarrow> bool \<Rightarrow> net \<Rightarrow> int \<times> net" where
  "start_tcp_socket tcp_allocated nodes_allocated st =
     (if \<not> tcp_allocated then (EOF, st\<lparr>nt_tcp := (nt_tcp st)\<lparr>pl_items := None\<rparr>\<rparr>)
      else (let st1 = st\<lparr>nt_tcp := (nt_tcp st)\<lparr>pl_items := Some (replicate 0x400 zero_cb), pl_size := 0x400\<rparr>\<rparr>
            in if \<not> nodes_allocated then
                 (EOF, st1\<lparr>nt_node := (nt_node st1)\<lparr>pl_items := None\<rparr>,
                           nt_tcp := (nt_tcp st1)\<lparr>pl_items := free_items (pl_items (nt_tcp st1))\<rparr>\<rparr>)
               else (0, st1\<lparr>nt_node := (nt_node st1)\<lparr>pl_items := Some (replicate 0x400 zero_node), pl_size := 0x400\<rparr>\<rparr>)))"

text \<open>The do-while over the pool touches its first block even of an empty pool.\<close>

definition stop_tcp_socket :: "net \<Rightarrow> net res" where
  "stop_tcp_socket st =
     (case pl_items (nt_tcp st) of
        None \<Rightarrow> if pl_size (nt_tcp st) \<le> 1 then Inr st else Inl Null_Deref
      | Some xs \<Rightarrow> if length xs < max 1 (unat (pl_size (nt_tcp st))) then Inl Out_Of_Bounds
                  else Inr (st\<lparr>nt_tcp := (nt_tcp st)\<lparr>pl_items := free_items (Some xs)\<rparr>\<rparr>))"

section \<open>Sending\<close>

text \<open>The \<open>iovec\<close>s of the first \<open>siz\<close> nodes.\<close>

definition send_vector :: "node list \<Rightarrow> nat \<Rightarrow> (u8 list \<times> u32) list res" where
  "send_vector ns siz =
     (if length ns < siz then Inl Out_Of_Bounds
      else Inr (map (\<lambda>n. (nd_value n, nd_value_size n)) (take siz ns)))"

datatype errno = EAGAIN | EINTR | Other_Error

text \<open>\<open>tcp_send_to_client\<close>: \<open>ns\<close> is the array, \<open>n_len\<close> the number of nodes the caller means; the last
  argument is what \<open>writev\<close> returns and \<open>errno\<close> after it.\<close>

definition tcp_send_to_client ::
    "bool \<Rightarrow> node list option \<Rightarrow> nat \<Rightarrow> int \<times> errno \<Rightarrow> (int \<times> sys list) res" where
  "tcp_send_to_client tcp ns n_len = (\<lambda>(sent, err).
     (case ns of
        None \<Rightarrow> Inr (EOF, [])
      | Some xs \<Rightarrow>
         if \<not> tcp \<or> n_len = 0 then Inr (EOF, [])
         else if xs = [] then Inl Out_Of_Bounds
         else
           (let fd = nd_fd (hd xs); siz = (if 6 < n_len then 6 else n_len)
            in and_then (send_vector xs siz) (\<lambda>iovs.
                 Inr (if sent = EOF \<and> err \<noteq> EAGAIN \<and> err \<noteq> EINTR then EOF else 0, [Sys_Send fd iovs])))))"

definition udp_send_to_client ::
    "bool \<Rightarrow> node list option \<Rightarrow> nat \<Rightarrow> int \<times> errno \<Rightarrow> (int \<times> sys list) res" where
  "udp_send_to_client udp ns n_len = (\<lambda>(sent, err).
     (case ns of
        None \<Rightarrow> Inr (EOF, [])
      | Some xs \<Rightarrow>
         if \<not> udp \<or> n_len = 0 then Inr (EOF, [])
         else if xs = [] then Inl Out_Of_Bounds
         else
           (let n = hd xs; siz = (if 6 < n_len then 6 else n_len);
                addr = (if nd_family n = EZP_IPV4 then take 4 (nd_ipv4 n) else take 16 (nd_ipv6 n))
            in and_then (send_vector xs siz) (\<lambda>iovs.
                 Inr (if sent < 0 \<and> err \<noteq> EAGAIN \<and> err \<noteq> EINTR then EOF else 0,
                      [Sys_Send_To (nd_fd n) (nd_family n) (nd_port n) addr iovs])))))"

section \<open>Receiving\<close>

text \<open>One turn of \<open>tcp_receiver_thread\<close> up to the receive callback: the value \<open>readv\<close> returns is stored
  in an unsigned field before it is tested. The result says whether the thread goes on.\<close>

definition store_received :: "int \<Rightarrow> u8 list \<Rightarrow> node \<Rightarrow> node" where
  "store_received ret bytes n = n\<lparr>nd_value := store_bytes (nd_value n) bytes, nd_value_size := word_of_int ret\<rparr>"

definition tcp_receiver_turn :: "int \<Rightarrow> u8 list \<Rightarrow> base_cb \<Rightarrow> (bool \<times> base_cb) res" where
  "tcp_receiver_turn ret bytes tn =
     (case get_free_node (Some (cb_recv tn)) (Some 0) of
        (Some pos, Some m, _) \<Rightarrow>
          if cb_node tn = None then Inl Null_Deref
          else
            (let n = store_received ret bytes (rm_nodes m ! unat pos);
                 m' = m\<lparr>rm_nodes := (rm_nodes m)[unat pos := n]\<rparr>
             in Inr (nd_value_size n \<noteq> 0, tn\<lparr>cb_recv := m'\<rparr>))
      | _ \<Rightarrow> Inl Null_Deref)"

text \<open>The loop condition, tested after the receive callback.\<close>

definition tcp_receiver_runs :: "base_cb \<Rightarrow> bool" where
  "tcp_receiver_runs tn \<longleftrightarrow> cb_run tn"

text \<open>The end of the thread: the close callback, then the node is freed.\<close>

definition tcp_receiver_done :: "(cb_ptr \<Rightarrow> net \<Rightarrow> net res) \<Rightarrow> cb_ptr \<Rightarrow> net \<Rightarrow> net res" where
  "tcp_receiver_done on_close p st =
     and_then (deref (read_cb st) (Some p)) (\<lambda>tn.
     and_then (if cb_on_close tn \<noteq> None then on_close p st else Inr st) (\<lambda>st1.
     and_then (deref (read_cb st1) (Some p)) (\<lambda>tn1. Inr (delete_node (cb_node tn1) st1))))"

text \<open>One turn of the UDP \<open>receiver_thread\<close>: what \<open>recvmsg\<close> returned, the sender, and the two clock
  readings in nanoseconds.\<close>

datatype udp_turn = Udp_Again | Udp_Break | Udp_Received

definition udp_receiver_turn ::
    "int \<Rightarrow> u8 list \<Rightarrow> peer \<Rightarrow> u64 option \<Rightarrow> u64 option \<Rightarrow> base_cb \<Rightarrow> udp_turn \<times> base_cb" where
  "udp_receiver_turn ret bytes from mono_ns real_ns node =
     (case get_free_node (Some (cb_recv node)) (Some 0) of
        (Some pos, Some m, _) \<Rightarrow>
          (let node1 = node\<lparr>cb_recv := m\<rparr>
           in if ret \<le> 0 then (if cb_run node \<and> ret = 0 then Udp_Again else Udp_Break, node1)
              else
                (let n0 = rm_nodes m ! unat pos;
                     n1 = store_peer from ((store_received ret bytes n0)
                            \<lparr>nd_fd := nd_fd (cb_node_cfg node), nd_family := nd_family (cb_node_cfg node)\<rparr>);
                     n2 = (case mono_ns of None \<Rightarrow> n1 | Some t \<Rightarrow> n1\<lparr>nd_arrival := t\<rparr>);
                     n3 = (case real_ns of None \<Rightarrow> n2 | Some t \<Rightarrow> n2\<lparr>nd_deadline := t\<rparr>)
                 in (Udp_Received, node\<lparr>cb_recv := m\<lparr>rm_nodes := (rm_nodes m)[unat pos := n3]\<rparr>\<rparr>)))
      | _ \<Rightarrow> (Udp_Again, node))"

section \<open>Accepting and connecting\<close>

text \<open>The part of \<open>accept_thread\<close>'s loop after a connection is there: \<open>client\<close> is what \<open>accept\<close> returns,
  \<open>spawned\<close> what \<open>pthread_create\<close> returns. A registered callback is called last; the result names
  it and its argument.\<close>

type_synonym call = "(callback \<times> cb_ptr) option"

definition callback_call :: "bool \<Rightarrow> callback option \<Rightarrow> cb_ptr \<Rightarrow> call" where
  "callback_call ok cb p = (if ok then map_option (\<lambda>f. (f, p)) cb else None)"

definition accept_one ::
    "(nat \<Rightarrow> node) option \<Rightarrow> (nat \<Rightarrow> base_cb) option \<Rightarrow> int \<Rightarrow> peer \<Rightarrow> int \<Rightarrow> cb_ptr \<Rightarrow> net \<Rightarrow>
     (net \<times> sys list \<times> call) res" where
  "accept_one grown_node grown_tcp client from spawned p st =
     and_then (deref (read_cb st) (Some p)) (\<lambda>node.
     (if client < 0 then Inr (st, [], None)
      else and_then (get_node grown_node st) (\<lambda>(slot, st1).
        (case slot of
           None \<Rightarrow> Inr (st1, [Sys_Close client], None)
         | Some i \<Rightarrow>
            and_then (deref (nth_opt (pool_slots (nt_node st1))) (Some i)) (\<lambda>n0.
            (let n = store_peer from (n0\<lparr>nd_fd := client, nd_family := nd_family (cb_node_cfg node)\<rparr>);
                 st2 = st1\<lparr>nt_node := set_slot i n (nt_node st1)\<rparr>
             in and_then (get_tcp_node grown_tcp st2) (\<lambda>(tslot, st3).
                (case tslot of
                   None \<Rightarrow> Inr (delete_node (Some i) st3, [Sys_Close client], None)
                 | Some j \<Rightarrow>
                    and_then (deref (read_cb st3) (Some (Tcp_Pool j))) (\<lambda>tn.
                    (let tn1 = tn\<lparr>cb_parent := Some p, cb_node := Some i, cb_node_count := cb_node_count tn + 1,
                                  cb_run := True, cb_recv := the (snd (init_node_recv_manager (Some (cb_recv tn)))),
                                  cb_on_receive := cb_on_receive node\<rparr>
                     in Inr (write_cb (Tcp_Pool j) tn1 st3, [],
                             callback_call (spawned = 0) (cb_on_accept node) (Tcp_Pool j))))))))))))"

text \<open>One turn of the loop of \<open>accept_thread\<close>: what \<open>select\<close> returns and whether the descriptor is set come
  first. The first component says whether the turn was taken.\<close>

definition accept_thread_turn ::
    "(nat \<Rightarrow> node) option \<Rightarrow> (nat \<Rightarrow> base_cb) option \<Rightarrow> int \<Rightarrow> bool \<Rightarrow> int \<Rightarrow> peer \<Rightarrow> int \<Rightarrow> cb_ptr \<Rightarrow> net \<Rightarrow>
     (bool \<times> net \<times> sys list \<times> call) res" where
  "accept_thread_turn grown_node grown_tcp selected isset client from spawned p st =
     and_then (deref (read_cb st) (Some p)) (\<lambda>node.
       if \<not> cb_run node then Inr (False, st, [], None)
       else if selected \<le> 0 \<or> \<not> isset then Inr (True, st, [], None)
       else and_then (accept_one grown_node grown_tcp client from spawned p st) (\<lambda>r. Inr (True, r)))"

definition address_bytes :: "node \<Rightarrow> u8 list" where
  "address_bytes n = (if nd_family n = EZP_IPV4 then nd_ipv4 n else nd_ipv6 n)"

text \<open>\<open>connect_tcp_server\<close>: the results of \<open>socket\<close> and \<open>connect\<close>, the local address if \<open>getsockname\<close>
  succeeds, and the result of \<open>pthread_create\<close>. \<open>connect\<close> is always given the \<open>ipv4\<close> field.\<close>

definition connect_bytes :: "node \<Rightarrow> u8 list" where
  "connect_bytes cfg = (if nd_family cfg = EZP_IPV4 then nd_ipv4 cfg else take 28 (nd_ipv4 cfg @ nd_value cfg))"

definition connect_tcp_server ::
    "(nat \<Rightarrow> node) option \<Rightarrow> (nat \<Rightarrow> base_cb) option \<Rightarrow> int \<Rightarrow> int \<Rightarrow> peer option \<Rightarrow> int \<Rightarrow>
     cb_ptr option \<Rightarrow> net \<Rightarrow> (int \<times> net \<times> sys list \<times> call) res" where
  "connect_tcp_server grown_node grown_tcp sock connected own spawned p st =
     (case p of
        None \<Rightarrow> Inr (EOF, st, [], None)
      | Some q \<Rightarrow>
         and_then (deref (read_cb st) (Some q)) (\<lambda>node0.
         (let node = node0\<lparr>cb_node_cfg := (cb_node_cfg node0)\<lparr>nd_fd := sock\<rparr>\<rparr>;
              st0 = write_cb q node st;
              call = Sys_Connect sock (connect_bytes (cb_node_cfg node))
          in if sock = EOF then Inr (EOF, st0, [], None)
             else if connected \<noteq> 0 then Inr (EOF, st0, [call, Sys_Close sock], None)
             else and_then (get_node grown_node st0) (\<lambda>(slot, st1).
               (case slot of
                  None \<Rightarrow> Inr (EOF, st1, [call, Sys_Close sock], None)
                | Some i \<Rightarrow>
                   and_then (deref (nth_opt (pool_slots (nt_node st1))) (Some i)) (\<lambda>n0.
                   (let n1 = n0\<lparr>nd_fd := sock, nd_family := nd_family (cb_node_cfg node)\<rparr>;
                        n = (case own of None \<Rightarrow> n1 | Some a \<Rightarrow> store_peer a n1);
                        st2 = st1\<lparr>nt_node := set_slot i n (nt_node st1)\<rparr>
                    in and_then (get_tcp_node grown_tcp st2) (\<lambda>(tslot, st3).
                       (case tslot of
                          None \<Rightarrow> Inr (EOF, delete_node (Some i) st3, [call, Sys_Close sock], None)
                        | Some j \<Rightarrow>
                           and_then (deref (read_cb st3) (Some (Tcp_Pool j))) (\<lambda>tn.
                           (let tn1 = tn\<lparr>cb_node := Some i, cb_linked := cb_linked node,
                                         cb_node_count := cb_node_count tn + 1, cb_run := True,
                                         cb_recv := the (snd (init_node_recv_manager (Some (cb_recv tn)))),
                                         cb_on_receive := cb_on_receive node\<rparr>
                            in Inr (0, write_cb (Tcp_Pool j) tn1 st3, [call],
                                    callback_call (spawned = 0) (cb_on_connect node) (Tcp_Pool j)))))))))))))"

text \<open>\<open>start_tcp_service\<close>, with the results of \<open>socket\<close>, \<open>fcntl\<close>, \<open>setsockopt\<close>, \<open>bind\<close>, \<open>listen\<close> and
  \<open>pthread_create\<close>. A null argument falls through to the labels, which close an unset descriptor; a
  failed thread reads the node of a service, which it does not have.\<close>

definition start_tcp_service ::
    "int \<Rightarrow> int \<Rightarrow> int \<Rightarrow> int \<Rightarrow> int \<Rightarrow> int \<Rightarrow> cb_ptr option \<Rightarrow> net \<Rightarrow> (int \<times> net \<times> sys list) res" where
  "start_tcp_service sock nonblock reuse bound listening spawned p st =
     (case p of
        None \<Rightarrow> Inl Indeterminate
      | Some q \<Rightarrow>
         and_then (deref (read_cb st) (Some q)) (\<lambda>node0.
         (let cfg = (cb_node_cfg node0)\<lparr>nd_fd := sock\<rparr>;
              node = node0\<lparr>cb_node_cfg := cfg\<rparr>;
              st1 = write_cb q node st;
              binds = (if nd_family cfg = EZP_IPV4 \<or> nd_family cfg = EZP_IPV6 then [Sys_Bind sock (address_bytes cfg)] else [])
          in if sock = EOF then Inr (EOF, st1, [])
             else if nonblock \<noteq> 0 \<or> reuse \<noteq> 0 then Inr (EOF, st1, [Sys_Close sock])
             else if binds \<noteq> [] \<and> bound \<noteq> 0 then Inr (EOF, st1, binds @ [Sys_Close sock])
             else if listening \<noteq> 0 then Inr (EOF, st1, binds @ [Sys_Listen sock 64, Sys_Close sock])
             else
               (let st2 = write_cb q (node\<lparr>cb_run := True\<rparr>) st1
                in if spawned \<noteq> 0 then
                     and_then (deref (nth_opt (pool_slots (nt_node st2))) (cb_node node))
                       (\<lambda>n. Inr (EOF, st2, binds @ [Sys_Listen sock 64, Sys_Close (nd_fd n)]))
                   else Inr (0, st2, binds @ [Sys_Listen sock 64])))))"

definition disconnect_tcp_server :: "cb_ptr option \<Rightarrow> net \<Rightarrow> net" where
  "disconnect_tcp_server p st = (case p of None \<Rightarrow> st | Some q \<Rightarrow> write_cb q zero_cb st)"

section \<open>UDP service\<close>

definition udp_server_is_active :: "net \<Rightarrow> bool" where
  "udp_server_is_active st \<longleftrightarrow> pl_items (nt_udp st) \<noteq> None"

definition start_udp_service :: "int \<Rightarrow> int \<Rightarrow> int \<Rightarrow> cb_ptr option \<Rightarrow> net \<Rightarrow> (int \<times> net \<times> sys list) res" where
  "start_udp_service sock bound spawned p st =
     (case p of
        None \<Rightarrow> Inr (EOF, st, [])
      | Some q \<Rightarrow>
         and_then (deref (read_cb st) (Some q)) (\<lambda>node0.
         (let cfg = (cb_node_cfg node0)\<lparr>nd_fd := sock\<rparr>;
              st1 = write_cb q (node0\<lparr>cb_run := True, cb_node_cfg := cfg\<rparr>) st;
              binds = (if nd_family cfg = EZP_IPV4 \<or> nd_family cfg = EZP_IPV6 then [Sys_Bind sock (address_bytes cfg)] else [])
          in if sock = EOF then Inr (EOF, st1, [])
             else if binds \<noteq> [] \<and> bound \<noteq> 0 then Inr (EOF, st1, binds @ [Sys_Close sock])
             else Inr (spawned, st1, binds))))"

definition disconnect_udp_service :: "cb_ptr option \<Rightarrow> net \<Rightarrow> net" where
  "disconnect_udp_service p st = (case p of None \<Rightarrow> st | Some q \<Rightarrow> write_cb q zero_cb st)"

definition connect_udp_server :: "bool \<Rightarrow> net \<Rightarrow> int \<times> net" where
  "connect_udp_server allocated st =
     (if udp_server_is_active st then (EOF, st)
      else if \<not> allocated then (EOF, st)
      else (0, st\<lparr>nt_udp := (nt_udp st)\<lparr>pl_items := Some (replicate 0x400 zero_cb), pl_size := 0x400\<rparr>\<rparr>))"

definition disconnect_udp_server :: "net \<Rightarrow> net res" where
  "disconnect_udp_server st =
     (case pl_items (nt_udp st) of
        None \<Rightarrow> if pl_size (nt_udp st) \<le> 1 then Inr st else Inl Null_Deref
      | Some xs \<Rightarrow> if length xs < max 1 (unat (pl_size (nt_udp st))) then Inl Out_Of_Bounds
                  else Inr (st\<lparr>nt_udp := (nt_udp st)\<lparr>pl_items := free_items (Some xs)\<rparr>\<rparr>))"

definition start_udp_socket :: "net \<Rightarrow> int \<times> net" where
  "start_udp_socket st = (0, st)"

section \<open>The allocators\<close>

interpretation node_alloc: slot_allocator "\<lambda>n. nd_fd n = 0" "\<lambda>st. pool_slots (nt_node st)" "get_node grown"
    "\<lambda>st. wf_pool (nt_node st)" for grown
proof
  fix st :: net
  assume wf: "wf_pool (nt_node st)" and ex: "\<exists>x \<in> set (pool_slots (nt_node st)). nd_fd x = 0"
  obtain i where "pool_get (\<lambda>n. nd_fd n = 0) (unat (pl_size (nt_node st))) grown (nt_node st) = Inr (Some i, nt_node st)"
    "i < length (pool_slots (nt_node st))" "nd_fd (pool_slots (nt_node st) ! i) = 0"
    "\<forall>j < i. nd_fd (pool_slots (nt_node st) ! j) \<noteq> 0"
    using pool_get_free [OF wf ex, of grown] by blast
  then show "\<exists>i. get_node grown st = Inr (Some i, st) \<and> i < length (pool_slots (nt_node st)) \<and>
      nd_fd (pool_slots (nt_node st) ! i) = 0 \<and> (\<forall>j < i. nd_fd (pool_slots (nt_node st) ! j) \<noteq> 0)"
    by (intro exI [of _ i]) (simp add: get_node_def)
qed

interpretation tcp_alloc: slot_allocator "\<lambda>c. \<not> cb_run c" "\<lambda>st. pool_slots (nt_tcp st)" "get_tcp_node grown"
    "\<lambda>st. wf_pool (nt_tcp st)" for grown
proof
  fix st :: net
  assume wf: "wf_pool (nt_tcp st)" and ex: "\<exists>x \<in> set (pool_slots (nt_tcp st)). \<not> cb_run x"
  obtain i where "pool_get (\<lambda>c. \<not> cb_run c) (unat (pl_size (nt_tcp st))) grown (nt_tcp st) = Inr (Some i, nt_tcp st)"
    "i < length (pool_slots (nt_tcp st))" "\<not> cb_run (pool_slots (nt_tcp st) ! i)"
    "\<forall>j < i. \<not> \<not> cb_run (pool_slots (nt_tcp st) ! j)"
    using pool_get_free [OF wf ex, of grown] by blast
  then show "\<exists>i. get_tcp_node grown st = Inr (Some i, st) \<and> i < length (pool_slots (nt_tcp st)) \<and>
      \<not> cb_run (pool_slots (nt_tcp st) ! i) \<and> (\<forall>j < i. \<not> \<not> cb_run (pool_slots (nt_tcp st) ! j))"
    by (intro exI [of _ i]) (simp add: get_tcp_node_def)
qed

lemma send_vector_six:
  "n \<le> length xs \<Longrightarrow> send_vector xs (if 6 < n then 6 else n) = Inr (map (\<lambda>n. (nd_value n, nd_value_size n)) (take (min 6 n) xs))"
  by (simp add: send_vector_def min_def)

section \<open>Properties\<close>

text \<open>C39: \<open>get_node\<close>, the pool allocator of accepted connections, with as many slots as its size says. A
  free slot is found, the first one, and nothing changes. A pool with no free slot but a count below
  its size, which is every pool the first time it is full, hands out a slot that is in use. Only when
  the count has reached the size is the pool doubled, and the slot is then a new one.\<close>

theorem node_pool_allocation:
  assumes "wf_pool (nt_node st)"
  defines "xs \<equiv> pool_slots (nt_node st)" and "k \<equiv> unat (pl_count (nt_node st))"
  shows "(\<exists>i < length xs. nd_fd (xs ! i) = 0 \<and> (\<forall>j < i. nd_fd (xs ! j) \<noteq> 0) \<and> get_node grown st = Inr (Some i, st)) \<or>
     (\<forall>n \<in> set xs. nd_fd n \<noteq> 0) \<and>
       (if k < length xs then nd_fd (xs ! k) \<noteq> 0 \<and>
          get_node grown st = Inr (Some k, st\<lparr>nt_node := (nt_node st)\<lparr>pl_count := pl_count (nt_node st) + 1\<rparr>\<rparr>)
        else \<exists>st'. get_node grown st = Inr (if grown = None then None else Some k, st') \<and>
               pl_size (nt_node st') = 2 * pl_size (nt_node st) \<and>
               (\<forall>junk. grown = Some junk \<longrightarrow> pl_items (nt_node st') =
                  Some (take (unat (2 * pl_size (nt_node st))) xs @ map junk [length xs..<unat (2 * pl_size (nt_node st))])))"
proof (cases "\<exists>n \<in> set xs. nd_fd n = 0")
  case True
  then show ?thesis using node_alloc.alloc_free [OF assms(1), of grown] by (auto simp: xs_def)
next
  case False
  have len: "length xs = unat (pl_size (nt_node st))" using assms(1) by (simp add: wf_pool_def xs_def)
  have busy: "\<forall>n \<in> set (pool_slots (nt_node st)). \<not> nd_fd n = 0" using False by (simp add: xs_def)
  show ?thesis
  proof (cases "k < length xs")
    case True
    then have "pl_count (nt_node st) < pl_size (nt_node st)" using len by (simp add: k_def word_less_nat_alt)
    then show ?thesis using pool_get_busy_slot [OF assms(1) busy, of grown] True False
      by (simp add: get_node_def k_def xs_def)
  next
    case full: False
    then have "pl_size (nt_node st) \<le> pl_count (nt_node st)" using len by (simp add: k_def word_le_nat_alt not_less)
    then show ?thesis using pool_get_none [OF assms(1) busy, of grown] False full
      by (cases "pl_items (nt_node st)"; cases grown)
        (auto simp: get_node_def k_def xs_def realloc_items_def pool_slots_def Let_def mult.commute)
  qed
qed

definition busy_net :: net where
  "busy_net = \<lparr>nt_node = \<lparr>pl_items = Some [zero_node\<lparr>nd_fd := 5\<rparr>, zero_node\<lparr>nd_fd := 6\<rparr>], pl_size = 2, pl_count = 0\<rparr>,
     nt_tcp = zero_pool, nt_cap = zero_pool, nt_udp = zero_pool, nt_tab = (\<lambda>_. zero_session)\<rparr>"

theorem node_pool_allocation_witness:
  "\<exists>st. get_node None busy_net = Inr (Some 0, st) \<and> nd_fd (pool_slots (nt_node busy_net) ! 0) \<noteq> 0"
  using node_pool_allocation [of busy_net None] by (auto simp: busy_net_def wf_pool_def pool_slots_def less_Suc_eq)

text \<open>Sending hands exactly one system call the first six nodes, or all when there are fewer, each with
  its value and its size, and for UDP the address of the first node; the result says nothing about
  how many bytes went out, and nodes from the seventh on are not sent.\<close>

lemma send_six:
  assumes "xs \<noteq> []" and "0 < n" and "n \<le> length xs"
  shows "tcp_send_to_client True (Some xs) n (sent, err) =
       Inr (if sent = EOF \<and> err \<noteq> EAGAIN \<and> err \<noteq> EINTR then EOF else 0,
            [Sys_Send (nd_fd (xs ! 0)) (map (\<lambda>n. (nd_value n, nd_value_size n)) (take (min 6 n) xs))]) \<and>
     udp_send_to_client True (Some xs) n (sent, err) =
       Inr (if sent < 0 \<and> err \<noteq> EAGAIN \<and> err \<noteq> EINTR then EOF else 0,
            [Sys_Send_To (nd_fd (xs ! 0)) (nd_family (xs ! 0)) (nd_port (xs ! 0))
               (if nd_family (xs ! 0) = EZP_IPV4 then take 4 (nd_ipv4 (xs ! 0)) else take 16 (nd_ipv6 (xs ! 0)))
               (map (\<lambda>n. (nd_value n, nd_value_size n)) (take (min 6 n) xs))])"
  using assms send_vector_six [OF assms(3)]
  by (simp add: tcp_send_to_client_def udp_send_to_client_def Let_def hd_conv_nth)

text \<open>A turn of the TCP receiver takes the next free slot and stores the bytes and the result of
  \<open>readv\<close> in it. The thread ends only on the result 0: the result -1 of a failed read becomes the
  size 4294967295, the error branch is dead, and the broken node is delivered like data.\<close>

lemma tcp_error_is_delivered:
  assumes "wf_recv (cb_recv tn)" and "\<not> slot_busy (cb_recv tn) (rm_next_free (cb_recv tn))" and "cb_node tn = Some a"
    and "-1 \<le> ret" and "ret \<le> int VALUE_BUFFER_SIZE"
  defines "pos \<equiv> unat (rm_next_free (cb_recv tn))"
  shows "\<exists>tn'. tcp_receiver_turn ret bytes tn = Inr (ret \<noteq> 0, tn') \<and>
     rm_nodes (cb_recv tn') ! pos = store_received ret bytes (rm_nodes (cb_recv tn) ! pos) \<and>
     slot_busy (cb_recv tn') (rm_next_free (cb_recv tn)) \<and>
     (ret = -1 \<longrightarrow> nd_value_size (rm_nodes (cb_recv tn') ! pos) = 0xFFFFFFFF)"
proof -
  let ?m = "cb_recv tn" and ?i = "rm_next_free (cb_recv tn)"
  have "ring_scan (\<lambda>i. \<not> slot_busy ?m i) ?i ?i = Some ?i"
    using ring_scan_first [of "\<lambda>i. \<not> slot_busy ?m i" ?i 0] assms(2) by simp
  then have get: "get_free_node (Some ?m) (Some 0) = (Some ?i, Some ((set_status ?i 1 ?m)\<lparr>rm_next_free := ?i + 1\<rparr>), Some ?i)"
    by (simp add: get_free_node_def)
  have "(word_of_int ret :: u32) = 0 \<longleftrightarrow> ret = 0"
  proof
    assume "(word_of_int ret :: u32) = 0"
    then have "(word_of_int ret :: u32) = word_of_int 0" by simp
    then have "take_bit 32 ret = 0" by (simp only: word_of_int_eq_iff) simp
    then show "ret = 0" using assms(4,5) by (cases "ret = -1") (auto simp: take_bit_int_eq_self VALUE_BUFFER_SIZE_def DEFAULT_MTU_def MAX_HEADER_OVERHEAD_def)
  qed simp
  moreover have "pos < length (rm_nodes ?m)" using assms(1) by (simp add: wf_recv_def pos_def)
  ultimately show ?thesis using assms(1,3)
    by (auto simp: tcp_receiver_turn_def get Let_def store_received_def pos_def slot_busy_set_status)
qed

end
