(* ===== verification/Orbit_Socket.thy ===== *)
theory Orbit_Socket
  imports Orbit_Net Orbit_Circle Orbit_Text
begin

text \<open>
  The socket layer of \<^verbatim>\<open>src/socket/dmmr_socket.c\<close> and \<open>dns2ipaddr\<close> of \<^verbatim>\<open>src/include/funcs.h\<close>: the
  pool of receive entries that feed the ring, the pool of protocol blocks, the receive callback, the
  dispatcher, and the two functions that open a service or a connection from a URI.

  A pointer to a received node is the block of its receive manager and its slot. What the system
  answers while one function runs is one record, \<open>answers\<close>; the host resolver is a function from
  the host text to the list of family and address bytes that \<open>getaddrinfo\<close> returns.
\<close>

section \<open>State\<close>

type_synonym node_ptr = "cb_ptr \<times> u8"

record socket_layer =
  sk_net :: net
  sk_nbuff :: "node_ptr option pool"
  sk_this :: bool
  sk_circle :: "circle option"

definition node_at :: "net \<Rightarrow> node_ptr \<Rightarrow> node option" where
  "node_at st = (\<lambda>(p, i). case read_cb st p of None \<Rightarrow> None | Some c \<Rightarrow> nth_opt (rm_nodes (cb_recv c)) (unat i))"

section \<open>The pools\<close>

text \<open>The scan of \<open>get_struct_node_buffer\<close>: the test of a slot reads the node the slot points to.\<close>

fun scan_entries :: "(node_ptr \<Rightarrow> node option) \<Rightarrow> nat \<Rightarrow> nat \<Rightarrow> node_ptr option list \<Rightarrow> nat option res" where
  "scan_entries store 0 i xs = Inr None"
| "scan_entries store (Suc n) i [] = Inl Out_Of_Bounds"
| "scan_entries store (Suc n) i (x # xs) =
     and_then (deref store x) (\<lambda>nd. if nd_fd nd = 0 then Inr (Some i) else scan_entries store n (Suc i) xs)"

definition get_struct_node_buffer ::
    "(nat \<Rightarrow> node_ptr option) option \<Rightarrow> socket_layer \<Rightarrow> (nat option \<times> socket_layer) res" where
  "get_struct_node_buffer grown st =
     and_then (scan_entries (node_at (sk_net st)) (unat (pl_size (sk_nbuff st))) 0 (pool_slots (sk_nbuff st)))
       (\<lambda>found. case pool_take found grown (sk_nbuff st) of (slot, p) \<Rightarrow> Inr (slot, st\<lparr>sk_nbuff := p\<rparr>))"

definition delete_struct_node_buffer :: "nat option \<Rightarrow> socket_layer \<Rightarrow> socket_layer" where
  "delete_struct_node_buffer p st =
     (case p of None \<Rightarrow> st | Some i \<Rightarrow> st\<lparr>sk_nbuff := set_slot i None (sk_nbuff st)\<rparr>)"

definition get_union_protocol_base_cb :: "(nat \<Rightarrow> base_cb) option \<Rightarrow> net \<Rightarrow> (cb_ptr option \<times> net) res" where
  "get_union_protocol_base_cb grown st =
     and_then (pool_get (\<lambda>c. cb_proto c = proto_none_t) (unat (pl_size (nt_cap st))) grown (nt_cap st))
       (\<lambda>(slot, p). Inr (map_option Cap slot, st\<lparr>nt_cap := p\<rparr>))"

definition delete_union_protocol_base_cb :: "cb_ptr option \<Rightarrow> net \<Rightarrow> net" where
  "delete_union_protocol_base_cb u st = (case u of None \<Rightarrow> st | Some p \<Rightarrow> write_cb p zero_cb st)"

section \<open>The receive callback\<close>

text \<open>\<open>get_buzy_node\<close> takes the manager's mutex; \<open>held\<close> says whether the calling thread has it already,
  in which case a default mutex blocks for ever.\<close>

definition locked_get_buzy_node ::
    "bool \<Rightarrow> node_recv_manager \<Rightarrow> u8 \<Rightarrow> (u8 option \<times> node_recv_manager \<times> u8) res" where
  "locked_get_buzy_node held m pos =
     (if held then Inl Self_Deadlock
      else case get_buzy_node (Some m) (Some pos) of (slot, m', pos') \<Rightarrow> Inr (slot, the m', the pos'))"

text \<open>One turn of the loop of \<open>on_receive_connection_cb\<close>; the first component says whether it goes on.\<close>

definition receive_turn ::
    "bool \<Rightarrow> (nat \<Rightarrow> node_ptr option) option \<Rightarrow> cb_ptr \<Rightarrow> u8 \<Rightarrow> socket_layer \<Rightarrow> (bool \<times> u8 \<times> socket_layer) res" where
  "receive_turn held grown p pos st =
     and_then (get_struct_node_buffer grown st) (\<lambda>(nb, st1).
       (case nb of
          None \<Rightarrow> Inr (False, pos, st1)
        | Some e \<Rightarrow>
           and_then (deref (read_cb (sk_net st1)) (Some p)) (\<lambda>c.
           and_then (locked_get_buzy_node held (cb_recv c) pos) (\<lambda>(slot, m, pos').
             (let st2 = st1\<lparr>sk_net := write_cb p (c\<lparr>cb_recv := m\<rparr>) (sk_net st1)\<rparr>
              in case slot of
                   None \<Rightarrow> Inr (False, pos', st2)
                 | Some i \<Rightarrow>
                    if length (pool_slots (sk_nbuff st2)) \<le> e then Inl Out_Of_Bounds
                    else Inr (True, pos',
                           st2\<lparr>sk_nbuff := set_slot e (Some (p, i)) (sk_nbuff st2),
                               sk_circle := map_option (\<lambda>cb. cb\<lparr>ci_fifo := ci_fifo cb @ [e]\<rparr>) (sk_circle st2)\<rparr>))))))"

partial_function (option) receive_loop ::
    "bool \<Rightarrow> (nat \<Rightarrow> node_ptr option) option \<Rightarrow> cb_ptr \<Rightarrow> u8 \<Rightarrow> socket_layer \<Rightarrow> socket_layer res option" where
  "receive_loop held grown p pos st =
     (case receive_turn held grown p pos st of
        Inl f \<Rightarrow> Some (Inl f)
      | Inr (go, pos', st') \<Rightarrow> if go then receive_loop held grown p pos' st' else Some (Inr st'))"

text \<open>\<open>on_receive_connection_cb\<close> holds the manager's mutex and the ring's lock around the loop.\<close>

definition on_receive_connection_cb ::
    "(nat \<Rightarrow> node_ptr option) option \<Rightarrow> cb_ptr option \<Rightarrow> socket_layer \<Rightarrow> socket_layer res option" where
  "on_receive_connection_cb grown nrm st =
     (case nrm of
        None \<Rightarrow> Some (Inr st)
      | Some p \<Rightarrow> if sk_circle st = None then Some (Inl Null_Deref) else receive_loop True grown p 0 st)"

section \<open>Dispatching\<close>

definition dispatcher ::
    "base_cb option \<Rightarrow> node list option \<Rightarrow> nat \<Rightarrow> int \<times> errno \<Rightarrow> sys list res" where
  "dispatcher u n nl answer =
     (case u of
        None \<Rightarrow> Inr []
      | Some c \<Rightarrow>
         if n = None \<or> nl = 0 then Inr []
         else (case cb_proto c of
                 proto_udp_t \<Rightarrow> and_then (udp_send_to_client True n nl answer) (\<lambda>(_, calls). Inr calls)
               | proto_tcp_t \<Rightarrow> and_then (tcp_send_to_client True n nl answer) (\<lambda>(_, calls). Inr calls)
               | proto_none_t \<Rightarrow> Inr []))"

section \<open>Addresses\<close>

text \<open>The loop of \<open>dns2ipaddr\<close> over the resolver's list: the first IPv4 (family 2) or IPv6 (family 10)
  address; the bytes go to the caller's buffer.\<close>

type_synonym resolver = "string \<Rightarrow> (int \<times> u8 list) list option"

fun first_address :: "(int \<times> u8 list) list \<Rightarrow> ezp_addr_type \<times> u8 list" where
  "first_address [] = (EZP_INVALID, [])"
| "first_address ((family, addr) # rest) =
     (if family = 2 then (EZP_IPV4, take 16 addr)
      else if family = 10 then (EZP_IPV6, take 28 addr)
      else first_address rest)"

definition dns2ipaddr :: "resolver \<Rightarrow> string \<Rightarrow> ezp_addr_type \<times> u8 list" where
  "dns2ipaddr resolve host =
     (case resolve host of None \<Rightarrow> (EZP_INVALID, []) | Some res \<Rightarrow> first_address res)"

section \<open>Opening connections and services\<close>

record answers =
  an_resolve :: resolver
  an_cap :: "(nat \<Rightarrow> base_cb) option"
  an_node :: "(nat \<Rightarrow> node) option"
  an_tcp :: "(nat \<Rightarrow> base_cb) option"
  an_socket :: int
  an_connect :: int
  an_own :: "peer option"
  an_nonblock :: int
  an_reuse :: int
  an_bind :: int
  an_listen :: int
  an_spawn :: int
  an_udp_alloc :: bool

record callbacks =
  ck_accept_udp :: "callback option"
  ck_accept_tcp :: "callback option"
  ck_connect_udp :: "callback option"
  ck_connect_tcp :: "callback option"
  ck_close_udp :: "callback option"
  ck_close_tcp :: "callback option"

text \<open>What an opening function gives: its value (\<open>None\<close> when it falls off its end), the state, the system
  calls, and the callback it ends with.\<close>

type_synonym opened = "int option \<times> net \<times> sys list \<times> call"

definition start_dispatcher_udp :: "answers \<Rightarrow> net \<Rightarrow> opened" where
  "start_dispatcher_udp an st =
     (if udp_server_is_active st then (None, st, [], None)
      else (None, snd (connect_udp_server (an_udp_alloc an) st), [], None))"

text \<open>The assignments both opening functions make to a fresh block.\<close>

definition set_address :: "ezp_addr_type \<Rightarrow> u8 list \<Rightarrow> base_cb \<Rightarrow> base_cb" where
  "set_address type buf c =
     (case type of
        EZP_IPV4 \<Rightarrow> c\<lparr>cb_node_cfg := (cb_node_cfg c)\<lparr>nd_ipv4 := buf\<rparr>\<rparr>
      | EZP_IPV6 \<Rightarrow> c\<lparr>cb_node_cfg := (cb_node_cfg c)\<lparr>nd_ipv6 := buf\<rparr>\<rparr>
      | _ \<Rightarrow> c)"

definition set_block ::
    "proto_t \<Rightarrow> u16 \<Rightarrow> ezp_addr_type \<Rightarrow> callback option \<Rightarrow> callback option \<Rightarrow> callback option \<Rightarrow> base_cb \<Rightarrow> base_cb" where
  "set_block proto port type acc conn clos c =
     c\<lparr>cb_proto := proto, cb_node_cfg := (cb_node_cfg c)\<lparr>nd_port := port, nd_family := type\<rparr>,
       cb_on_accept := acc, cb_on_connect := conn, cb_on_receive := Some on_receive_connection, cb_on_close := clos\<rparr>"

definition start_dispatcher_tcp :: "answers \<Rightarrow> string \<Rightarrow> u16 \<Rightarrow> callbacks \<Rightarrow> net \<Rightarrow> opened res" where
  "start_dispatcher_tcp an ip port cbs st =
     and_then (get_union_protocol_base_cb (an_cap an) st) (\<lambda>(cb, st1).
       (case cb of
          None \<Rightarrow> Inr (None, st1, [], None)
        | Some p \<Rightarrow>
           and_then (deref (read_cb st1) (Some p)) (\<lambda>c.
             (case dns2ipaddr (an_resolve an) ip of (type, buf) \<Rightarrow>
                let c1 = set_block proto_tcp_t port type (ck_accept_tcp cbs) (ck_connect_tcp cbs) (ck_close_tcp cbs)
                           (set_address type buf c)
                in and_then (connect_tcp_server (an_node an) (an_tcp an) (an_socket an) (an_connect an) (an_own an)
                               (an_spawn an) (Some p) (write_cb p c1 st1))
                     (\<lambda>(ret, st2, calls, call). Inr (Some (if ret \<noteq> 0 then EOF else 0), st2, calls, call))))))"

definition create_dispatcher_from_uri :: "answers \<Rightarrow> string option \<Rightarrow> callbacks \<Rightarrow> net \<Rightarrow> opened res" where
  "create_dispatcher_from_uri an uri cbs st =
     (case uri of
        None \<Rightarrow> Inr (Some EOF, st, [], None)
      | Some _ \<Rightarrow>
         (case parse_protocol_host_port uri (Some (replicate 0x100 NUL)) 0x100 (Some 0) of
            (proto_udp_t, _, _) \<Rightarrow> Inr (start_dispatcher_udp an st)
          | (proto_tcp_t, host, port) \<Rightarrow> start_dispatcher_tcp an (cstring (the host)) (the port) cbs st
          | (proto_none_t, _, _) \<Rightarrow> Inr (Some EOF, st, [], None)))"

definition start_acception :: "answers \<Rightarrow> proto_t \<Rightarrow> u16 \<Rightarrow> string \<Rightarrow> callbacks \<Rightarrow> net \<Rightarrow> opened res" where
  "start_acception an proto port ip cbs st =
     (if proto = proto_none_t then Inr (Some EOF, st, [], None)
      else
        and_then (get_union_protocol_base_cb (an_cap an) st) (\<lambda>(cb, st1).
          (case cb of
             None \<Rightarrow> Inr (Some EOF, st1, [], None)
           | Some p \<Rightarrow>
              and_then (deref (read_cb st1) (Some p)) (\<lambda>c.
                (case dns2ipaddr (an_resolve an) ip of (type, buf) \<Rightarrow>
                   if type \<noteq> EZP_IPV4 \<and> type \<noteq> EZP_IPV6 then Inr (Some EOF, st1, [], None)
                   else if proto = proto_udp_t then
                     (let c1 = set_block proto_udp_t port type (ck_accept_udp cbs) (ck_connect_udp cbs)
                                 (ck_close_udp cbs) (set_address type buf c)
                      in and_then (start_udp_service (an_socket an) (an_bind an) (an_spawn an) (Some p) (write_cb p c1 st1))
                           (\<lambda>(ret, st2, calls). Inr (Some ret, st2, calls, None)))
                   else
                     (let c1 = set_block proto_tcp_t port type (ck_accept_tcp cbs) (ck_connect_tcp cbs)
                                 (ck_close_tcp cbs) (set_address type buf c)
                      in and_then (start_tcp_service (an_socket an) (an_nonblock an) (an_reuse an) (an_bind an)
                                     (an_listen an) (an_spawn an) (Some p) (write_cb p c1 st1))
                           (\<lambda>(ret, st2, calls). Inr (Some ret, st2, calls, None))))))))"

definition start_accept_from_uri :: "answers \<Rightarrow> string option \<Rightarrow> callbacks \<Rightarrow> net \<Rightarrow> opened res" where
  "start_accept_from_uri an uri cbs st =
     (case uri of
        None \<Rightarrow> Inr (Some EOF, st, [], None)
      | Some _ \<Rightarrow>
         (case parse_protocol_host_port uri (Some (replicate 0x100 NUL)) 0x100 (Some 0) of (proto, host, port) \<Rightarrow>
            if proto \<noteq> proto_none_t then start_acception an proto (the port) (cstring (the host)) cbs st
            else Inr (Some EOF, st, [], None)))"

section \<open>Construction\<close>

definition delete_dmmr_socket :: "socket_layer \<Rightarrow> socket_layer" where
  "delete_dmmr_socket st =
     st\<lparr>sk_net := (sk_net st)\<lparr>nt_cap := (nt_cap (sk_net st))\<lparr>pl_items := free_items (pl_items (nt_cap (sk_net st)))\<rparr>\<rparr>\<rparr>"

text \<open>\<open>delete_dmmr_socket\<close> frees the protocol blocks and the object; the variables keep their values.
  Construction makes three allocations in order; a failure frees only the object.\<close>

definition new_dmmr_socket :: "bool \<Rightarrow> bool \<Rightarrow> bool \<Rightarrow> circle option \<Rightarrow> socket_layer \<Rightarrow> bool \<times> socket_layer" where
  "new_dmmr_socket obj_ok cap_ok nbuff_ok cb st =
     (if sk_this st \<or> \<not> obj_ok then (False, st)
      else if \<not> cap_ok then
        (False, st\<lparr>sk_net := (sk_net st)\<lparr>nt_cap := (nt_cap (sk_net st))\<lparr>pl_items := None\<rparr>\<rparr>\<rparr>)
      else
        (let st1 = st\<lparr>sk_net := (sk_net st)\<lparr>nt_cap := (nt_cap (sk_net st))
                       \<lparr>pl_items := Some (replicate 0x400 zero_cb), pl_size := 0x400\<rparr>\<rparr>\<rparr>
         in if \<not> nbuff_ok then (False, st1\<lparr>sk_nbuff := (sk_nbuff st1)\<lparr>pl_items := None\<rparr>\<rparr>)
            else (True, st1\<lparr>sk_nbuff := (sk_nbuff st1)\<lparr>pl_items := Some (replicate 0x400 None), pl_size := 0x400\<rparr>,
                            sk_circle := cb, sk_this := True\<rparr>)))"

section \<open>Properties\<close>

text \<open>The variables of the socket files before anything runs, and the layer \<open>new_dmmr_socket\<close> leaves.\<close>

definition zero_net :: net where
  "zero_net = \<lparr>nt_node = zero_pool, nt_tcp = zero_pool, nt_cap = zero_pool, nt_udp = zero_pool, nt_tab = (\<lambda>_. zero_session)\<rparr>"

definition zero_layer :: socket_layer where
  "zero_layer = \<lparr>sk_net = zero_net, sk_nbuff = zero_pool, sk_this = False, sk_circle = None\<rparr>"

definition fresh_layer :: "circle \<Rightarrow> socket_layer" where
  "fresh_layer cb = snd (new_dmmr_socket True True True (Some cb) zero_layer)"

lemma fresh_layer_fields:
  "sk_net (fresh_layer cb) = zero_net\<lparr>nt_cap := \<lparr>pl_items = Some (replicate 0x400 zero_cb), pl_size = 0x400, pl_count = 0\<rparr>\<rparr>"
  "sk_nbuff (fresh_layer cb) = \<lparr>pl_items = Some (replicate 0x400 None), pl_size = 0x400, pl_count = 0\<rparr>"
  "sk_circle (fresh_layer cb) = Some cb"
  by (simp_all add: fresh_layer_def new_dmmr_socket_def zero_layer_def zero_net_def zero_pool_def)

lemma receive_turn_held:
  "receive_turn True grown p pos st =
     and_then (get_struct_node_buffer grown st) (\<lambda>(nb, st1).
       if nb = None then Inr (False, pos, st1)
       else and_then (deref (read_cb (sk_net st1)) (Some p)) (\<lambda>_. Inl Self_Deadlock))"
  by (auto simp: receive_turn_def locked_get_buzy_node_def and_then_def split: sum.splits option.splits)

lemma get_struct_node_buffer_frame:
  "get_struct_node_buffer grown st = Inr (nb, st') \<Longrightarrow> sk_net st' = sk_net st \<and> sk_circle st' = sk_circle st"
  by (auto simp: get_struct_node_buffer_def and_then_def split: sum.splits prod.splits)

lemma scan_entries_null: "0 < n \<Longrightarrow> scan_entries store n i (None # xs) = Inl Null_Deref"
  by (cases n) simp_all

text \<open>C34: The receive callback delivers nothing. It holds the mutex of the receive manager when it calls
  \<open>get_buzy_node\<close>, which takes it again, so every call ends in a fault, or, when no entry can be had,
  with the ring and the nodes as they were; and on the layer as constructed the very first call
  dereferences the null pointer of a fresh entry.\<close>

theorem receive_callback_never_delivers:
  "((\<exists>f. on_receive_connection_cb grown (Some p) st = Some (Inl f)) \<or>
    (\<exists>st'. on_receive_connection_cb grown (Some p) st = Some (Inr st') \<and>
           sk_circle st' = sk_circle st \<and> sk_net st' = sk_net st)) \<and>
   on_receive_connection_cb grown (Some p) (fresh_layer cb) = Some (Inl Null_Deref)"
proof
  show "(\<exists>f. on_receive_connection_cb grown (Some p) st = Some (Inl f)) \<or>
    (\<exists>st'. on_receive_connection_cb grown (Some p) st = Some (Inr st') \<and>
           sk_circle st' = sk_circle st \<and> sk_net st' = sk_net st)"
  proof (cases "get_struct_node_buffer grown st")
    case (Inr r)
    then obtain nb st1 where r: "get_struct_node_buffer grown st = Inr (nb, st1)" by (cases r) simp
    show ?thesis using get_struct_node_buffer_frame [OF r] r
      by (cases nb; cases "deref (read_cb (sk_net st1)) (Some p)")
        (auto simp: on_receive_connection_cb_def receive_loop.simps [of True grown p 0 st] receive_turn_held)
  qed (auto simp: on_receive_connection_cb_def receive_loop.simps [of True grown p 0 st] receive_turn_held)
  have "replicate 1024 (None :: node_ptr option) = None # replicate 1023 None" by (simp flip: replicate_Suc)
  then have "get_struct_node_buffer grown (fresh_layer cb) = Inl Null_Deref"
    by (simp add: get_struct_node_buffer_def fresh_layer_fields pool_slots_def scan_entries_null)
  then show "on_receive_connection_cb grown (Some p) (fresh_layer cb) = Some (Inl Null_Deref)"
    by (simp add: on_receive_connection_cb_def receive_loop.simps [of True grown p 0] receive_turn_held fresh_layer_fields)
qed

text \<open>Nothing ever allocates the node pool of the TCP service: constructing the socket layer leaves it
  null and of size 0. The first accepted connection, and the first outgoing connection that
  succeeds, then double the size 0 and use the first slot of an empty array, out of bounds; if the
  allocator returns null for the empty array, the connection is closed instead.\<close>

lemma first_connection_has_no_pool:
  assumes "nt_node st = nt_node (sk_net (fresh_layer cb))" and "read_cb st p = Some c"
    and "0 \<le> client" and "sock \<noteq> EOF"
  shows "accept_one (Some junk) gt client from spawned p st = Inl Out_Of_Bounds \<and>
     connect_tcp_server (Some junk) gt sock 0 own spawned (Some p) st = Inl Out_Of_Bounds \<and>
     (\<exists>st'. accept_one None gt client from spawned p st = Inr (st', [Sys_Close client], None)) \<and>
     (\<exists>st' call. connect_tcp_server None gt sock 0 own spawned (Some p) st = Inr (EOF, st', [call, Sys_Close sock], None))"
proof -
  have keep: "nt_node (write_cb p x st) = zero_pool" for x
    using assms(1) by (simp add: write_cb_def fresh_layer_fields zero_net_def split: cb_ptr.split)
  have none: "nt_node st = zero_pool" using assms(1) by (simp add: fresh_layer_fields zero_net_def)
  have get: "pool_get f 0 (Some junk) (zero_pool :: node pool) =
      Inr (Some 0, \<lparr>pl_items = Some [], pl_size = 0, pl_count = 1\<rparr>)"
    "pool_get f 0 None (zero_pool :: node pool) = Inr (None, zero_pool)" for f
    by (simp_all add: pool_get_def pool_take_def zero_pool_def realloc_items_def)
  have size: "unat (pl_size (zero_pool :: node pool)) = 0" by (simp add: zero_pool_def)
  show ?thesis using assms(2-4)
    by (simp add: accept_one_def connect_tcp_server_def Let_def get_node_def none keep size get deref_def nth_opt_def pool_slots_def)
qed

text \<open>What a caller and the system see of an opening function: its value, the system calls, the callback.\<close>

definition seen :: "opened res \<Rightarrow> (int option \<times> sys list \<times> call) res" where
  "seen r = and_then r (\<lambda>(ret, _, calls, call). Inr (ret, calls, call))"

lemma parse_uri_host:
  assumes "uri_split s proto host port" and "length host < 256" and "NUL \<notin> set host"
  shows "\<exists>buf. parse_protocol_host_port (Some s) (Some (replicate 0x100 NUL)) 0x100 (Some 0) =
     (proto, Some buf, Some (ucast (atoi port))) \<and> cstring buf = host \<and> proto \<noteq> proto_none_t"
proof -
  have "cstring (host @ NUL # xs) = host" for xs
    using assms(3) by (simp add: cstring_def takeWhile_append)
  then show ?thesis using parse_split [OF assms(1), of 256 "replicate 256 NUL" 0] assms(1,2)
    by (auto simp: uri_split_def)
qed

lemma write_cb_cap:
  "write_cb (Cap i) c st = st\<lparr>nt_cap := set_slot i c (nt_cap st)\<rparr>" by (simp add: write_cb_def)

lemma read_write_cap:
  "read_cb st (Cap i) = Some c \<Longrightarrow> read_cb (write_cb (Cap i) c' st) (Cap i) = Some c'"
  by (auto simp: read_cb_def write_cb_def nth_opt_def pool_slots_def set_slot_def split: if_splits option.splits)


lemma set_block_port:
  "nd_family (cb_node_cfg (set_block proto port type a b d c)) = type"
  "address_bytes (cb_node_cfg (set_block proto port type a b d (set_address type buf c))) =
     (if type = EZP_IPV4 \<or> type = EZP_IPV6 then buf else nd_ipv6 (cb_node_cfg c))"
  "cb_node (set_block proto port type a b d c) = cb_node c" "cb_node (set_address type buf c) = cb_node c"
  by (auto simp: set_block_def set_address_def address_bytes_def split: ezp_addr_type.split)

lemma service_node [simp]: "nt_node (write_cb (Cap i) c st) = nt_node st"
  by (simp add: write_cb_cap)

lemma cfg_fd [simp]:
  "nd_family (cfg\<lparr>nd_fd := x\<rparr>) = nd_family cfg" "address_bytes (cfg\<lparr>nd_fd := x\<rparr>) = address_bytes cfg"
  by (simp_all add: address_bytes_def)


text \<open>The same for a service.\<close>

definition service_seen :: "(int \<times> net \<times> sys list) res \<Rightarrow> (int \<times> sys list) res" where
  "service_seen r = and_then r (\<lambda>(ret, _, calls). Inr (ret, calls))"

lemma seen_service:
  "seen (and_then r (\<lambda>(ret, st, calls). Inr (Some ret, st, calls, None))) =
   and_then (service_seen r) (\<lambda>(ret, calls). Inr (Some ret, calls, None))"
  by (cases r) (auto simp: seen_def service_seen_def)

definition bind_calls :: "int \<Rightarrow> node \<Rightarrow> sys list" where
  "bind_calls sock cfg =
     (if nd_family cfg = EZP_IPV4 \<or> nd_family cfg = EZP_IPV6 then [Sys_Bind sock (address_bytes cfg)] else [])"

lemma tcp_service_seen:
  assumes "read_cb st (Cap i) = Some c"
  shows "service_seen (start_tcp_service sock nb ru bo li sp (Some (Cap i)) st) =
    (let binds = bind_calls sock (cb_node_cfg c)
     in if sock = EOF then Inr (EOF, [])
        else if nb \<noteq> 0 \<or> ru \<noteq> 0 then Inr (EOF, [Sys_Close sock])
        else if binds \<noteq> [] \<and> bo \<noteq> 0 then Inr (EOF, binds @ [Sys_Close sock])
        else if li \<noteq> 0 then Inr (EOF, binds @ [Sys_Listen sock 64, Sys_Close sock])
        else if sp \<noteq> 0 then
          and_then (deref (nth_opt (pool_slots (nt_node st))) (cb_node c))
            (\<lambda>n. Inr (EOF, binds @ [Sys_Listen sock 64, Sys_Close (nd_fd n)]))
        else Inr (0, binds @ [Sys_Listen sock 64]))"
  using assms by (simp add: start_tcp_service_def service_seen_def Let_def and_then_assoc bind_calls_def)

lemma udp_service_seen:
  assumes "read_cb st (Cap i) = Some c"
  shows "service_seen (start_udp_service sock bo sp (Some (Cap i)) st) =
    (let binds = bind_calls sock (cb_node_cfg c)
     in if sock = EOF then Inr (EOF, [])
        else if binds \<noteq> [] \<and> bo \<noteq> 0 then Inr (EOF, binds @ [Sys_Close sock])
        else Inr (sp, binds))"
  using assms by (simp add: start_udp_service_def service_seen_def Let_def bind_calls_def)


lemma bind_calls_block:
  "type = EZP_IPV4 \<or> type = EZP_IPV6 \<Longrightarrow>
   bind_calls sock (cb_node_cfg (set_block proto port type a b d (set_address type buf c))) = [Sys_Bind sock buf]"
  by (simp add: bind_calls_def set_block_port)

text \<open>What is seen of a service, given the address and the block it is opened in.\<close>

definition service_calls :: "answers \<Rightarrow> proto_t \<Rightarrow> u8 list \<Rightarrow> node pool \<Rightarrow> base_cb \<Rightarrow> (int \<times> sys list) res" where
  "service_calls an proto buf nodes c =
     (let sock = an_socket an
      in if sock = EOF then Inr (EOF, [])
         else if proto = proto_tcp_t \<and> (an_nonblock an \<noteq> 0 \<or> an_reuse an \<noteq> 0) then Inr (EOF, [Sys_Close sock])
         else if an_bind an \<noteq> 0 then Inr (EOF, [Sys_Bind sock buf, Sys_Close sock])
         else if proto = proto_udp_t then Inr (an_spawn an, [Sys_Bind sock buf])
         else if an_listen an \<noteq> 0 then Inr (EOF, [Sys_Bind sock buf, Sys_Listen sock 64, Sys_Close sock])
         else if an_spawn an \<noteq> 0 then
           and_then (deref (nth_opt (pool_slots nodes)) (cb_node c))
             (\<lambda>n. Inr (EOF, [Sys_Bind sock buf, Sys_Listen sock 64, Sys_Close (nd_fd n)]))
         else Inr (0, [Sys_Bind sock buf, Sys_Listen sock 64]))"

definition acception_seen :: "answers \<Rightarrow> proto_t \<Rightarrow> string \<Rightarrow> net \<Rightarrow> (int option \<times> sys list \<times> call) res" where
  "acception_seen an proto ip st =
     and_then (get_union_protocol_base_cb (an_cap an) st) (\<lambda>(cb, st1).
       (case cb of
          None \<Rightarrow> Inr (Some EOF, [], None)
        | Some p \<Rightarrow>
           and_then (deref (read_cb st1) (Some p)) (\<lambda>c.
             (case dns2ipaddr (an_resolve an) ip of (type, buf) \<Rightarrow>
                if type \<noteq> EZP_IPV4 \<and> type \<noteq> EZP_IPV6 then Inr (Some EOF, [], None)
                else and_then (service_calls an proto buf (nt_node st1) c) (\<lambda>(ret, calls). Inr (Some ret, calls, None))))))"

lemma seen_acception:
  assumes "proto \<noteq> proto_none_t"
  shows "seen (start_acception an proto port ip cbs st) = acception_seen an proto ip st"
proof (cases "get_union_protocol_base_cb (an_cap an) st")
  case (Inr r)
  then obtain cb st1 where r: "get_union_protocol_base_cb (an_cap an) st = Inr (cb, st1)" by (cases r) simp
  show ?thesis
  proof (cases cb)
    case (Some p)
    then obtain i where p: "p = Cap i"
      using r by (auto simp: get_union_protocol_base_cb_def and_then_def split: sum.splits prod.splits)
    show ?thesis
    proof (cases "deref (read_cb st1) (Some p)")
      case c: (Inr c)
      then have read: "read_cb st1 (Cap i) = Some c" by (auto simp: p deref_def split: option.splits)
      obtain type buf where dns: "dns2ipaddr (an_resolve an) ip = (type, buf)" by fastforce
      show ?thesis
      proof (cases "type = EZP_IPV4 \<or> type = EZP_IPV6")
        case True
        note seen = seen_service tcp_service_seen [OF read_write_cap [OF read]] udp_service_seen [OF read_write_cap [OF read]]
        have valid: "(type \<noteq> EZP_IPV4 \<and> type \<noteq> EZP_IPV6) = False" using True by auto
        show ?thesis using assms
          by (cases proto)
            (simp_all add: start_acception_def acception_seen_def r Some c dns p seen Let_def read set_block_port valid service_calls_def
              bind_calls_block [OF True])
      qed (use assms in \<open>auto simp: start_acception_def acception_seen_def r Some c dns seen_def\<close>)
    qed (use assms in \<open>simp add: start_acception_def acception_seen_def r Some seen_def\<close>)
  qed (use assms r in \<open>simp add: start_acception_def acception_seen_def seen_def\<close>)
qed (use assms in \<open>simp add: start_acception_def acception_seen_def seen_def\<close>)


definition connect_seen :: "answers \<Rightarrow> base_cb \<Rightarrow> net \<Rightarrow> (int option \<times> sys list \<times> call) res" where
  "connect_seen an c st =
     (let sock = an_socket an; call = Sys_Connect sock (connect_bytes (cb_node_cfg c))
      in if sock = EOF then Inr (Some EOF, [], None)
         else if an_connect an \<noteq> 0 then Inr (Some EOF, [call, Sys_Close sock], None)
         else
           and_then (pool_get (\<lambda>n. nd_fd n = 0) (unat (pl_size (nt_node st))) (an_node an) (nt_node st)) (\<lambda>(slot, p).
             (case slot of
                None \<Rightarrow> Inr (Some EOF, [call, Sys_Close sock], None)
              | Some k \<Rightarrow>
                 and_then (deref (nth_opt (pool_slots p)) (Some k)) (\<lambda>_.
                 and_then (pool_get (\<lambda>c. \<not> cb_run c) (unat (pl_size (nt_tcp st))) (an_tcp an) (nt_tcp st)) (\<lambda>(tslot, q).
                   (case tslot of
                      None \<Rightarrow> Inr (Some EOF, [call, Sys_Close sock], None)
                    | Some j \<Rightarrow>
                       and_then (deref (nth_opt (pool_slots q)) (Some j)) (\<lambda>_.
                         Inr (Some 0, [call], callback_call (an_spawn an = 0) (cb_on_connect c) (Tcp_Pool j)))))))))"

lemma connect_bytes_fd [simp]: "connect_bytes (cfg\<lparr>nd_fd := x\<rparr>) = connect_bytes cfg"
  by (simp add: connect_bytes_def)

lemma deref_nth: "deref store (Some k) = (case store k of None \<Rightarrow> Inl Out_Of_Bounds | Some x \<Rightarrow> Inr x)"
  by (simp add: deref_def)

lemma seen_connect:
  assumes "read_cb st (Cap i) = Some c"
  shows "seen (and_then (connect_tcp_server (an_node an) (an_tcp an) (an_socket an) (an_connect an) (an_own an)
                           (an_spawn an) (Some (Cap i)) st)
                 (\<lambda>(ret, st2, calls, call). Inr (Some (if ret \<noteq> 0 then EOF else 0), st2, calls, call))) =
         connect_seen an c st"
proof (cases "an_socket an = EOF \<or> an_connect an \<noteq> 0")
  case False
  show ?thesis
  proof (cases "pool_get (\<lambda>n. nd_fd n = 0) (unat (pl_size (nt_node st))) (an_node an) (nt_node st)")
    case (Inr r)
    then obtain slot p where p: "pool_get (\<lambda>n. nd_fd n = 0) (unat (pl_size (nt_node st))) (an_node an) (nt_node st) = Inr (slot, p)"
      by (cases r) simp
    show ?thesis
    proof (cases "pool_get (\<lambda>c. \<not> cb_run c) (unat (pl_size (nt_tcp st))) (an_tcp an) (nt_tcp st)")
      case q: (Inr r)
      then obtain tslot q where q: "pool_get (\<lambda>c. \<not> cb_run c) (unat (pl_size (nt_tcp st))) (an_tcp an) (nt_tcp st) = Inr (tslot, q)"
        by (cases r) simp
      show ?thesis using False assms
        by (simp add: connect_tcp_server_def connect_seen_def Let_def write_cb_cap get_node_def get_tcp_node_def p q deref_nth
            seen_def read_cb_def [of _ "Tcp_Pool _"] split: option.split)
    qed (use False assms in \<open>simp add: connect_tcp_server_def connect_seen_def Let_def write_cb_cap get_node_def get_tcp_node_def p
            seen_def deref_nth split: option.split\<close>)
  qed (use False assms in \<open>simp add: connect_tcp_server_def connect_seen_def Let_def write_cb_cap get_node_def seen_def\<close>)
qed (use assms in \<open>auto simp: connect_tcp_server_def connect_seen_def Let_def seen_def\<close>)

lemma connect_seen_cong:
  assumes "nt_node st = nt_node st'" "nt_tcp st = nt_tcp st'" "cb_on_connect c = cb_on_connect c'"
    and "connect_bytes (cb_node_cfg c) = connect_bytes (cb_node_cfg c')"
  shows "connect_seen an c st = connect_seen an c' st'"
  by (simp only: connect_seen_def assms)

lemma seen_dispatcher:
  "seen (start_dispatcher_tcp an ip port cbs st) = seen (start_dispatcher_tcp an ip port' cbs st)"
proof (cases "get_union_protocol_base_cb (an_cap an) st")
  case (Inr r)
  then obtain cb st1 where r: "get_union_protocol_base_cb (an_cap an) st = Inr (cb, st1)" by (cases r) simp
  show ?thesis
  proof (cases cb)
    case (Some p)
    then obtain i where p: "p = Cap i"
      using r by (auto simp: get_union_protocol_base_cb_def and_then_def split: sum.splits prod.splits)
    show ?thesis
    proof (cases "deref (read_cb st1) (Some p)")
      case c: (Inr c)
      then have read: "read_cb st1 (Cap i) = Some c" by (auto simp: p deref_def split: option.splits)
      obtain type buf where dns: "dns2ipaddr (an_resolve an) ip = (type, buf)" by fastforce
      show ?thesis
        unfolding start_dispatcher_tcp_def r and_then_simps prod.case Some option.case c dns Let_def
        unfolding p seen_connect [OF read_write_cap [OF read]]
        by (rule connect_seen_cong) (simp_all add: write_cb_cap set_block_def connect_bytes_def)
    qed (simp add: start_dispatcher_tcp_def r Some seen_def)
  qed (simp add: start_dispatcher_tcp_def r seen_def)
qed (simp add: start_dispatcher_tcp_def seen_def)


lemma service_calls_bind:
  "service_calls an proto buf nodes c = Inr (ret, calls) \<Longrightarrow> Sys_Bind fd b \<in> set calls \<Longrightarrow> b = buf"
  by (auto simp: service_calls_def Let_def and_then_Inr_iff split: if_splits)

lemma acception_seen_binds:
  assumes "acception_seen an proto ip st = Inr (ret, calls, call)" and "Sys_Bind fd b \<in> set calls"
  shows "b = snd (dns2ipaddr (an_resolve an) ip)"
proof -
  obtain type buf where dns: "dns2ipaddr (an_resolve an) ip = (type, buf)" by fastforce
  show ?thesis using assms service_calls_bind unfolding acception_seen_def dns
    by (auto simp: and_then_Inr_iff split: prod.split_asm option.split_asm if_split_asm)
qed

text \<open>C40: The port of a URI reaches no system call. For two URIs that differ only in the port, opening a
  service gives the same value, the same system calls and the same callback, and so does opening a
  connection; and what a service binds is exactly the address the resolver gave for the host.\<close>

theorem uri_port_never_used:
  assumes "uri_split s proto host port" and "uri_split s' proto host port'"
    and "length host < 256" and "NUL \<notin> set host"
  shows "seen (start_accept_from_uri an (Some s) cbs st) = seen (start_accept_from_uri an (Some s') cbs st) \<and>
     seen (create_dispatcher_from_uri an (Some s) cbs st) = seen (create_dispatcher_from_uri an (Some s') cbs st) \<and>
     (\<forall>ret calls call fd b. seen (start_accept_from_uri an (Some s) cbs st) = Inr (ret, calls, call) \<and>
        Sys_Bind fd b \<in> set calls \<longrightarrow> b = snd (dns2ipaddr (an_resolve an) host))"
proof -
  obtain buf where a: "parse_protocol_host_port (Some s) (Some (replicate 0x100 NUL)) 0x100 (Some 0) =
     (proto, Some buf, Some (ucast (atoi port)))" "cstring buf = host" "proto \<noteq> proto_none_t"
    using parse_uri_host [OF assms(1,3,4)] by blast
  obtain buf' where b: "parse_protocol_host_port (Some s') (Some (replicate 0x100 NUL)) 0x100 (Some 0) =
     (proto, Some buf', Some (ucast (atoi port')))" "cstring buf' = host"
    using parse_uri_host [OF assms(2,3,4)] by blast
  have acc: "seen (start_accept_from_uri an (Some s) cbs st) = acception_seen an proto host st"
    "seen (start_accept_from_uri an (Some s') cbs st) = acception_seen an proto host st"
    using a b by (simp_all add: start_accept_from_uri_def seen_acception)
  moreover have "seen (create_dispatcher_from_uri an (Some s) cbs st) = seen (create_dispatcher_from_uri an (Some s') cbs st)"
    using a b seen_dispatcher [of an host "ucast (atoi port)" cbs st "ucast (atoi port')"]
    by (cases proto) (simp_all add: create_dispatcher_from_uri_def)
  ultimately show ?thesis using acception_seen_binds by auto
qed

definition loopback :: answers where
  "loopback = \<lparr>an_resolve = (\<lambda>_. Some [(2, [2, 0, 0, 0, 127, 0, 0, 1, 0, 0, 0, 0, 0, 0, 0, 0])]), an_cap = None, an_node = None,
     an_tcp = None, an_socket = 3, an_connect = 0, an_own = None, an_nonblock = 0, an_reuse = 0, an_bind = 0,
     an_listen = 0, an_spawn = 0, an_udp_alloc = True\<rparr>"

definition no_callbacks :: callbacks where
  "no_callbacks = \<lparr>ck_accept_udp = None, ck_accept_tcp = None, ck_connect_udp = None, ck_connect_tcp = None,
     ck_close_udp = None, ck_close_tcp = None\<rparr>"

theorem uri_port_never_used_witness:
  "seen (start_accept_from_uri loopback (Some ''TCP/lo:2727'') no_callbacks (sk_net (fresh_layer zero_circle))) =
   seen (start_accept_from_uri loopback (Some ''TCP/lo:80'') no_callbacks (sk_net (fresh_layer zero_circle)))"
  using uri_port_never_used [of "''TCP/lo:2727''" proto_tcp_t "''lo''" "''2727''" "''TCP/lo:80''" "''80''" loopback no_callbacks]
  by (simp add: uri_split_def)

end
