(* ===== verification/Orbit_Logging.thy ===== *)
theory Orbit_Logging
  imports Orbit_Log "HOL-Library.Sublist"
begin

text \<open>
  The life of the log of \<^verbatim>\<open>src/log/rb_log.c\<close>, from \<open>rb_log_init\<close> to \<open>rb_log_shutdown\<close> and the flush
  that \<open>main\<close> runs last: any interleaving of the threads that push lines with the log thread. Both sides
  work under the buffer's mutex, so a push and a turn of the thread are one step each.
\<close>

section \<open>The running log\<close>

text \<open>What an output hands over: the lines of a \<open>writev\<close>, or one line for \<open>stderr\<close>.\<close>

definition handed :: "log_output \<Rightarrow> string list" where
  "handed out = (case out of Writev ls \<Rightarrow> ls | Stderr l \<Rightarrow> [l])"

definition all_handed :: "log_output list \<Rightarrow> string list" where
  "all_handed out = concat (map handed out)"

lemma all_handed_simps [simp]:
  "all_handed [] = []" "all_handed (o1 @ o2) = all_handed o1 @ all_handed o2" "all_handed (x # o2) = handed x @ all_handed o2"
  "all_handed (map Writev batches) = concat batches"
  by (simp_all add: all_handed_def handed_def comp_def)

text \<open>The socket is a datagram socket that does not block: a \<open>writev\<close> is taken as a whole or refused, and the
  code ignores its result. \<open>taken oks out\<close> are the lines that reached it when \<open>oks\<close> says of each output
  whether it was taken.\<close>

definition taken :: "bool list \<Rightarrow> log_output list \<Rightarrow> string list" where
  "taken oks out = all_handed (map snd (filter fst (zip oks out)))"

lemma taken_simps [simp]:
  "taken [] [] = []" "taken (ok # oks) (x # out) = (if ok then handed x @ taken oks out else taken oks out)"
  by (simp_all add: taken_def)











section \<open>Properties\<close>



end
