(* ===== verification/Orbit_Receivers.thy ===== *)
theory Orbit_Receivers
  imports Orbit_Net
begin

text \<open>
  The whole UDP \<open>receiver_thread\<close> of \<^verbatim>\<open>src/socket/socket_udp.c\<close>: it prepares the receive manager, takes
  turns while the block runs, and calls the close callback. What \<open>recvmsg\<close> and the clocks answer is given
  per turn; a turn that finds no free slot does not ask. The callbacks change the block they are given.
\<close>

section \<open>The thread\<close>

record udp_event =
  ue_ret :: int
  ue_bytes :: "u8 list"
  ue_from :: peer
  ue_mono :: "u64 option"
  ue_real :: "u64 option"

type_synonym block_callback = "base_cb \<Rightarrow> base_cb res"

text \<open>The first statement of the thread.\<close>

definition udp_receiver_start :: "base_cb \<Rightarrow> base_cb" where
  "udp_receiver_start node =
     (case init_node_recv_manager (Some (cb_recv node)) of
        (_, Some m) \<Rightarrow> node\<lparr>cb_recv := m\<rparr>
      | (_, None) \<Rightarrow> node)"

text \<open>The loop over as many turns as there are events: whether it goes on, and the block. A \<open>continue\<close>
  goes to the condition of the loop.\<close>

fun udp_receiver_loop :: "block_callback \<Rightarrow> udp_event list \<Rightarrow> base_cb \<Rightarrow> (bool \<times> base_cb) res" where
  "udp_receiver_loop on_receive [] node = Inr (True, node)"
| "udp_receiver_loop on_receive (e # es) node =
     (case udp_receiver_turn (ue_ret e) (ue_bytes e) (ue_from e) (ue_mono e) (ue_real e) node of
        (Udp_Break, n) \<Rightarrow> Inr (False, n)
      | (Udp_Again, n) \<Rightarrow> if cb_run n then udp_receiver_loop on_receive es n else Inr (False, n)
      | (Udp_Received, n) \<Rightarrow>
          and_then (if cb_on_receive n \<noteq> None then on_receive n else Inr n) (\<lambda>n1.
            if cb_run n1 then udp_receiver_loop on_receive es n1 else Inr (False, n1)))"

definition udp_receiver_thread ::
    "block_callback \<Rightarrow> block_callback \<Rightarrow> udp_event list \<Rightarrow> base_cb \<Rightarrow> (bool \<times> base_cb) res" where
  "udp_receiver_thread on_receive on_close es node =
     and_then (udp_receiver_loop on_receive es (udp_receiver_start node)) (\<lambda>(going, n).
       if going then Inr (True, n)
       else and_then (if cb_on_close n \<noteq> None then on_close n else Inr n) (\<lambda>n1. Inr (False, n1)))"

section \<open>Slots an empty datagram takes\<close>

text \<open>The first \<open>k\<close> slots are taken, and the search starts after them.\<close>

definition taken :: "nat \<Rightarrow> node_recv_manager \<Rightarrow> bool" where
  "taken k m \<longleftrightarrow> k \<le> 256 \<and> rm_status m = replicate k 1 @ replicate (256 - k) 0 \<and> rm_next_free m = of_nat k"

lemma taken_busy: "taken k m \<Longrightarrow> slot_busy m i \<longleftrightarrow> unat i < k"
  using u8_less_256 [of i] diff_less_mono [of "unat i" 256 k] by (auto simp: taken_def slot_busy_def nth_append simp del: u8_less_256)

lemma taken_le: "taken k m \<Longrightarrow> min 256 k = k"
  by (simp add: taken_def)

lemma take_next:
  assumes "taken k m" and "k < 256"
  shows "\<exists>m'. get_free_node (Some m) (Some 0) = (Some (of_nat k), Some m', Some (of_nat k)) \<and> taken (Suc k) m' \<and> rm_nodes m' = rm_nodes m"
proof -
  have start: "rm_next_free m = of_nat k" "unat (of_nat k :: u8) = k" using assms by (simp_all add: taken_def unat_of_nat_less)
  then have "ring_scan (\<lambda>i. \<not> slot_busy m i) (rm_next_free m) (rm_next_free m) = Some (of_nat k)"
    using ring_scan_first [of "\<lambda>i. \<not> slot_busy m i" "rm_next_free m" 0] taken_busy [OF assms(1)] by simp
  moreover have "(replicate k 1 @ replicate (256 - k) 0)[k := 1] = replicate (Suc k) 1 @ replicate (256 - Suc k) (0 :: u8)"
    using assms(2) by (simp add: list_update_append replicate_append_same Suc_diff_Suc [symmetric])
  ultimately show ?thesis using assms start(2) by (auto simp: get_free_node_def taken_def set_status_def)
qed

lemma take_none: "taken 256 m \<Longrightarrow> get_free_node (Some m) (Some 0) = (None, Some m, Some 0)"
  using taken_busy [of 256 m] ring_scan_None [of "\<lambda>i. \<not> slot_busy m i"] by (simp add: get_free_node_def)

lemma empty_turn:
  assumes "taken k (cb_recv n)" and "cb_run n" and "k < 256 \<Longrightarrow> ue_ret e = 0"
  shows "\<exists>m. udp_receiver_turn (ue_ret e) (ue_bytes e) (ue_from e) (ue_mono e) (ue_real e) n = (Udp_Again, n\<lparr>cb_recv := m\<rparr>) \<and>
     taken (min 256 (Suc k)) m \<and> rm_nodes m = rm_nodes (cb_recv n)"
proof (cases "k < 256")
  case True
  then have "min 256 (Suc k) = Suc k" by simp
  then show ?thesis using True take_next [OF assms(1) True] assms(2,3) by (fastforce simp: udp_receiver_turn_def Let_def)
next
  case False
  then have "k = 256" using assms(1) by (simp add: taken_def)
  then show ?thesis using take_none assms(1) by (intro exI [of _ "cb_recv n"]) (simp add: udp_receiver_turn_def)
qed

lemma deaf_loop:
  assumes "taken k (cb_recv n)" and "cb_run n" and "\<forall>i < length es. k + i < 256 \<longrightarrow> ue_ret (es ! i) = 0"
  shows "\<exists>m. (\<forall>on_receive. udp_receiver_loop on_receive es n = Inr (True, n\<lparr>cb_recv := m\<rparr>)) \<and>
     taken (min 256 (k + length es)) m \<and> rm_nodes m = rm_nodes (cb_recv n)"
  using assms
proof (induction es arbitrary: k n)
  case Nil
  then show ?case using taken_le [OF Nil(1)] by (intro exI [of _ "cb_recv n"]) simp
next
  case (Cons e es)
  have "k < 256 \<Longrightarrow> ue_ret e = 0" using Cons.prems(3) by force
  from empty_turn [OF Cons.prems(1,2) this]
  obtain m where m: "udp_receiver_turn (ue_ret e) (ue_bytes e) (ue_from e) (ue_mono e) (ue_real e) n = (Udp_Again, n\<lparr>cb_recv := m\<rparr>)"
    "taken (min 256 (Suc k)) m" "rm_nodes m = rm_nodes (cb_recv n)"
    by blast
  have "\<forall>i < length es. min 256 (Suc k) + i < 256 \<longrightarrow> ue_ret (es ! i) = 0"
  proof (intro allI impI)
    fix i
    assume "i < length es" "min 256 (Suc k) + i < 256"
    then have "Suc i < length (e # es)" "k + Suc i < 256" by simp_all
    then show "ue_ret (es ! i) = 0" using Cons.prems(3) [rule_format, of "Suc i"] by simp
  qed
  from Cons.IH [of "min 256 (Suc k)" "n\<lparr>cb_recv := m\<rparr>", OF _ _ this] m Cons.prems(2)
  obtain m' where "\<forall>on_receive. udp_receiver_loop on_receive es (n\<lparr>cb_recv := m\<rparr>) = Inr (True, n\<lparr>cb_recv := m'\<rparr>)"
    "taken (min 256 (min 256 (Suc k) + length es)) m'" "rm_nodes m' = rm_nodes (cb_recv n)" by auto
  moreover have "min 256 (min 256 (Suc k) + length es) = min 256 (k + length (e # es))" by simp
  ultimately show ?case using m(1) Cons.prems(2) by (intro exI [of _ m']) simp
qed

section \<open>Slots any datagram takes\<close>

lemma data_turn:
  assumes "taken k (cb_recv n)" and "k < 256" and "0 < ue_ret e"
  shows "\<exists>m. udp_receiver_turn (ue_ret e) (ue_bytes e) (ue_from e) (ue_mono e) (ue_real e) n = (Udp_Received, n\<lparr>cb_recv := m\<rparr>) \<and>
     taken (Suc k) m"
proof -
  obtain m where "get_free_node (Some (cb_recv n)) (Some 0) = (Some (of_nat k), Some m, Some (of_nat k))" "taken (Suc k) m"
    using take_next [OF assms(1,2)] by blast
  then show ?thesis using assms(3) by (auto simp: udp_receiver_turn_def Let_def taken_def)
qed

text \<open>With no slot free the thread takes turn after turn and changes nothing.\<close>

lemma deaf: "taken 256 (cb_recv n) \<Longrightarrow> cb_run n \<Longrightarrow> udp_receiver_loop on_receive es n = Inr (True, n)"
  by (induction es) (simp_all add: udp_receiver_turn_def take_none)

lemma filling_loop:
  assumes keeps: "\<forall>n. (\<exists>f. on_receive n = Inl f) \<or> on_receive n = Inr n"
  shows "taken k (cb_recv n) \<Longrightarrow> cb_run n \<Longrightarrow> k + length es = 256 \<Longrightarrow> \<forall>e \<in> set es. 0 \<le> ue_ret e \<Longrightarrow>
     (\<exists>f. \<forall>rest. udp_receiver_loop on_receive (es @ rest) n = Inl f) \<or>
     (\<exists>m. taken 256 m \<and> (\<forall>rest. udp_receiver_loop on_receive (es @ rest) n = Inr (True, n\<lparr>cb_recv := m\<rparr>)))"
proof (induction es arbitrary: k n)
  case Nil
  then show ?case using deaf [of n] by (intro disjI2 exI [of _ "cb_recv n"]) simp
next
  case (Cons e es)
  then have k: "k < 256" and len: "Suc k + length es = 256" and es: "\<forall>e \<in> set es. 0 \<le> ue_ret e" by simp_all
  show ?case
  proof (cases "ue_ret e = 0")
    case True
    then obtain m where m: "udp_receiver_turn (ue_ret e) (ue_bytes e) (ue_from e) (ue_mono e) (ue_real e) n = (Udp_Again, n\<lparr>cb_recv := m\<rparr>)"
      "taken (Suc k) m"
      using empty_turn [OF Cons.prems(1,2), of e] k min_absorb2 [OF Suc_leI [OF k]] by metis
    then have "udp_receiver_loop on_receive ((e # es) @ rest) n = udp_receiver_loop on_receive (es @ rest) (n\<lparr>cb_recv := m\<rparr>)" for rest
      using Cons.prems(2) by simp
    then show ?thesis using Cons.IH [of "Suc k" "n\<lparr>cb_recv := m\<rparr>"] m(2) Cons.prems(2) len es by simp
  next
    case False
    then have "0 < ue_ret e" using Cons.prems(4) by simp
    then obtain m where m: "udp_receiver_turn (ue_ret e) (ue_bytes e) (ue_from e) (ue_mono e) (ue_real e) n = (Udp_Received, n\<lparr>cb_recv := m\<rparr>)"
      "taken (Suc k) m"
      using data_turn [OF Cons.prems(1) k] by blast
    show ?thesis
    proof (cases "\<exists>f. cb_on_receive n \<noteq> None \<and> on_receive (n\<lparr>cb_recv := m\<rparr>) = Inl f")
      case True
      then show ?thesis using m(1) by auto
    next
      case False
      then have "(if cb_on_receive (n\<lparr>cb_recv := m\<rparr>) \<noteq> None then on_receive (n\<lparr>cb_recv := m\<rparr>) else Inr (n\<lparr>cb_recv := m\<rparr>)) = Inr (n\<lparr>cb_recv := m\<rparr>)"
        using keeps [rule_format, of "n\<lparr>cb_recv := m\<rparr>"] by auto
      then have "udp_receiver_loop on_receive ((e # es) @ rest) n = udp_receiver_loop on_receive (es @ rest) (n\<lparr>cb_recv := m\<rparr>)" for rest
        using m(1) Cons.prems(2) by (simp split: if_splits)
      then show ?thesis using Cons.IH [of "Suc k" "n\<lparr>cb_recv := m\<rparr>"] m(2) Cons.prems(2) len es by simp
    qed
  qed
qed

text \<open>Empty datagrams alone: whatever the callback would do, nothing is written and nothing is called.\<close>

lemma empty_datagrams_deafen_receiver:
  assumes "cb_run node" and "256 \<le> length es" and "\<forall>i < 256. ue_ret (es ! i) = 0"
  shows "\<exists>m. (\<forall>on_receive on_close. udp_receiver_thread on_receive on_close es node = Inr (True, node\<lparr>cb_recv := m\<rparr>)) \<and>
     (\<forall>i. slot_busy m i) \<and> rm_nodes m = rm_nodes (cb_recv node)"
proof -
  have start: "taken 0 (cb_recv (udp_receiver_start node))" "cb_run (udp_receiver_start node)"
    "rm_nodes (cb_recv (udp_receiver_start node)) = rm_nodes (cb_recv node)"
    "(udp_receiver_start node)\<lparr>cb_recv := m\<rparr> = node\<lparr>cb_recv := m\<rparr>" for m
    using assms(1) by (simp_all add: udp_receiver_start_def init_node_recv_manager_def taken_def)
  obtain m where m: "\<forall>on_receive. udp_receiver_loop on_receive es (udp_receiver_start node) = Inr (True, node\<lparr>cb_recv := m\<rparr>)"
    "taken 256 m" "rm_nodes m = rm_nodes (cb_recv node)"
    using deaf_loop [OF start(1,2), of es] start(3,4) assms(2,3) by (auto simp: min_absorb1)
  then show ?thesis using taken_busy [OF m(2)] by (intro exI [of _ m]) (simp add: udp_receiver_thread_def)
qed

section \<open>Properties\<close>

text \<open>C27: A UDP receiver takes 256 datagrams and no more. Each takes a slot of the receive manager, and neither the
  thread nor a callback that faults or leaves the block alone, as the program's own does, gives it back.
  When all are taken the thread spins without reading the socket, for ever: what arrives later changes
  nothing. Empty datagrams are enough, whatever the callback does, and then no node is ever written.\<close>

theorem receiver_takes_256_datagrams:
  assumes "cb_run node" and "256 \<le> length es" and "\<forall>e \<in> set (take 256 es). 0 \<le> ue_ret e"
    and "\<forall>n. (\<exists>f. on_receive n = Inl f) \<or> on_receive n = Inr n"
  shows "((\<exists>f. udp_receiver_thread on_receive on_close es node = Inl f) \<or>
       (\<exists>m. udp_receiver_thread on_receive on_close es node = Inr (True, node\<lparr>cb_recv := m\<rparr>) \<and> (\<forall>i. slot_busy m i) \<and>
          (\<forall>later. udp_receiver_thread on_receive on_close (take 256 es @ later) node = Inr (True, node\<lparr>cb_recv := m\<rparr>)))) \<and>
     ((\<forall>i < 256. ue_ret (es ! i) = 0) \<longrightarrow>
       (\<exists>m. (\<forall>on_receive on_close. udp_receiver_thread on_receive on_close es node = Inr (True, node\<lparr>cb_recv := m\<rparr>)) \<and>
          rm_nodes m = rm_nodes (cb_recv node)))"
proof (intro conjI impI)
  let ?n = "udp_receiver_start node"
  have start: "taken 0 (cb_recv ?n)" "cb_run ?n" "?n\<lparr>cb_recv := m\<rparr> = node\<lparr>cb_recv := m\<rparr>" for m
    using assms(1) by (simp_all add: udp_receiver_start_def init_node_recv_manager_def taken_def)
  have len: "0 + length (take 256 es) = 256" using assms(2) by simp
  have es: "take 256 es @ drop 256 es = es" by simp
  from filling_loop [OF assms(4) start(1,2) len assms(3)]
  show "(\<exists>f. udp_receiver_thread on_receive on_close es node = Inl f) \<or>
      (\<exists>m. udp_receiver_thread on_receive on_close es node = Inr (True, node\<lparr>cb_recv := m\<rparr>) \<and> (\<forall>i. slot_busy m i) \<and>
         (\<forall>later. udp_receiver_thread on_receive on_close (take 256 es @ later) node = Inr (True, node\<lparr>cb_recv := m\<rparr>)))"
  proof (elim disjE exE conjE)
    fix f assume "\<forall>rest. udp_receiver_loop on_receive (take 256 es @ rest) ?n = Inl f"
    from this [rule_format, of "drop 256 es"] show ?thesis unfolding es by (simp add: udp_receiver_thread_def)
  next
    fix m assume m: "taken 256 m" "\<forall>rest. udp_receiver_loop on_receive (take 256 es @ rest) ?n = Inr (True, ?n\<lparr>cb_recv := m\<rparr>)"
    have later: "udp_receiver_thread on_receive on_close (take 256 es @ later) node = Inr (True, node\<lparr>cb_recv := m\<rparr>)" for later
      using m(2) [rule_format, of later] by (simp add: udp_receiver_thread_def start(3))
    from this [of "drop 256 es"] show ?thesis unfolding es using later taken_busy [OF m(1)] by (intro disjI2 exI [of _ m]) simp
  qed
  show "\<exists>m. (\<forall>on_receive on_close. udp_receiver_thread on_receive on_close es node = Inr (True, node\<lparr>cb_recv := m\<rparr>)) \<and>
      rm_nodes m = rm_nodes (cb_recv node)" if "\<forall>i < 256. ue_ret (es ! i) = 0"
    using empty_datagrams_deafen_receiver [OF assms(1,2) that] by blast
qed

text \<open>256 datagrams of one byte, then another.\<close>

definition empty_event :: udp_event where
  "empty_event = \<lparr>ue_ret = 0, ue_bytes = [], ue_from = (0, []), ue_mono = None, ue_real = None\<rparr>"

theorem receiver_takes_256_datagrams_witness:
  "\<exists>m. udp_receiver_thread Inr Inr (replicate 256 (empty_event\<lparr>ue_ret := 1\<rparr>) @ [empty_event\<lparr>ue_ret := 1, ue_bytes := [7]\<rparr>]) (zero_cb\<lparr>cb_run := True\<rparr>) =
     Inr (True, (zero_cb\<lparr>cb_run := True\<rparr>)\<lparr>cb_recv := m\<rparr>) \<and> (\<forall>i. slot_busy m i)"
proof -
  let ?node = "zero_cb\<lparr>cb_run := True\<rparr>" and ?e = "empty_event\<lparr>ue_ret := 1\<rparr>"
  let ?es = "replicate 256 ?e @ [empty_event\<lparr>ue_ret := 1, ue_bytes := [7]\<rparr>]"
  have one: "take 256 ?es = replicate 256 ?e" by simp
  have es: "cb_run ?node" "256 \<le> length ?es" "\<forall>e \<in> set (take 256 ?es). 0 \<le> ue_ret e" unfolding one by simp_all
  have keeps: "\<forall>n :: base_cb. (\<exists>f. Inr n = (Inl f :: base_cb res)) \<or> Inr n = (Inr n :: base_cb res)" by simp
  have runs: "udp_receiver_loop Inr es n \<noteq> Inl f" for es n f
    by (induction es arbitrary: n) (auto split: prod.splits udp_turn.splits)
  then have "udp_receiver_thread Inr Inr ?es ?node \<noteq> Inl f" for f
    by (cases "udp_receiver_loop Inr ?es (udp_receiver_start ?node)") (auto simp: udp_receiver_thread_def split: if_splits)
  then show ?thesis using receiver_takes_256_datagrams [OF es keeps, of Inr] by blast
qed

end
