(* ===== verification/Orbit_Sleep.thy ===== *)
theory Orbit_Sleep
  imports Orbit_Types
begin

text \<open>
  \<open>nsleep_us\<close> of \<^verbatim>\<open>src/include/funcs.h\<close>, the pause of the scheduler's passes and of a waiting session: the
  instant it asks \<open>clock_nanosleep\<close> to wake at. The two fields of a \<open>struct timespec\<close> are signed 64-bit
  numbers.
\<close>

record timespec =
  tv_sec :: u64
  tv_nsec :: u64

definition nsleep_us :: "u64 \<Rightarrow> timespec \<Rightarrow> timespec" where
  "nsleep_us us now =
     (let ts = now\<lparr>tv_nsec := tv_nsec now + us * 1000\<rparr>
      in if 1000000000 \<le> sint (tv_nsec ts) then ts\<lparr>tv_sec := tv_sec ts + 1, tv_nsec := tv_nsec ts - 1000000000\<rparr> else ts)"

text \<open>\<open>clock_nanosleep\<close> refuses an instant whose nanoseconds make a second, and returns at once.\<close>

definition sleeps :: "timespec \<Rightarrow> bool" where
  "sleeps ts \<longleftrightarrow> 0 \<le> sint (tv_nsec ts) \<and> sint (tv_nsec ts) < 1000000000"

definition instant :: "timespec \<Rightarrow> nat" where
  "instant ts = unat (tv_sec ts) * 1000000000 + unat (tv_nsec ts)"

lemma sint_small: "unat (x :: u64) < 2 ^ 63 \<Longrightarrow> sint x = int (unat x)"
proof -
  assume "unat x < 2 ^ 63"
  then have "uint x < 2 ^ 63" by (simp add: uint_nat del: of_nat_unat)
  moreover have "signed_take_bit 63 (uint x) = uint x" if "uint x < 2 ^ 63"
    by (rule signed_take_bit_int_eq_self [OF order_trans [OF _ unsigned_greater_eq]]) (use that in simp_all)
  ultimately show ?thesis by (simp add: sint_uint)
qed

lemma nsleep_fields:
  assumes "unat (tv_nsec now) < 1000000000" and "unat us < 2 ^ 50" and "unat (tv_sec now) < 2 ^ 62"
  defines "ns \<equiv> unat (tv_nsec now) + 1000 * unat us"
  shows "unat (tv_nsec (nsleep_us us now)) = (if 1000000000 \<le> ns then ns - 1000000000 else ns)"
    and "unat (tv_sec (nsleep_us us now)) = (if 1000000000 \<le> ns then unat (tv_sec now) + 1 else unat (tv_sec now))"
proof -
  have "ns < 2 ^ 62" using assms(1,2) by (simp add: ns_def)
  moreover have sum: "unat (tv_nsec now + us * 1000) = ns"
    using assms(1,2) by (simp add: unat_word_ariths ns_def mult.commute)
  ultimately have signed: "sint (tv_nsec now + us * 1000) = int ns"
    using sint_small [of "tv_nsec now + us * 1000"] by (simp del: of_nat_unat)
  have minus: "unat (tv_nsec now + us * 1000 - 1000000000) = ns - 1000000000" if "1000000000 \<le> ns"
    using that sum by (subst unat_sub) (simp_all add: word_le_nat_alt)
  have plus: "unat (tv_sec now + 1) = unat (tv_sec now) + 1" using assms(3) by (simp add: unat_word_ariths)
  show "unat (tv_nsec (nsleep_us us now)) = (if 1000000000 \<le> ns then ns - 1000000000 else ns)"
    "unat (tv_sec (nsleep_us us now)) = (if 1000000000 \<le> ns then unat (tv_sec now) + 1 else unat (tv_sec now))"
    using sum minus plus by (simp_all add: nsleep_us_def signed Let_def)
qed

text \<open>The pause is kept exactly as long as its nanoseconds, added to the clock's, stay below two seconds; a
  longer one is refused, and there is no pause at all.\<close>

lemma nsleep_keeps_pause:
  assumes "unat (tv_nsec now) < 1000000000" and "unat us < 2 ^ 50" and "unat (tv_sec now) < 2 ^ 62"
  shows "sleeps (nsleep_us us now) \<longleftrightarrow> unat (tv_nsec now) + 1000 * unat us < 2000000000"
    and "instant (nsleep_us us now) = instant now + 1000 * unat us"
proof -
  let ?ns = "unat (tv_nsec now) + 1000 * unat us"
  note fields = nsleep_fields [OF assms]
  have "?ns < 2 ^ 62" using assms(1,2) by simp
  then have "unat (tv_nsec (nsleep_us us now)) < 2 ^ 63" unfolding fields(1) by (simp split: if_split) arith
  from sint_small [OF this] show "sleeps (nsleep_us us now) \<longleftrightarrow> ?ns < 2000000000"
    unfolding sleeps_def fields(1) by (auto split: if_splits)
  show "instant (nsleep_us us now) = instant now + 1000 * unat us"
    unfolding instant_def fields by (simp split: if_splits)
qed

text \<open>Every pause that can be configured is kept.\<close>

lemma configured_pause_is_kept:
  assumes "unat (tv_nsec now) < 1000000000" and "unat (tv_sec now) < 2 ^ 62"
  shows "sleeps (nsleep_us (ucast (cfg_sleep_time c)) now)"
proof -
  have less: "unat (cfg_sleep_time c) < 2 ^ 16" using unsigned_less [of "cfg_sleep_time c", where 'a = nat] by simp
  then have "unat (ucast (cfg_sleep_time c) :: u64) = unat (cfg_sleep_time c)"
    by (simp add: unsigned_ucast_eq take_bit_nat_eq_self)
  then show ?thesis using less assms nsleep_keeps_pause(1) [of now "ucast (cfg_sleep_time c)"] by simp
qed

end
