(* ===== verification/Orbit_Delivery.thy ===== *)
theory Orbit_Delivery
  imports Orbit_Session
begin

text \<open>
  What reaches a session and what leaves it, over whole runs of the worker thread of
  \<^verbatim>\<open>src/session/session_connection.c\<close>: the turns of \<open>Orbit_Session\<close> iterated.
\<close>

section \<open>Runs of a session worker\<close>

text \<open>The loop of \<open>session_worker\<close> over the nodes its cursor meets; each turn comes with what \<open>realloc\<close>
  returns if the turn calls it. The first component of the result says whether the thread still runs.\<close>

fun session_run ::
    "heap \<Rightarrow> bool \<Rightarrow> ((nat \<Rightarrow> node) option \<times> node) list \<Rightarrow> session_connection_pool \<Rightarrow>
     (bool \<times> session_connection_pool \<times> send list) res" where
  "session_run hp has_cb [] conn = Inr (True, conn, [])"
| "session_run hp has_cb ((grown, cur) # ts) conn =
     and_then (session_worker_turn hp has_cb grown cur conn) (\<lambda>(goes, conn1, sent).
       if goes then and_then (session_run hp has_cb ts conn1) (\<lambda>(goes2, conn2, sent2). Inr (goes2, conn2, sent @ sent2))
       else Inr (False, conn1, sent))"

text \<open>The nodes a session keeps, and the nodes a batch list carries.\<close>

definition kept :: "session_connection_pool \<Rightarrow> node list" where
  "kept conn = (case sp_pool conn of None \<Rightarrow> [] | Some xs \<Rightarrow> take (unat (sp_pool_count conn)) xs)"

definition batched :: "send list \<Rightarrow> node list" where
  "batched sent = concat (map snd sent)"

definition meant_for :: "node \<Rightarrow> node list \<Rightarrow> node list" where
  "meant_for own ns = filter (\<lambda>n. node_cmp (Some n) (Some own) = 0) ns"

lemma batched_simps [simp]: "batched [] = []" "batched (s # ss) = snd s @ batched ss" "batched (ss @ tt) = batched ss @ batched tt"
  by (simp_all add: batched_def)

lemma meant_for_Cons: "meant_for own (n # ns) = meant_for own [n] @ meant_for own ns"
  by (simp add: meant_for_def)

text \<open>The pointer walk of \<open>update_session_counter\<close> over the session's own node: the nodes it meets are
  readable and carry no data, as the nodes of accepted connections do.\<close>

definition walk_ok :: "heap \<Rightarrow> base_cb \<Rightarrow> bool" where
  "walk_ok hp u \<longleftrightarrow> (\<forall>a. cb_node u = Some a \<longrightarrow>
     (\<forall>i < unat (cb_node_count u). \<exists>n. hp_node hp (a + i) = Some n \<and> nd_value_size n = 0))"

text \<open>A running session: an allocated pool of the recorded size that holds fewer than 8520 bytes, all
  packets of at most 1420, and a readable node of its own.\<close>

definition session_ready :: "heap \<Rightarrow> node \<Rightarrow> session_connection_pool \<Rightarrow> bool" where
  "session_ready hp own conn \<longleftrightarrow>
     (\<exists>xs a. sp_pool conn = Some xs \<and> length xs = unat (sp_pool_size conn) \<and> 0 < sp_pool_size conn \<and>
        sp_pool_count conn \<le> sp_pool_size conn \<and>
        get_session_node (sp_session conn) = Some a \<and> hp_node hp a = Some own) \<and>
     walk_ok hp (sp_session conn) \<and> packets (kept conn) \<and> total_size (kept conn) < VALUE_OUTPUT_BUFFER_SIZE"

lemma sum_of_empty_nodes:
  "\<forall>i < k. \<exists>n. store (a + i) = Some n \<and> nd_value_size n = 0 \<Longrightarrow> sum_value_sizes store (Some a) k s = Inr s"
proof (induction k arbitrary: a s)
  case (Suc k)
  obtain n where "store a = Some n" "nd_value_size n = 0" using Suc.prems by fastforce
  moreover have "\<forall>i < k. \<exists>n. store (Suc a + i) = Some n \<and> nd_value_size n = 0" using Suc.prems by fastforce
  ultimately show ?case using Suc.IH by simp
qed simp

lemma counter_settles:
  assumes "walk_ok hp u" and "get_session_node u = Some a"
  shows "update_session_counter hp u = Inr (u\<lparr>cb_node_count := 0\<rparr>)"
proof -
  have "cb_node u = Some a" "cb_proto u \<noteq> proto_none_t" using assms(2) by (auto simp: get_session_node_def split: proto_t.splits)
  then show ?thesis using assms(1) sum_of_empty_nodes [of "unat (cb_node_count u)" "hp_node hp" a 0]
    by (auto simp: update_session_counter_def walk_ok_def split: proto_t.splits)
qed

lemma pointer_of_ready:
  "get_session_node u = Some a \<Longrightarrow> get_session_pointer (Some u) = Inr (cb_linked u)"
  by (auto simp: get_session_node_def get_session_pointer_def split: proto_t.splits)

lemma settled_same [simp]:
  "get_session_node (u\<lparr>cb_node_count := k\<rparr>) = get_session_node u" "walk_ok hp (u\<lparr>cb_node_count := 0\<rparr>)"
  by (cases "cb_proto u"; simp add: get_session_node_def) (simp add: walk_ok_def)

text \<open>Growing keeps what the pool holds and makes room for one more node.\<close>

lemma session_grow_ready:
  assumes "session_ready hp own conn" and "unat (sp_pool_count conn) + 1 < 2 ^ 31"
  shows "\<exists>conn1. session_grow (Some junk) conn = (True, conn1) \<and> session_ready hp own conn1 \<and> kept conn1 = kept conn \<and>
     sp_pool_count conn1 = sp_pool_count conn \<and> sp_session conn1 = sp_session conn \<and>
     sp_pool_count conn1 < sp_pool_size conn1"
proof -
  obtain xs a where xs: "sp_pool conn = Some xs" "length xs = unat (sp_pool_size conn)" "0 < sp_pool_size conn"
    "sp_pool_count conn \<le> sp_pool_size conn" "get_session_node (sp_session conn) = Some a" "hp_node hp a = Some own"
    using assms(1) by (auto simp: session_ready_def)
  have suc: "unat (sp_pool_count conn + 1) = unat (sp_pool_count conn) + 1"
    using assms(2) by (simp add: unat_word_ariths)
  show ?thesis
  proof (cases "sp_pool_size conn < sp_pool_count conn + 1")
    case True
    then have full: "sp_pool_count conn = sp_pool_size conn"
      using xs(4) suc by (simp add: word_less_nat_alt word_le_nat_alt word_unat_eq_iff)
    have twice: "unat (sp_pool_size conn * 2) = 2 * unat (sp_pool_size conn)"
      using assms(2) full by (simp add: unat_word_ariths)
    have pos: "0 < unat (sp_pool_size conn)" using xs(3) by (simp add: word_less_nat_alt)
    let ?ys = "take (unat (sp_pool_size conn * 2)) xs @ map junk [length xs..<unat (sp_pool_size conn * 2)]"
    have grow: "session_grow (Some junk) conn = (True, conn\<lparr>sp_pool_size := sp_pool_size conn * 2, sp_pool := Some ?ys\<rparr>)"
      using True xs(1) by (simp add: session_grow_def Let_def)
    have len: "length ?ys = unat (sp_pool_size conn * 2)" using xs(2) twice by simp
    have keep: "take (unat (sp_pool_count conn)) ?ys = take (unat (sp_pool_count conn)) xs"
      using xs(2) full twice by simp
    have le: "sp_pool_size conn \<le> sp_pool_size conn * 2" "0 < sp_pool_size conn * 2" "sp_pool_size conn < sp_pool_size conn * 2"
      using twice pos by (simp_all add: word_le_nat_alt word_less_nat_alt)
    show ?thesis using assms(1) grow len keep le xs full
      by (auto simp: session_ready_def kept_def)
  next
    case False
    then have "sp_pool_count conn < sp_pool_size conn" using suc by (simp add: word_less_nat_alt)
    then show ?thesis using False assms(1) by (simp add: session_grow_def)
  qed
qed

lemma total_size_append [simp]: "total_size (xs @ ys) = total_size xs + total_size ys"
  by (simp add: total_size_def)

lemma total_size_sort [simp]: "total_size (sort_key f xs) = total_size xs"
  
proof -
  have "mset (map (\<lambda>n. unat (nd_value_size n)) (sort_key f xs)) = mset (map (\<lambda>n. unat (nd_value_size n)) xs)" by simp
  then show ?thesis unfolding total_size_def by (metis sum_mset_sum_list)
qed

lemma packets_parts: "packets (xs @ ys) \<longleftrightarrow> packets xs \<and> packets ys" "packets (sort_key f xs) \<longleftrightarrow> packets xs"
  by (auto simp: packets_def)

text \<open>A batch for the block \<open>u\<close>: between 8520 and 9939 bytes.\<close>

definition batch_for :: "cb_ptr option \<Rightarrow> send \<Rightarrow> bool" where
  "batch_for u s \<longleftrightarrow> fst s = u \<and> VALUE_OUTPUT_BUFFER_SIZE \<le> total_size (snd s) \<and>
     total_size (snd s) < VALUE_OUTPUT_BUFFER_SIZE + VALUE_BUFFER_SIZE"

text \<open>What one step from \<open>conn\<close> to \<open>conn'\<close> that takes in \<open>news\<close> and sends \<open>sent\<close> must satisfy; it
  composes.\<close>

definition conserves :: "heap \<Rightarrow> node \<Rightarrow> session_connection_pool \<Rightarrow> node list \<Rightarrow> session_connection_pool \<Rightarrow> send list \<Rightarrow> bool" where
  "conserves hp own conn news conn' sent \<longleftrightarrow>
     session_ready hp own conn' \<and> cb_linked (sp_session conn') = cb_linked (sp_session conn) \<and>
     (\<forall>s \<in> set sent. batch_for (cb_linked (sp_session conn)) s) \<and>
     mset (batched sent) + mset (kept conn') = mset (kept conn) + mset news \<and>
     (sorted (map nd_arrival (kept conn @ news)) \<longrightarrow> batched sent @ kept conn' = kept conn @ news)"

lemma conserves_trans:
  assumes "conserves hp own c1 ns c2 ss" and "conserves hp own c2 ms c3 tt"
  shows "conserves hp own c1 (ns @ ms) c3 (ss @ tt)"
proof -
  have "batched (ss @ tt) @ kept c3 = kept c1 @ ns @ ms" if sorted: "sorted (map nd_arrival (kept c1 @ ns @ ms))"
  proof -
    have "sorted (map nd_arrival (kept c1 @ ns))" using sorted by (simp add: sorted_append)
    then have first: "batched ss @ kept c2 = kept c1 @ ns" using assms(1) by (simp add: conserves_def)
    then have "sorted (map nd_arrival (batched ss @ kept c2 @ ms))" using sorted by (metis append.assoc)
    then have "sorted (map nd_arrival (kept c2 @ ms))" by (simp add: sorted_append)
    then have "batched tt @ kept c3 = kept c2 @ ms" using assms(2) by (simp add: conserves_def)
    then show ?thesis using first by (metis append.assoc batched_simps(3))
  qed
  moreover have "mset (batched (ss @ tt)) + mset (kept c3) = mset (kept c1) + mset (ns @ ms)"
  proof -
    have "mset (batched (ss @ tt)) + mset (kept c3) = mset (batched ss) + (mset (batched tt) + mset (kept c3))"
      by simp
    also have "\<dots> = (mset (batched ss) + mset (kept c2)) + mset ms" using assms(2) by (simp add: conserves_def)
    also have "\<dots> = (mset (kept c1) + mset ns) + mset ms" using assms(1) by (simp add: conserves_def)
    finally show ?thesis by simp
  qed
  ultimately show ?thesis using assms by (auto simp: conserves_def)
qed

text \<open>The two parts of a queue that is cut at the limit.\<close>

lemma cut_parts:
  assumes "cut_at q k" and "packets q" and "\<not> total_size q < VALUE_OUTPUT_BUFFER_SIZE"
    and "total_size q < VALUE_OUTPUT_BUFFER_SIZE + VALUE_BUFFER_SIZE"
  defines "rest \<equiv> sort_key nd_arrival (drop k q)"
  shows "VALUE_OUTPUT_BUFFER_SIZE \<le> total_size (take k q)" and "total_size (take k q) \<le> total_size q"
    and "total_size rest < VALUE_OUTPUT_BUFFER_SIZE" and "packets rest"
    and "mset (take k q) + mset rest = mset q" and "sorted (map nd_arrival q) \<Longrightarrow> take k q @ rest = q"
proof -
  have parts: "take k q @ drop k q = q" by (rule append_take_drop_id)
  then have sizes: "total_size (take k q) + total_size (drop k q) = total_size q" by (metis total_size_append)
  then show "total_size (take k q) \<le> total_size q" by simp
  show sent: "VALUE_OUTPUT_BUFFER_SIZE \<le> total_size (take k q)" using assms(1,3) by (auto simp: cut_at_def)
  then show "total_size rest < VALUE_OUTPUT_BUFFER_SIZE" using sizes assms(4) by (simp add: rest_def limits)
  have "packets (take k q @ drop k q)" unfolding parts by (rule assms(2))
  then have "packets (drop k q)" by (simp only: packets_parts)
  then show "packets rest" by (simp add: rest_def packets_parts)
  show "mset (take k q) + mset rest = mset q" unfolding rest_def mset_sort mset_append [symmetric] parts ..
  show "take k q @ rest = q" if sorted: "sorted (map nd_arrival q)"
  proof -
    have "sorted (map nd_arrival (take k q @ drop k q))" unfolding parts by (rule sorted)
    then have "sorted (map nd_arrival (drop k q))" by (simp only: map_append sorted_append)
    then show ?thesis by (simp add: rest_def sort_key_id_if_sorted)
  qed
qed

lemma process_conserves:
  assumes "session_ready hp own conn" and "sp_pool_count conn < sp_pool_size conn"
    and "unat (nd_value_size cur) \<le> VALUE_BUFFER_SIZE"
  shows "\<exists>conn' sent. process_session_node hp True cur conn = Inr (conn', sent) \<and>
     conserves hp own conn (meant_for own [cur]) conn' sent \<and> unat (sp_pool_count conn') \<le> Suc (unat (sp_pool_count conn))"
proof -
  obtain xs a where xs: "sp_pool conn = Some xs" "length xs = unat (sp_pool_size conn)" "0 < sp_pool_size conn"
    and own: "get_session_node (sp_session conn) = Some a" "hp_node hp a = Some own"
    using assms(1) by (auto simp: session_ready_def)
  have room: "unat (sp_pool_count conn) < length xs" using assms(2) xs(2) by (simp add: word_less_nat_alt)
  have walk: "walk_ok hp (sp_session conn)" using assms(1) by (simp add: session_ready_def)
  have keep: "kept conn = take (unat (sp_pool_count conn)) xs" by (simp add: kept_def xs(1))
  show ?thesis
  proof (cases "node_cmp (Some cur) (Some own) = 0")
    case False
    then show ?thesis using assms(1) own
      by (intro exI [of _ conn] exI [of _ "[]"]) (simp add: process_session_node_def conserves_def meant_for_def)
  next
    case True
    let ?q = "kept conn @ [cur]"
    have small: "packets ?q" using assms(1,3) by (simp add: session_ready_def packets_def)
    have news: "meant_for own [cur] = [cur]" using True by (simp add: meant_for_def)
    have low: "total_size (kept conn) < VALUE_OUTPUT_BUFFER_SIZE" using assms(1) by (simp add: session_ready_def)
    then have high: "total_size ?q < VALUE_OUTPUT_BUFFER_SIZE + VALUE_BUFFER_SIZE" using assms(3) by (simp add: total_size_def)
    obtain conn' sent pool where run: "process_session_node hp True cur conn = Inr (conn', sent)" "sp_pool conn' = Some pool"
      "length pool = length xs" "sp_pool_size conn' = sp_pool_size conn"
      and split: "if total_size ?q < VALUE_OUTPUT_BUFFER_SIZE
        then sent = [] \<and> unat (sp_pool_count conn') = length ?q \<and> take (unat (sp_pool_count conn')) pool = ?q \<and>
             sp_session conn' = sp_session conn
        else \<exists>k. cut_at ?q k \<and> sent = [(cb_linked (sp_session conn), take k ?q)] \<and>
             unat (sp_pool_count conn') = length ?q - k \<and>
             take (unat (sp_pool_count conn')) pool = sort_key nd_arrival (drop k ?q) \<and>
             sp_session conn' = (sp_session conn)\<lparr>cb_node_count := 0\<rparr>"
      using process_session_node_collects [OF xs(1) room xs(2) own True pointer_of_ready [OF own(1)]
          counter_settles [OF walk own(1)], folded keep, OF small] by metis
    have fits: "length ?q \<le> length xs" using room keep by simp
    have frame: "session_ready hp own conn' \<longleftrightarrow>
        unat (sp_pool_count conn') \<le> length xs \<and> packets (kept conn') \<and> total_size (kept conn') < VALUE_OUTPUT_BUFFER_SIZE"
      if "sp_session conn' = sp_session conn \<or> sp_session conn' = (sp_session conn)\<lparr>cb_node_count := 0\<rparr>"
      using that run(2-4) xs own walk by (auto simp: session_ready_def word_le_nat_alt)
    have keep': "kept conn' = take (unat (sp_pool_count conn')) pool" by (simp add: kept_def run(2))
    show ?thesis
    proof (cases "total_size ?q < VALUE_OUTPUT_BUFFER_SIZE")
      case True
      then have low: "sent = []" "unat (sp_pool_count conn') = length ?q" "kept conn' = ?q" "sp_session conn' = sp_session conn"
        using split keep' by auto
      then have "session_ready hp own conn'" using frame fits small True by simp
      then have "conserves hp own conn (meant_for own [cur]) conn' sent"
        unfolding conserves_def news by (simp add: low)
      moreover have "unat (sp_pool_count conn') \<le> Suc (unat (sp_pool_count conn))" using low(2) room keep by simp
      ultimately show ?thesis using run(1) by blast
    next
      case False
      then obtain k where k: "cut_at ?q k" "sent = [(cb_linked (sp_session conn), take k ?q)]"
        "unat (sp_pool_count conn') = length ?q - k" "kept conn' = sort_key nd_arrival (drop k ?q)"
        "sp_session conn' = (sp_session conn)\<lparr>cb_node_count := 0\<rparr>"
        using split keep' by auto
      note parts = cut_parts [OF k(1) small False high]
      have ready: "session_ready hp own conn'"
        using frame k(3,4,5) parts(3,4) fits by simp
      have msets: "mset (batched sent) + mset (kept conn') = mset (kept conn) + mset [cur]"
        using k(2,4) parts(5) by simp
      have "batched sent @ kept conn' = ?q" if "sorted (map nd_arrival ?q)"
        using k(2,4) parts(6) [OF that] by simp
      moreover have "\<forall>s \<in> set sent. batch_for (cb_linked (sp_session conn)) s"
        using k(2) parts(1,2) high by (simp add: batch_for_def)
      ultimately have "conserves hp own conn (meant_for own [cur]) conn' sent"
        unfolding conserves_def news using ready msets k(5) by simp
      moreover have "unat (sp_pool_count conn') \<le> Suc (unat (sp_pool_count conn))" using k(3) room keep by simp
      ultimately show ?thesis using run(1) by blast
    qed
  qed
qed

lemma turn_conserves:
  assumes "session_ready hp own conn" and "grown \<noteq> None" and "unat (nd_value_size cur) \<le> VALUE_BUFFER_SIZE"
    and "unat (sp_pool_count conn) + 1 < 2 ^ 31"
  shows "\<exists>conn' sent. session_worker_turn hp True grown cur conn = Inr (True, conn', sent) \<and>
     conserves hp own conn (meant_for own [cur]) conn' sent \<and> unat (sp_pool_count conn') \<le> Suc (unat (sp_pool_count conn))"
proof -
  obtain junk where "grown = Some junk" using assms(2) by blast
  then obtain conn1 where grow: "session_grow grown conn = (True, conn1)" "session_ready hp own conn1" "kept conn1 = kept conn"
    "sp_pool_count conn1 = sp_pool_count conn" "sp_session conn1 = sp_session conn" "sp_pool_count conn1 < sp_pool_size conn1"
    using session_grow_ready [OF assms(1,4)] by blast
  obtain conn' sent where run: "process_session_node hp True cur conn1 = Inr (conn', sent)"
    "conserves hp own conn1 (meant_for own [cur]) conn' sent" "unat (sp_pool_count conn') \<le> Suc (unat (sp_pool_count conn1))"
    using process_conserves [OF grow(2,6) assms(3)] by blast
  then have "session_worker_turn hp True grown cur conn = Inr (True, conn', sent)"
    using grow(1) by (simp add: session_worker_turn_def)
  moreover have "conserves hp own conn (meant_for own [cur]) conn' sent"
    using run(2) unfolding conserves_def grow(3,5) .
  ultimately show ?thesis using run(3) grow(4) by auto
qed

lemma run_conserves:
  assumes "session_ready hp own conn"
    and "\<forall>(grown, cur) \<in> set ts. grown \<noteq> None \<and> unat (nd_value_size cur) \<le> VALUE_BUFFER_SIZE"
    and "unat (sp_pool_count conn) + length ts < 2 ^ 31"
  shows "\<exists>conn' sent. session_run hp True ts conn = Inr (True, conn', sent) \<and>
     conserves hp own conn (meant_for own (map snd ts)) conn' sent"
  using assms
proof (induction ts arbitrary: conn)
  case Nil
  then show ?case by (simp add: conserves_def meant_for_def)
next
  case (Cons g ts)
  obtain grown cur where g: "g = (grown, cur)" by fastforce
  obtain conn1 sent1 where turn: "session_worker_turn hp True grown cur conn = Inr (True, conn1, sent1)"
    "conserves hp own conn (meant_for own [cur]) conn1 sent1" "unat (sp_pool_count conn1) \<le> Suc (unat (sp_pool_count conn))"
    using turn_conserves [OF Cons.prems(1), of grown cur] Cons.prems(2,3) g by auto
  have "session_ready hp own conn1" using turn(2) by (simp add: conserves_def)
  then obtain conn2 sent2 where rest: "session_run hp True ts conn1 = Inr (True, conn2, sent2)"
    "conserves hp own conn1 (meant_for own (map snd ts)) conn2 sent2"
    using Cons.IH [of conn1] Cons.prems(2,3) turn(3) by auto
  have "conserves hp own conn (meant_for own (map snd (g # ts))) conn2 (sent1 @ sent2)"
    using conserves_trans [OF turn(2) rest(2)] meant_for_Cons [of own cur "map snd ts"] by (simp add: g)
  moreover have "session_run hp True (g # ts) conn = Inr (True, conn2, sent1 @ sent2)" using turn(1) rest(1) by (simp add: g)
  ultimately show ?case by blast
qed

section \<open>Properties\<close>

text \<open>C11: Over any run of a session's worker no packet is lost, invented or sent twice: what is sent and what
  the pool still holds are together exactly what the pool held and the nodes with the session's key
  that came by, in the same order when they came in order of arrival. Each batch carries between 8520
  and 9939 bytes and goes to the linked block, fewer than 8520 stay, and the run never faults, for
  any sequence of fewer than \<open>2 ^ 31\<close> nodes, as long as \<open>realloc\<close> succeeds.\<close>

theorem session_conserves_packets:
  assumes "session_ready hp own conn"
    and "\<forall>(grown, cur) \<in> set ts. grown \<noteq> None \<and> unat (nd_value_size cur) \<le> VALUE_BUFFER_SIZE"
    and "unat (sp_pool_count conn) + length ts < 2 ^ 31"
  shows "\<exists>conn' sent. session_run hp True ts conn = Inr (True, conn', sent) \<and> session_ready hp own conn' \<and>
     (\<forall>s \<in> set sent. batch_for (cb_linked (sp_session conn)) s) \<and>
     mset (batched sent) + mset (kept conn') = mset (kept conn) + mset (meant_for own (map snd ts)) \<and>
     (sorted (map nd_arrival (kept conn @ meant_for own (map snd ts))) \<longrightarrow>
        batched sent @ kept conn' = kept conn @ meant_for own (map snd ts))"
  using run_conserves [OF assms] unfolding conserves_def by blast

definition full_packet :: node where
  "full_packet = zero_node\<lparr>nd_value_size := 1420\<rparr>"

lemma kept_demo: "kept demo_session = [zero_node]"
  by (simp add: kept_def demo_session_def numeral_3_eq_3)

lemma demo_session_ready: "session_ready demo_heap zero_node demo_session"
  unfolding session_ready_def kept_demo
  by (simp add: demo_session_def demo_heap_def walk_ok_def packets_def total_size_def limits
      get_session_node_def zero_cb_def zero_node_def word_le_nat_alt)

text \<open>Seven packets of 1420 bytes for \<open>demo_session\<close>, whose pool starts with room for three nodes.\<close>

abbreviation demo_input :: "((nat \<Rightarrow> node) option \<times> node) list" where
  "demo_input \<equiv> replicate 7 (Some (\<lambda>_. zero_node), full_packet)"

lemma demo_sizes: "unat (nd_value_size full_packet) = 1420" "unat (nd_value_size zero_node) = 0"
  by (simp_all add: full_packet_def zero_node_def)

lemma demo_turns:
  "\<forall>(grown, cur) \<in> set demo_input. grown \<noteq> None \<and> unat (nd_value_size cur) \<le> VALUE_BUFFER_SIZE"
  "unat (sp_pool_count demo_session) + length demo_input < 2 ^ 31"
  by (simp_all add: demo_sizes limits demo_session_def)

lemma demo_meant: "meant_for zero_node (map snd demo_input) = replicate 7 full_packet"
  by (simp add: meant_for_def cmp3_def full_packet_def zero_node_def)

lemma demo_sorted: "sorted (map nd_arrival (kept demo_session @ meant_for zero_node (map snd demo_input)))"
  unfolding kept_demo demo_meant by (simp add: full_packet_def zero_node_def numeral_nat)

lemma demo_sent:
  assumes "session_ready demo_heap zero_node conn'" and "batched sent @ kept conn' = zero_node # replicate 7 full_packet"
  shows "sent \<noteq> []"
proof
  assume "sent = []"
  then have "kept conn' = zero_node # replicate 7 full_packet" using assms(2) by simp
  then have "total_size (kept conn') = 9940" using demo_sizes by (simp add: total_size_def sum_list_replicate)
  then show False using assms(1) by (simp add: session_ready_def limits)
qed

lemma demo_run: "\<exists>conn' sent. session_run demo_heap True demo_input demo_session = Inr (True, conn', sent) \<and> sent \<noteq> []"
  using run_conserves [OF demo_session_ready demo_turns] demo_sorted demo_sent
  unfolding conserves_def kept_demo demo_meant by auto

theorem session_conserves_packets_witness:
  "\<exists>conn' sent. session_run demo_heap True demo_input demo_session = Inr (True, conn', sent) \<and>
     sent \<noteq> [] \<and> batched sent @ kept conn' = zero_node # replicate 7 full_packet"
  using session_conserves_packets [OF demo_session_ready demo_turns] demo_sorted demo_sent
  unfolding kept_demo demo_meant by auto

end
