(* ===== verification/Orbit_Follow.thy ===== *)
theory Orbit_Follow
  imports Orbit_Session
begin

text \<open>
  The worker of the ring of \<^verbatim>\<open>src/circle_buffer/dmmr_circle_buffer.c\<close> feeding a session whose worker,
  \<^verbatim>\<open>src/session/session_connection.c\<close>, follows the cursor. Neither takes a lock for it: the two are
  interleaved here at each access to the cursor. Copying one entry into its slot and looking at one slot
  are one step each. The configured size of the ring is the one it was started with.
\<close>

section \<open>The two stores of the cursor\<close>

text \<open>\<open>foward_current_node\<close> stores the cursor twice when it wraps: the last slot first, then the first.\<close>

definition cursor_next :: "circle \<Rightarrow> circle res" where
  "cursor_next st =
     and_then (deref Some (ci_cursor st)) (\<lambda>cur.
     and_then (circleq_next (ci_queue st) cur) (\<lambda>next. Inr (st\<lparr>ci_cursor := Some next\<rparr>)))"

definition cursor_wrap :: "circle \<Rightarrow> circle" where
  "cursor_wrap st =
     (if ci_cursor st = Some (circleq_last (ci_queue st)) then st\<lparr>ci_cursor := Some (circleq_first (ci_queue st))\<rparr>
      else st)"

lemma forward_is_two_stores:
  "foward_current_node st = (if ci_this st then and_then (cursor_next st) (\<lambda>st1. Inr (cursor_wrap st1)) else Inr st)"
proof (cases "and_then (deref Some (ci_cursor st)) (circleq_next (ci_queue st))")
  case (Inr q)
  then show ?thesis
    by (auto simp: foward_current_node_def cursor_next_def cursor_wrap_def and_then_Inr_iff)
next
  case (Inl f)
  then show ?thesis by (cases "deref Some (ci_cursor st)") (auto simp: foward_current_node_def cursor_next_def)
qed

section \<open>Following the ring\<close>

text \<open>What \<open>conn->cursor->n\<close> reads.\<close>

definition slot_under :: "circle \<Rightarrow> session_connection_pool \<Rightarrow> slot_content res" where
  "slot_under cb conn =
     (case sp_cursor conn of
        None \<Rightarrow> Inl Null_Deref
      | Some Head \<Rightarrow> Inl Out_Of_Bounds
      | Some (Slot i) \<Rightarrow> if i < length (ci_slots cb) then Inr (ci_slots cb ! i) else Inl Out_Of_Bounds)"

text \<open>The ring's worker copies an entry, stores the next slot in the cursor, and stores the first one if that
  was the last. A session's turn looks at the slot under its cursor; tests whether it must wait, until it
  need not; and steps on. \<open>fs_slips\<close> counts the tests passed on the first slot while the ring's cursor was
  on the last one, between the two stores.\<close>

datatype publishing = Idle | Copied | Stored

datatype following = At_Turn | Looked | Passed

record feed_state =
  fs_ring :: circle
  fs_session :: session_connection_pool
  fs_publishing :: publishing
  fs_following :: following
  fs_seen :: "slot_content list"
  fs_slips :: nat

definition slips :: "feed_state \<Rightarrow> bool" where
  "slips t \<longleftrightarrow> sp_cursor (fs_session t) = Some (circleq_first (ci_queue (fs_ring t))) \<and>
     ci_cursor (fs_ring t) = Some (circleq_last (ci_queue (fs_ring t)))"

text \<open>\<open>fed_by s es t\<close>: from \<open>s\<close>, with the entries \<open>es\<close> copied meanwhile, \<open>t\<close> is reached.\<close>

inductive fed_by :: "feed_state \<Rightarrow> nat list \<Rightarrow> feed_state \<Rightarrow> bool" for s where
  starts: "fed_by s [] s"
| copies: "fed_by s es t \<Longrightarrow> fs_publishing t = Idle \<Longrightarrow> publish_one e (fs_ring t) = Inr cb \<Longrightarrow>
    fed_by s (es @ [e]) (t\<lparr>fs_ring := cb, fs_publishing := Copied\<rparr>)"
| stores: "fed_by s es t \<Longrightarrow> fs_publishing t = Copied \<Longrightarrow> cursor_next (fs_ring t) = Inr cb \<Longrightarrow>
    fed_by s es (t\<lparr>fs_ring := cb, fs_publishing := Stored\<rparr>)"
| wraps: "fed_by s es t \<Longrightarrow> fs_publishing t = Stored \<Longrightarrow>
    fed_by s es (t\<lparr>fs_ring := cursor_wrap (fs_ring t), fs_publishing := Idle\<rparr>)"
| looks: "fed_by s es t \<Longrightarrow> fs_following t = At_Turn \<Longrightarrow> slot_under (fs_ring t) (fs_session t) = Inr x \<Longrightarrow>
    fed_by s es (t\<lparr>fs_following := Looked, fs_seen := fs_seen t @ [x]\<rparr>)"
| tests: "fed_by s es t \<Longrightarrow> fs_following t = Looked \<Longrightarrow> session_waits (fs_ring t) (fs_session t) = Inr False \<Longrightarrow>
    fed_by s es (t\<lparr>fs_following := Passed, fs_slips := fs_slips t + of_bool (slips t)\<rparr>)"
| moves: "fed_by s es t \<Longrightarrow> fs_following t = Passed \<Longrightarrow>
    session_advance (fs_ring t) (fs_session t) = Inr (goes, conn) \<Longrightarrow>
    fed_by s es (t\<lparr>fs_session := conn, fs_following := At_Turn\<rparr>)"

text \<open>The number of slots the session has left behind it.\<close>

definition slots_left :: "feed_state \<Rightarrow> nat" where
  "slots_left t = length (fs_seen t) - of_bool (fs_following t \<noteq> At_Turn)"

text \<open>A ring of \<open>n\<close> slots after \<open>es\<close> were copied into it since its start: every slot of the walk holds
  the last entry copied to it.\<close>

definition slots_hold :: "nat \<Rightarrow> nat list \<Rightarrow> circle \<Rightarrow> bool" where
  "slots_hold n es cb \<longleftrightarrow> 2 \<le> n \<and> ci_this cb \<and> ci_queue cb = [0..<n] \<and> length (ci_slots cb) = n \<and>
     (\<exists>cfg. ci_cfg cb = Some cfg \<and> n = unat (cfg_circle_buffer_size cfg)) \<and>
     (\<forall>j < length es. length es \<le> j + (n - 1) \<longrightarrow> ci_slots cb ! (j mod (n - 1)) = Bytes_At (es ! j)) \<and>
     (\<forall>i < n - 1. length es \<le> i \<longrightarrow> ci_slots cb ! i = Node zero_node)"

definition ring_holds :: "nat \<Rightarrow> nat list \<Rightarrow> circle \<Rightarrow> bool" where
  "ring_holds n es cb \<longleftrightarrow> slots_hold n es cb \<and> ci_cursor cb = Some (Slot (length es mod (n - 1)))"

text \<open>The \<open>k\<close>-th look found the slot still empty, in the first lap, or entry \<open>j\<close> of the same slot, at most
  \<open>lag\<close> steps older.\<close>

definition sees :: "nat \<Rightarrow> nat \<Rightarrow> nat list \<Rightarrow> nat \<Rightarrow> slot_content \<Rightarrow> bool" where
  "sees m lag es k x \<longleftrightarrow> k < m \<and> x = Node zero_node \<or>
     (\<exists>j < length es. j mod m = k mod m \<and> k \<le> j + lag \<and> x = Bytes_At (es ! j))"

lemma sees_more: "sees m lag es k x \<Longrightarrow> sees m lag (es @ [e]) k x"
  unfolding sees_def by (metis length_append_singleton less_Suc_eq nth_append)

lemma sees_lag: "sees m lag es k x \<Longrightarrow> lag \<le> lag' \<Longrightarrow> sees m lag' es k x"
  unfolding sees_def by (metis add_le_cancel_left le_trans)

section \<open>One step of the ring\<close>

lemma slots_hold_cursor [simp]: "slots_hold n es (cb\<lparr>ci_cursor := c\<rparr>) = slots_hold n es cb"
  by (simp add: slots_hold_def)

lemma copy_holds:
  assumes "ring_holds n es cb"
  shows "\<exists>cb'. publish_one e cb = Inr cb' \<and> slots_hold n (es @ [e]) cb' \<and> ci_cursor cb' = Some (Slot (length es mod (n - 1)))"
proof -
  let ?m = "n - 1" and ?c = "length es mod (n - 1)"
  have n: "2 \<le> n" and c: "?c < ?m" and len: "length (ci_slots cb) = n" using assms by (auto simp: ring_holds_def slots_hold_def)
  define cb1 where "cb1 = cb\<lparr>ci_slots := (ci_slots cb)[?c := Bytes_At e]\<rparr>"
  have one: "publish_one e cb = Inr cb1"
    using assms by (simp add: publish_one_def get_current_node_inline_def ring_holds_def slots_hold_def cb1_def)
  have "ci_slots cb1 ! (j mod ?m) = Bytes_At ((es @ [e]) ! j)"
    if j: "j < Suc (length es)" "Suc (length es) \<le> j + ?m" for j
  proof (cases "j = length es")
    case True
    then show ?thesis using c len by (simp add: cb1_def)
  next
    case False
    then have "j mod ?m \<noteq> ?c" using mod_neq_within [of j "length es" ?m 0] j by simp
    moreover have "ci_slots cb ! (j mod ?m) = Bytes_At (es ! j)" using assms j False by (simp add: ring_holds_def slots_hold_def)
    ultimately show ?thesis using False j by (simp add: cb1_def nth_append)
  qed
  moreover have "ci_slots cb1 ! i = Node zero_node" if i: "i < ?m" "Suc (length es) \<le> i" for i
    using assms i by (simp add: ring_holds_def slots_hold_def cb1_def)
  ultimately have "slots_hold n (es @ [e]) cb1" using assms unfolding ring_holds_def slots_hold_def by (simp add: cb1_def)
  then show ?thesis using one assms by (auto simp: cb1_def ring_holds_def)
qed

lemma store_in_ring:
  assumes "slots_hold n es cb" and "ci_cursor cb = Some (Slot c)" and "c < n - 1"
  shows "cursor_next cb = Inr (cb\<lparr>ci_cursor := Some (Slot (Suc c))\<rparr>)"
  using assms step_in_ring(1) [of n c] by (simp add: cursor_next_def slots_hold_def deref_def)

lemma wrap_in_ring:
  assumes "slots_hold n es cb" and "ci_cursor cb = Some (Slot (Suc c))" and "c < n - 1"
  shows "slots_hold n es (cursor_wrap cb)" "ci_cursor (cursor_wrap cb) = Some (Slot (Suc c mod (n - 1)))"
  using assms step_in_ring(2) [of n c] by (auto simp: cursor_wrap_def slots_hold_def split: if_splits)

lemma ring_holds_publish:
  assumes "ring_holds n es cb"
  shows "\<exists>cb'. publish [e] cb = Inr cb' \<and> ring_holds n (es @ [e]) cb'"
proof -
  let ?c = "length es mod (n - 1)"
  have c: "?c < n - 1" using assms by (auto simp: ring_holds_def slots_hold_def)
  obtain cb1 where cb1: "publish_one e cb = Inr cb1" "slots_hold n (es @ [e]) cb1" "ci_cursor cb1 = Some (Slot ?c)"
    using copy_holds [OF assms] by blast
  let ?cb2 = "cb1\<lparr>ci_cursor := Some (Slot (Suc ?c))\<rparr>"
  have "foward_current_node cb1 = Inr (cursor_wrap ?cb2)"
    using store_in_ring [OF cb1(2,3) c] cb1(2) by (simp add: forward_is_two_stores slots_hold_def)
  moreover have "ring_holds n (es @ [e]) (cursor_wrap ?cb2)"
    using wrap_in_ring [of n "es @ [e]" ?cb2 ?c] cb1(2) c by (simp add: ring_holds_def mod_Suc_eq)
  ultimately show ?thesis using cb1(1) by simp
qed

text \<open>The slot \<open>r\<close> steps on, with \<open>r\<close> not ahead of the entries.\<close>

lemma slots_hold_sees:
  assumes "slots_hold n es cb" and "r \<le> length es"
  shows "length es \<le> r \<and> r < n - 1 \<and> ci_slots cb ! (r mod (n - 1)) = Node zero_node \<or>
     (\<exists>j < length es. j mod (n - 1) = r mod (n - 1) \<and> r \<le> j + (n - 1) \<and> ci_slots cb ! (r mod (n - 1)) = Bytes_At (es ! j))"
proof -
  let ?m = "n - 1" and ?w = "length es"
  have m: "0 < ?m" using assms(1) by (auto simp: slots_hold_def)
  have held: "?thesis" if "j < ?w" "?w \<le> j + ?m" "j mod ?m = r mod ?m" "r \<le> j + ?m" for j
    using assms(1) that unfolding slots_hold_def by metis
  show ?thesis
  proof (cases "r < ?w")
    case True
    let ?j = "?w - 1 - (?w - 1 - r) mod ?m"
    have le: "(?w - 1 - r) mod ?m \<le> ?w - 1 - r" "(?w - 1 - r) mod ?m < ?m" using m by simp_all
    have "?j = r + ((?w - 1 - r) div ?m) * ?m"
      using True minus_mod_eq_div_mult [of "?w - 1 - r" ?m] le(1) by linarith
    then have "?j mod ?m = r mod ?m" by simp
    then show ?thesis using True le by (intro held [of ?j]) linarith+
  next
    case False
    then have w: "?w = r" using assms(2) by simp
    show ?thesis
    proof (cases "r < ?m")
      case True
      then show ?thesis using assms(1) w by (simp add: slots_hold_def)
    next
      case False
      then show ?thesis using w m by (intro held [of "r - ?m"]) (auto simp: mod_if le_mod_geq)
    qed
  qed
qed

lemma waits_in_slots:
  assumes "slots_hold n es cb" and "ci_cursor cb = Some (Slot k)" and "k < n" and "sp_cursor conn = Some (Slot c)" and "c < n"
  shows "session_waits cb conn = Inr (c = k)"
  using assms is_behind_means_not_cursor [of cb n k _ c] by (auto simp: slots_hold_def session_waits_def ring_def)

lemma waits_in_ring:
  assumes "ring_holds n es cb" and "sp_cursor conn = Some (Slot c)" and "c < n"
  shows "session_waits cb conn = Inr (c = length es mod (n - 1))"
proof -
  have "length es mod (n - 1) < n"
    using assms(1) by (auto simp: ring_holds_def slots_hold_def intro: less_le_trans [OF mod_less_divisor])
  then show ?thesis using waits_in_slots [of n es cb] assms by (auto simp: ring_holds_def)
qed

lemma advance_in_ring:
  assumes "slots_hold n es cb" and "sp_cursor conn = Some (Slot c)" and "c < n - 1"
  shows "session_advance cb conn = Inr (sp_run conn, conn\<lparr>sp_cursor := Some (Slot (Suc c mod (n - 1)))\<rparr>)"
  using assms iterate_in_ring [of n c] by (auto simp: session_advance_def slots_hold_def)

section \<open>Every step keeps the session behind\<close>

definition cursor_at :: "nat \<Rightarrow> nat \<Rightarrow> publishing \<Rightarrow> nat" where
  "cursor_at m w ph = (case ph of Idle \<Rightarrow> w mod m | Copied \<Rightarrow> (w - 1) mod m | Stored \<Rightarrow> Suc ((w - 1) mod m))"

text \<open>The session, counting a passed test as a step, is \<open>v\<close> steps on its way after \<open>p\<close> laps gained by slips, and
  \<open>v\<close> is not ahead of the ring.\<close>

definition behind :: "nat \<Rightarrow> nat \<Rightarrow> feed_state \<Rightarrow> bool" where
  "behind m w t \<longleftrightarrow> (\<exists>p v. p \<le> fs_slips t \<and> slots_left t + of_bool (fs_following t = Passed) = v + m * p \<and>
     v + of_bool (fs_publishing t = Copied) \<le> w \<and> (0 < p \<longrightarrow> m \<le> w))"

definition ring_part :: "nat \<Rightarrow> nat list \<Rightarrow> feed_state \<Rightarrow> bool" where
  "ring_part n es t \<longleftrightarrow> slots_hold n es (fs_ring t) \<and> (fs_publishing t \<noteq> Idle \<longrightarrow> es \<noteq> []) \<and>
     ci_cursor (fs_ring t) = Some (Slot (cursor_at (n - 1) (length es) (fs_publishing t)))"

definition session_part :: "nat \<Rightarrow> feed_state \<Rightarrow> bool" where
  "session_part n t \<longleftrightarrow> sp_cursor (fs_session t) = Some (Slot (slots_left t mod (n - 1))) \<and>
     (fs_following t \<noteq> At_Turn \<longrightarrow> fs_seen t \<noteq> [])"

definition seen_part :: "nat \<Rightarrow> nat list \<Rightarrow> feed_state \<Rightarrow> bool" where
  "seen_part n es t \<longleftrightarrow> (\<forall>k < length (fs_seen t). sees (n - 1) ((n - 1) * Suc (fs_slips t)) es k (fs_seen t ! k))"

definition follows :: "nat \<Rightarrow> nat list \<Rightarrow> feed_state \<Rightarrow> bool" where
  "follows n es t \<longleftrightarrow> ring_part n es t \<and> session_part n t \<and> behind (n - 1) (length es) t \<and> seen_part n es t"

lemma ring_part_bounds:
  assumes "ring_part n es t"
  shows "0 < n - 1" "cursor_at (n - 1) (length es) (fs_publishing t) < n"
proof -
  show m: "0 < n - 1" using assms by (auto simp: ring_part_def slots_hold_def)
  then have "x mod (n - 1) < n - 1" for x by simp
  then show "cursor_at (n - 1) (length es) (fs_publishing t) < n"
    by (auto simp: cursor_at_def less_diff_conv intro: less_trans split: publishing.split)
qed

lemma session_tests:
  assumes "ring_part n es t" and "session_part n t"
  shows "session_waits (fs_ring t) (fs_session t) =
     Inr (slots_left t mod (n - 1) = cursor_at (n - 1) (length es) (fs_publishing t))"
proof -
  have "slots_left t mod (n - 1) < n" using ring_part_bounds(1) [OF assms(1)] by (auto intro: less_le_trans [OF mod_less_divisor])
  then show ?thesis using waits_in_slots ring_part_bounds(2) [OF assms(1)] assms
    unfolding ring_part_def session_part_def by metis
qed

lemma session_moves:
  assumes "ring_part n es t" and "session_part n t"
  shows "session_advance (fs_ring t) (fs_session t) =
     Inr (sp_run (fs_session t), (fs_session t)\<lparr>sp_cursor := Some (Slot (Suc (slots_left t) mod (n - 1)))\<rparr>)"
  using advance_in_ring [of n es "fs_ring t" "fs_session t" "slots_left t mod (n - 1)"] assms ring_part_bounds(1) [OF assms(1)]
  by (simp add: ring_part_def session_part_def mod_Suc_eq)

lemma session_sees_slot:
  assumes "ring_part n es t" and "session_part n t"
  shows "slot_under (fs_ring t) (fs_session t) = Inr (ci_slots (fs_ring t) ! (slots_left t mod (n - 1)))"
proof -
  have "slots_left t mod (n - 1) < n" using ring_part_bounds(1) [OF assms(1)] by (auto intro: less_le_trans [OF mod_less_divisor])
  then show ?thesis using assms by (simp add: slot_under_def ring_part_def session_part_def slots_hold_def)
qed

lemma ring_moves:
  assumes "ring_part n es t"
  shows "fs_publishing t = Idle \<Longrightarrow> \<exists>cb. publish_one e (fs_ring t) = Inr cb \<and>
       ring_part n (es @ [e]) (t\<lparr>fs_ring := cb, fs_publishing := Copied\<rparr>)"
    and "fs_publishing t = Copied \<Longrightarrow> \<exists>cb. cursor_next (fs_ring t) = Inr cb \<and>
       ring_part n es (t\<lparr>fs_ring := cb, fs_publishing := Stored\<rparr>)"
    and "fs_publishing t = Stored \<Longrightarrow> ring_part n es (t\<lparr>fs_ring := cursor_wrap (fs_ring t), fs_publishing := Idle\<rparr>)"
proof -
  let ?m = "n - 1" and ?w = "length es"
  have m: "(?w - 1) mod ?m < ?m" using ring_part_bounds(1) [OF assms] by simp
  show "\<exists>cb. publish_one e (fs_ring t) = Inr cb \<and> ring_part n (es @ [e]) (t\<lparr>fs_ring := cb, fs_publishing := Copied\<rparr>)"
    if "fs_publishing t = Idle"
    using copy_holds [of n es "fs_ring t" e] assms that by (auto simp: ring_part_def ring_holds_def cursor_at_def)
  show "\<exists>cb. cursor_next (fs_ring t) = Inr cb \<and> ring_part n es (t\<lparr>fs_ring := cb, fs_publishing := Stored\<rparr>)"
    if "fs_publishing t = Copied"
    using store_in_ring [OF _ _ m, of es "fs_ring t"] assms that by (auto simp: ring_part_def cursor_at_def)
  show "ring_part n es (t\<lparr>fs_ring := cursor_wrap (fs_ring t), fs_publishing := Idle\<rparr>)" if "fs_publishing t = Stored"
  proof -
    have "Suc (?w - 1) = ?w" using assms that by (auto simp: ring_part_def)
    then have "Suc ((?w - 1) mod ?m) mod ?m = ?w mod ?m" by (simp add: mod_Suc_eq)
    then show ?thesis using wrap_in_ring [OF _ _ m, of es "fs_ring t"] assms that by (auto simp: ring_part_def cursor_at_def)
  qed
qed

text \<open>The only step that matters to \<open>behind\<close>: a test passed at the head of the entries is a slip.\<close>

lemma test_keeps_behind:
  assumes ring: "ring_part n es t" and session: "session_part n t" and beh: "behind (n - 1) (length es) t"
    and looked: "fs_following t = Looked" and pass: "session_waits (fs_ring t) (fs_session t) = Inr False"
  shows "behind (n - 1) (length es) (t\<lparr>fs_following := Passed, fs_slips := fs_slips t + of_bool (slips t)\<rparr>)"
    (is "behind ?m ?w ?t'")
proof -
  obtain p v where pv: "p \<le> fs_slips t" "slots_left t = v + ?m * p" "v + of_bool (fs_publishing t = Copied) \<le> ?w" "0 < p \<longrightarrow> ?m \<le> ?w"
    using beh looked by (auto simp: behind_def)
  have left: "slots_left ?t' = slots_left t" using looked by (simp add: slots_left_def)
  have m: "0 < ?m" by (rule ring_part_bounds(1) [OF ring])
  have apart: "v mod ?m \<noteq> cursor_at ?m ?w (fs_publishing t)" using pass session_tests [OF ring session] pv(2) by auto
  show ?thesis
  proof (cases "Suc v + of_bool (fs_publishing t = Copied) \<le> ?w")
    case True
    then show ?thesis unfolding behind_def left using pv by (intro exI [of _ p] exI [of _ "Suc v"]) simp
  next
    case False
    have stored: "fs_publishing t = Stored"
    proof (cases "fs_publishing t")
      case Idle
      then have "v = ?w" using False pv(3) by simp
      then show ?thesis using Idle apart by (simp add: cursor_at_def)
    next
      case Copied
      then have "v = ?w - 1" using False pv(3) by simp
      then show ?thesis using Copied apart by (simp add: cursor_at_def)
    qed
    then have v: "v = ?w" using False pv(3) by simp
    have w: "?w \<noteq> 0" using ring stored by (simp add: ring_part_def)
    have Suc: "Suc (?w - 1) = ?w" using w by simp
    then have wrap: "?w mod ?m = (if Suc ((?w - 1) mod ?m) = ?m then 0 else Suc ((?w - 1) mod ?m))" by (metis mod_Suc)
    then have last: "Suc ((?w - 1) mod ?m) = ?m" "?w mod ?m = 0" using apart stored v by (auto simp: cursor_at_def split: if_splits)
    have "n = Suc ?m" using m by simp
    then have q: "circleq_first [0..<n] = Slot 0" "circleq_last [0..<n] = Slot ?m" using m
      by (simp_all add: circleq_first_def circleq_last_def)
    have slip: "slips t" using ring session last stored pv(2) v q
      by (simp add: slips_def ring_part_def session_part_def slots_hold_def cursor_at_def)
    have "?m \<le> ?w" using last(2) w by (auto simp: dvd_eq_mod_eq_0 [symmetric] intro: dvd_imp_le)
    moreover from this have "Suc (slots_left t) = (Suc v - ?m) + ?m * Suc p" "Suc v - ?m \<le> ?w"
      using pv(2) v m unfolding mult_Suc_right by linarith+
    ultimately show ?thesis unfolding behind_def left using pv(1) slip stored
      by (intro exI [of _ "Suc p"] exI [of _ "Suc v - ?m"] conjI) simp_all
  qed
qed

lemma look_sees:
  assumes ring: "ring_part n es t" and beh: "behind (n - 1) (length es) t" and turn: "fs_following t = At_Turn"
  shows "sees (n - 1) ((n - 1) * Suc (fs_slips t)) es (slots_left t) (ci_slots (fs_ring t) ! (slots_left t mod (n - 1)))"
proof -
  let ?m = "n - 1" and ?w = "length es"
  obtain p v where pv: "p \<le> fs_slips t" "slots_left t = v + ?m * p" "v \<le> ?w" "0 < p \<longrightarrow> ?m \<le> ?w"
  proof -
    obtain p v where "p \<le> fs_slips t" "slots_left t + of_bool (fs_following t = Passed) = v + ?m * p"
      "v + of_bool (fs_publishing t = Copied) \<le> ?w" "0 < p \<longrightarrow> ?m \<le> ?w"
      using beh unfolding behind_def by blast
    then show thesis using that [of p v] turn add_leD1 by simp
  qed
  have at: "slots_left t mod ?m = v mod ?m" using pv(2) by simp
  have gain: "?m * p \<le> ?m * fs_slips t" using pv(1) by simp
  have "slots_hold n es (fs_ring t)" using ring by (simp add: ring_part_def)
  from slots_hold_sees [OF this pv(3)] show ?thesis
  proof
    assume empty: "?w \<le> v \<and> v < ?m \<and> ci_slots (fs_ring t) ! (v mod ?m) = Node zero_node"
    then have "p = 0" "v mod ?m = v" using pv(3,4) by auto
    then show ?thesis using empty pv(2) by (simp add: sees_def)
  next
    assume "\<exists>j < ?w. j mod ?m = v mod ?m \<and> v \<le> j + ?m \<and> ci_slots (fs_ring t) ! (v mod ?m) = Bytes_At (es ! j)"
    then obtain j where j: "j < ?w" "j mod ?m = v mod ?m" "v \<le> j + ?m" "ci_slots (fs_ring t) ! (v mod ?m) = Bytes_At (es ! j)" by blast
    have "slots_left t \<le> j + ?m * Suc (fs_slips t)" using j(3) pv(2) gain unfolding mult_Suc_right by linarith
    then show ?thesis using j at unfolding sees_def by auto
  qed
qed

lemma follows_invariant:
  assumes "fed_by s es t" and "follows n [] s"
  shows "follows n es t"
  using assms
proof (induction rule: fed_by.induct)
  case (copies es t e cb)
  then have inv: "follows n es t" by simp
  have "ring_part n (es @ [e]) (t\<lparr>fs_ring := cb, fs_publishing := Copied\<rparr>)"
    using ring_moves(1) [of n es t e] inv copies(2,3) by (auto simp: follows_def)
  then show ?case using inv copies(2)
    by (auto simp: follows_def session_part_def slots_left_def behind_def seen_part_def sees_more)
next
  case (stores es t cb)
  then have inv: "follows n es t" by simp
  have "ring_part n es (t\<lparr>fs_ring := cb, fs_publishing := Stored\<rparr>)"
    using ring_moves(2) [of n es t] inv stores(2,3) by (auto simp: follows_def)
  moreover have "behind (n - 1) (length es) (t\<lparr>fs_ring := cb, fs_publishing := Stored\<rparr>)"
    using inv by (fastforce simp: follows_def behind_def slots_left_def)
  ultimately show ?case using inv by (auto simp: follows_def session_part_def slots_left_def seen_part_def)
next
  case (wraps es t)
  then have inv: "follows n es t" by simp
  have "ring_part n es (t\<lparr>fs_ring := cursor_wrap (fs_ring t), fs_publishing := Idle\<rparr>)"
    using ring_moves(3) [of n es t] inv wraps(2) by (simp add: follows_def)
  moreover have "behind (n - 1) (length es) (t\<lparr>fs_ring := cursor_wrap (fs_ring t), fs_publishing := Idle\<rparr>)"
    using inv wraps(2) by (simp add: follows_def behind_def slots_left_def)
  ultimately show ?case using inv by (auto simp: follows_def session_part_def slots_left_def seen_part_def)
next
  case (looks es t x)
  then have inv: "follows n es t" by simp
  then have x: "x = ci_slots (fs_ring t) ! (slots_left t mod (n - 1))"
    using looks(3) session_sees_slot [of n es t] by (simp add: follows_def)
  have left: "slots_left t = length (fs_seen t)" using looks(2) by (simp add: slots_left_def)
  have "sees (n - 1) ((n - 1) * Suc (fs_slips t)) es (length (fs_seen t)) x"
    using look_sees [of n es t] inv looks(2) unfolding x left [symmetric] by (simp add: follows_def)
  then have "seen_part n es (t\<lparr>fs_following := Looked, fs_seen := fs_seen t @ [x]\<rparr>)"
    using inv by (auto simp: follows_def seen_part_def nth_append less_Suc_eq)
  then show ?case using inv looks(2) left
    by (auto simp: follows_def session_part_def slots_left_def ring_part_def behind_def)
next
  case (tests es t)
  then have inv: "follows n es t" by simp
  let ?t' = "t\<lparr>fs_following := Passed, fs_slips := fs_slips t + of_bool (slips t)\<rparr>"
  have "behind (n - 1) (length es) ?t'" using test_keeps_behind inv tests(2,3) by (simp add: follows_def)
  moreover have "seen_part n es ?t'" using inv sees_lag by (fastforce simp: follows_def seen_part_def)
  ultimately show ?case using inv tests(2) by (simp add: follows_def ring_part_def session_part_def slots_left_def)
next
  case (moves es t goes conn)
  then have inv: "follows n es t" by simp
  have conn: "conn = (fs_session t)\<lparr>sp_cursor := Some (Slot (Suc (slots_left t) mod (n - 1)))\<rparr>"
    using moves(3) session_moves [of n es t] inv by (simp add: follows_def)
  have left: "slots_left (t\<lparr>fs_session := c, fs_following := At_Turn\<rparr>) = Suc (slots_left t)" for c
    using inv moves(2) by (cases "fs_seen t") (auto simp: slots_left_def follows_def session_part_def)
  have "behind (n - 1) (length es) (t\<lparr>fs_session := conn, fs_following := At_Turn\<rparr>)"
    using inv moves(2) unfolding behind_def left follows_def by simp
  then show ?case using inv by (simp add: follows_def ring_part_def session_part_def left conn seen_part_def)
qed simp

text \<open>A session opened on a ring that just started: its cursor is the ring's.\<close>

definition joins :: "circle \<Rightarrow> session_connection_pool \<Rightarrow> feed_state" where
  "joins cb conn = \<lparr>fs_ring = cb, fs_session = conn\<lparr>sp_cursor := get_current_node_inline cb\<rparr>, fs_publishing = Idle,
     fs_following = At_Turn, fs_seen = [], fs_slips = 0\<rparr>"

lemma joins_holds:
  assumes "start_circle True st = Inr (0, cb)" and "ci_this st" and "ci_cfg st = Some cfg"
    and "n = unat (cfg_circle_buffer_size cfg)" and "2 \<le> n"
  shows "ring_holds n [] cb" "sp_cursor (fs_session (joins cb conn)) = Some (Slot 0)"
proof -
  have "ring cb n 0 \<and> ci_slots cb = replicate n (Node zero_node) \<and> ci_cfg cb = Some cfg"
    using start_ring [OF assms(2-4)] assms(1,5) by auto
  then show "ring_holds n [] cb" "sp_cursor (fs_session (joins cb conn)) = Some (Slot 0)" using assms(4,5)
    by (auto simp: ring_holds_def slots_hold_def joins_def get_current_node_inline_def ring_def)
qed

lemma joins_follows:
  assumes "start_circle True st = Inr (0, cb)" and "ci_this st" and "ci_cfg st = Some cfg"
    and "n = unat (cfg_circle_buffer_size cfg)" and "2 \<le> n"
  shows "follows n [] (joins cb conn)"
  using joins_holds(1) [OF assms] joins_holds(2) [OF assms, of conn]
  by (simp add: follows_def ring_part_def session_part_def behind_def seen_part_def slots_left_def joins_def ring_holds_def cursor_at_def)

text \<open>The schedule of a session that keeps up: it has looked at the slot under the ring's cursor and
  waits; each publication lets it take one step, after which it waits again. The result is what it
  looked at.\<close>

fun keeps_up :: "nat list \<Rightarrow> circle \<Rightarrow> session_connection_pool \<Rightarrow> slot_content list res" where
  "keeps_up es cb conn =
     and_then (slot_under cb conn) (\<lambda>x.
     and_then (session_waits cb conn) (\<lambda>waiting.
       if \<not> waiting then Inl No_Return
       else (case es of
          [] \<Rightarrow> Inr [x]
        | e # es' \<Rightarrow>
           and_then (publish [e] cb) (\<lambda>cb1.
           and_then (session_waits cb1 conn) (\<lambda>waiting1.
             if waiting1 then Inl No_Return
             else and_then (session_advance cb1 conn) (\<lambda>(goes, conn1).
                  and_then (keeps_up es' cb1 conn1) (\<lambda>xs. Inr (x # xs))))))))"

declare keeps_up.simps [simp del]

text \<open>The slot the ring writes next, after \<open>es\<close>.\<close>

definition next_slot :: "nat \<Rightarrow> nat list \<Rightarrow> slot_content" where
  "next_slot m es = (if length es < m then Node zero_node else Bytes_At (es ! (length es - m)))"

lemma ring_holds_next:
  assumes "ring_holds n es cb"
  shows "ci_slots cb ! (length es mod (n - 1)) = next_slot (n - 1) es"
proof (cases "length es < n - 1")
  case True
  then show ?thesis using assms by (simp add: ring_holds_def slots_hold_def next_slot_def)
next
  case False
  let ?j = "length es - (n - 1)"
  have m: "0 < n - 1" using assms by (auto simp: ring_holds_def slots_hold_def)
  then have "?j < length es" "length es \<le> ?j + (n - 1)" "length es mod (n - 1) = ?j mod (n - 1)"
    using False by (auto simp: le_mod_geq)
  then show ?thesis using assms False by (auto simp: ring_holds_def slots_hold_def next_slot_def)
qed

lemma keeps_up_lags:
  assumes "ring_holds n ds cb" and "3 \<le> n" and "sp_cursor conn = Some (Slot (length ds mod (n - 1)))"
  shows "keeps_up es cb conn = Inr (map (\<lambda>i. next_slot (n - 1) (ds @ take i es)) [0..<Suc (length es)])"
  using assms(1,3)
proof (induction es arbitrary: ds cb conn)
  case (Cons e es)
  let ?c = "length ds mod (n - 1)"
  have c: "?c < n - 1" "?c < n" "?c < length (ci_slots cb)" using Cons(2) assms(2)
    by (auto simp: ring_holds_def slots_hold_def intro: less_le_trans [OF mod_less_divisor])
  obtain cb1 where cb1: "publish [e] cb = Inr cb1" "ring_holds n (ds @ [e]) cb1" using ring_holds_publish [OF Cons(2)] by blast
  have "?c \<noteq> length (ds @ [e]) mod (n - 1)"
    using mod_neq_within [of "length ds" "Suc (length ds)" "n - 1" 0] assms(2) by simp
  then have "session_waits cb1 conn = Inr False" using waits_in_ring [OF cb1(2) Cons(3) c(2)] by simp
  moreover have "session_waits cb conn = Inr True" using waits_in_ring [OF Cons(2,3) c(2)] by simp
  moreover have "slot_under cb conn = Inr (next_slot (n - 1) ds)"
    using Cons(3) c ring_holds_next [OF Cons(2)] by (simp add: slot_under_def)
  moreover obtain conn1 where "session_advance cb1 conn = Inr (sp_run conn, conn1)"
    "sp_cursor conn1 = Some (Slot (length (ds @ [e]) mod (n - 1)))"
    using advance_in_ring [OF _ Cons(3) c(1), of "ds @ [e]" cb1] cb1(2) by (simp add: mod_Suc_eq ring_holds_def)
  moreover from this have "keeps_up es cb1 conn1 = Inr (map (\<lambda>i. next_slot (n - 1) ((ds @ [e]) @ take i es)) [0..<Suc (length es)])"
    using Cons.IH [OF cb1(2)] by blast
  ultimately show ?case using cb1(1)
    by (simp add: keeps_up.simps [of "e # es"] upt_conv_Cons [of 0 "Suc (Suc (length es))"] map_Suc_upt [symmetric] comp_def
        del: upt_Suc)
next
  case Nil
  let ?c = "length ds mod (n - 1)"
  have c: "?c < n" "?c < length (ci_slots cb)" using Nil(1) assms(2)
    by (auto simp: ring_holds_def slots_hold_def intro: less_le_trans [OF mod_less_divisor])
  then show ?case using Nil(2) ring_holds_next [OF Nil(1)] waits_in_ring [OF Nil(1,2)]
    by (simp add: keeps_up.simps slot_under_def)
qed

section \<open>Properties\<close>

text \<open>C12: A session that follows a started ring, its test and its steps interleaved in any way with the ring's
  copies and its two stores of the cursor, passes the ring's cursor only by a slip: a test it passes on
  the first slot while the cursor stands on the last one, between the two stores. Each slip lets it gain
  at most one lap. Without slips it never passes, also when it is lapped, and what it finds at its
  \<open>k\<close>-th look is the slot's first content, in the first lap only, or an entry copied to the same slot at
  most one lap before; with them, at most one lap more for each. Neither side ever faults.\<close>

theorem session_follows_ring:
  assumes "start_circle True st = Inr (0, cb)" and "ci_this st" and "ci_cfg st = Some cfg"
    and "n = unat (cfg_circle_buffer_size cfg)" and "2 \<le> n" and "fed_by (joins cb conn) es t"
  shows "slots_left t \<le> length es + (n - 1) * fs_slips t \<and>
     (\<forall>k < length (fs_seen t). sees (n - 1) ((n - 1) * Suc (fs_slips t)) es k (fs_seen t ! k)) \<and>
     (fs_publishing t = Idle \<longrightarrow> (\<exists>cb'. publish_one e (fs_ring t) = Inr cb')) \<and>
     (fs_publishing t = Copied \<longrightarrow> (\<exists>cb'. cursor_next (fs_ring t) = Inr cb')) \<and>
     (\<exists>x. slot_under (fs_ring t) (fs_session t) = Inr x) \<and> (\<exists>b. session_waits (fs_ring t) (fs_session t) = Inr b) \<and>
     (\<exists>r. session_advance (fs_ring t) (fs_session t) = Inr r)"
proof -
  have inv: "ring_part n es t" "session_part n t" "behind (n - 1) (length es) t" "seen_part n es t"
    using follows_invariant [OF assms(6) joins_follows [OF assms(1-5)]] by (simp_all add: follows_def)
  obtain p v where pv: "p \<le> fs_slips t" "slots_left t \<le> v + (n - 1) * p" "v \<le> length es"
    using inv(3) unfolding behind_def by (metis add_leE le_add1)
  have "(n - 1) * p \<le> (n - 1) * fs_slips t" using pv(1) by simp
  then have "slots_left t \<le> length es + (n - 1) * fs_slips t" using pv(2,3) by linarith
  then show ?thesis using inv(4) ring_moves(1,2) [OF inv(1)] session_tests [OF inv(1,2)] session_moves [OF inv(1,2)]
      session_sees_slot [OF inv(1,2)]
    by (auto simp: seen_part_def)
qed

text \<open>On a ring of two slots one entry is published; in the window between the two stores the session runs
  through its turn twice and finds the same entry twice, one step further than the ring.\<close>

definition slipping :: "circle \<Rightarrow> following \<Rightarrow> slot_content list \<Rightarrow> nat \<Rightarrow> feed_state" where
  "slipping cb fol seen k =
     \<lparr>fs_ring = cb\<lparr>ci_slots := [Bytes_At 7, Node zero_node], ci_cursor := Some (Slot 1)\<rparr>,
      fs_session = zero_session\<lparr>sp_cursor := Some (Slot 0)\<rparr>, fs_publishing = Stored, fs_following = fol,
      fs_seen = seen, fs_slips = k\<rparr>"

abbreviation slipped :: "circle \<Rightarrow> feed_state" where
  "slipped cb \<equiv> slipping cb At_Turn [Bytes_At 7, Bytes_At 7] 2"

lemma two_slots:
  assumes "start_circle True (new_circle 2) = Inr (0, cb)"
  shows "fed_by (joins cb zero_session) [7] (slipped cb)"
proof -
  have two: "2 = unat (cfg_circle_buffer_size (small_config 2))" by (simp add: small_config_def)
  have up: "[0..<2] = [0, Suc 0]" by (simp add: numeral_2_eq_2)
  have cb: "ci_this cb" "ci_cursor cb = Some (Slot 0)" "ci_queue cb = [0, Suc 0]" "ci_slots cb = [Node zero_node, Node zero_node]"
    "ci_cfg cb = Some (small_config 2)"
    using start_ring [OF new_circle_simps two] assms by (auto simp: ring_def numeral_2_eq_2)
  note ends = circleq_first_def circleq_last_def circleq_next_def deref_def
  let ?s = "joins cb zero_session"
  have look: "fed_by ?s [7] (slipping cb Looked (seen @ [Bytes_At 7]) k)" if "fed_by ?s [7] (slipping cb At_Turn seen k)" for seen k
    using fed_by.looks [OF that, of "Bytes_At 7"] by (simp add: slot_under_def slipping_def)
  have test: "fed_by ?s [7] (slipping cb Passed seen (Suc k))" if "fed_by ?s [7] (slipping cb Looked seen k)" for seen k
    using fed_by.tests [OF that] cb
    by (simp add: session_waits_def slipping_def slips_def is_behind_cursor_def is_behind_inline small_config_def ends)
  have move: "fed_by ?s [7] (slipping cb At_Turn seen k)" if "fed_by ?s [7] (slipping cb Passed seen k)" for seen k
    using fed_by.moves [OF that, of "sp_run zero_session" "zero_session\<lparr>sp_cursor := Some (Slot 0)\<rparr>"] cb
    by (simp add: session_advance_def iterate_def slipping_def ends)
  have "fed_by ?s [7] (slipping cb At_Turn [] 0)"
    using fed_by.stores [OF fed_by.copies [OF fed_by.starts, of ?s 7 "cb\<lparr>ci_slots := [Bytes_At 7, Node zero_node]\<rparr>"],
        of "cb\<lparr>ci_slots := [Bytes_At 7, Node zero_node], ci_cursor := Some (Slot 1)\<rparr>"] cb
    by (simp add: publish_one_def get_current_node_inline_def cursor_next_def ends joins_def slipping_def)
  from move [OF test [OF look [OF move [OF test [OF look [OF this]]]]]] show ?thesis
    by (simp add: numeral_2_eq_2)
qed

theorem session_follows_ring_witness:
  "\<exists>cb. start_circle True (new_circle 2) = Inr (0, cb) \<and> fed_by (joins cb zero_session) [7] (slipped cb) \<and>
     slots_left (slipped cb) = 2 \<and> slots_left (slipped cb) \<le> length [7 :: nat] + 1 * 2 \<and>
     sees 1 3 [7] 1 (fs_seen (slipped cb) ! 1)"
proof -
  have two: "2 = unat (cfg_circle_buffer_size (small_config 2))" by (simp add: small_config_def)
  obtain cb where cb: "start_circle True (new_circle 2) = Inr (0, cb)"
    using start_ring [OF new_circle_simps two] by auto
  note run = session_follows_ring [OF cb new_circle_simps two _ two_slots [OF cb]]
  have "slots_left (slipped cb) \<le> length [7 :: nat] + 1 * 2"
    using conjunct1 [OF run] by (simp add: slipping_def)
  moreover have "sees 1 3 [7] 1 (fs_seen (slipped cb) ! 1)"
    using conjunct1 [OF conjunct2 [OF run], rule_format, of 1] by (simp add: slipping_def)
  ultimately show ?thesis using two_slots [OF cb] cb
    by (intro exI [of _ cb] conjI) (simp_all add: slots_left_def slipping_def)
qed

text \<open>C24: A session that keeps up with the ring gets every node one full lap late: it looks at the slot
  under the ring's cursor before the ring writes it and leaves it as soon as it is written. On a ring
  of \<open>n\<close> slots, however many entries are published, its first \<open>n - 1\<close> looks find the zeroed slots and
  each later one the entry published \<open>n - 1\<close> places before.\<close>

theorem caught_up_session_lags_a_lap:
  assumes "start_circle True st = Inr (0, cb)" and "ci_this st" and "ci_cfg st = Some cfg"
    and "n = unat (cfg_circle_buffer_size cfg)" and "3 \<le> n"
  shows "keeps_up es cb (fs_session (joins cb conn)) =
     Inr (take (Suc (length es)) (replicate (n - 1) (Node zero_node) @ map Bytes_At es))"
proof -
  have "keeps_up es cb (fs_session (joins cb conn)) = Inr (map (\<lambda>i. next_slot (n - 1) (take i es)) [0..<Suc (length es)])"
    using keeps_up_lags [of n "[]" cb "fs_session (joins cb conn)" es] joins_holds [OF assms(1-4)] assms(5) by simp
  moreover have "map (\<lambda>i. next_slot (n - 1) (take i es)) [0..<Suc (length es)] =
      take (Suc (length es)) (replicate (n - 1) (Node zero_node) @ map Bytes_At es)"
    using assms(5) by (intro nth_equalityI) (auto simp: next_slot_def nth_append min_def le_less_Suc_eq simp del: upt_Suc)
  ultimately show ?thesis by simp
qed

theorem caught_up_session_lags_a_lap_witness:
  "\<exists>cb. start_circle True (new_circle 4) = Inr (0, cb) \<and>
     keeps_up [10, 11, 12, 13] cb (fs_session (joins cb zero_session)) =
       Inr [Node zero_node, Node zero_node, Node zero_node, Bytes_At 10, Bytes_At 11]"
proof -
  have four: "4 = unat (cfg_circle_buffer_size (small_config 4))" by (simp add: small_config_def)
  obtain cb where cb: "start_circle True (new_circle 4) = Inr (0, cb)"
    using start_ring [OF new_circle_simps four] by auto
  then show ?thesis using caught_up_session_lags_a_lap [OF cb new_circle_simps four, of "[10, 11, 12, 13]" zero_session]
    by (simp add: numeral_nat)
qed

end
