(* ===== verification/Orbit_Sendpath.thy ===== *)
theory Orbit_Sendpath
  imports Orbit_Delivery Orbit_Socket
begin

text \<open>
  The two ways out of a session put together: the worker of
  \<^verbatim>\<open>src/session/session_connection.c\<close> that hands a batch to the send callback, the send thread of
  \<^verbatim>\<open>src/scheduler/dmmr_scheduler.c\<close> that hands over the whole pool of a due session, and behind both
  the dispatcher of \<^verbatim>\<open>src/socket/dmmr_socket.c\<close> with the send functions of the two services.
\<close>

definition packet_vector :: "node list \<Rightarrow> (u8 list \<times> u32) list" where
  "packet_vector ns = map (\<lambda>n. (nd_value n, nd_value_size n)) ns"

definition peer_address :: "node \<Rightarrow> u8 list" where
  "peer_address n = (if nd_family n = EZP_IPV4 then take 4 (nd_ipv4 n) else take 16 (nd_ipv6 n))"

text \<open>The system call for a nonempty array: the block decides the kind of call and nothing else.\<close>

definition sent_call :: "base_cb \<Rightarrow> node list \<Rightarrow> sys list" where
  "sent_call block ns =
     (case cb_proto block of
        proto_tcp_t \<Rightarrow> [Sys_Send (nd_fd (hd ns)) (packet_vector (take 6 ns))]
      | proto_udp_t \<Rightarrow> [Sys_Send_To (nd_fd (hd ns)) (nd_family (hd ns)) (nd_port (hd ns)) (peer_address (hd ns))
                         (packet_vector (take 6 ns))]
      | proto_none_t \<Rightarrow> [])"

lemma dispatcher_sends:
  assumes "ns \<noteq> []"
  shows "dispatcher (Some block) (Some (ns @ rest)) (length ns) answer = Inr (sent_call block ns)"
proof -
  obtain sent err where "answer = (sent, err)" by fastforce
  moreover have "(ns @ rest) ! 0 = hd ns" using assms by (simp add: hd_conv_nth nth_append)
  moreover have "take (min 6 (length ns)) (ns @ rest) = take 6 ns" by (simp add: min_def)
  ultimately show ?thesis
    using send_six [of "ns @ rest" "length ns" sent err] assms
    by (auto simp: dispatcher_def sent_call_def packet_vector_def peer_address_def split: proto_t.splits)
qed

lemma same_peer:
  "node_cmp (Some a) (Some b) = 0 \<Longrightarrow> nd_fd a = nd_fd b \<and> nd_port a = nd_port b \<and> nd_family a = nd_family b"
  by (simp add: cmp3_sgn split: if_splits)

lemma total_size_le: "packets ns \<Longrightarrow> total_size ns \<le> length ns * 1420"
  by (induction ns) (auto simp: packets_def total_size_def limits)

lemma member_batch: "s \<in> set sent \<Longrightarrow> set (snd s) \<subseteq> set (batched sent)"
  by (auto simp: batched_def)

lemma batch_members:
  assumes "conserves hp own conn news conn' sent" and "s \<in> set sent"
  shows "set (snd s) \<subseteq> set (kept conn) \<union> set news"
proof -
  have "set_mset (mset (batched sent) + mset (kept conn')) = set_mset (mset (kept conn) + mset news)"
    using assms(1) unfolding conserves_def by metis
  then show ?thesis using member_batch [OF assms(2)] by auto
qed

section \<open>Properties\<close>

text \<open>C25: Every batch a session's worker sends goes back to the peer it came from: the dispatcher looks at
  the linked block only for its protocol, and the send functions take the descriptor, and for UDP port
  and family, of the first node, which has the session's own key. One system call carries the first six
  packets of the batch; a batch has at least six, and more than six whenever it exceeds 8520 bytes, and
  then the others are sent nowhere and no longer kept.\<close>

theorem batches_return_to_sender:
  assumes "session_ready hp own conn" and "\<forall>n \<in> set (kept conn). node_cmp (Some n) (Some own) = 0"
    and "\<forall>(grown, cur) \<in> set ts. grown \<noteq> None \<and> unat (nd_value_size cur) \<le> VALUE_BUFFER_SIZE"
    and "unat (sp_pool_count conn) + length ts < 2 ^ 31"
    and "session_run hp True ts conn = Inr (True, conn', sent)" and "s \<in> set sent"
  shows "6 \<le> length (snd s) \<and> (VALUE_OUTPUT_BUFFER_SIZE < total_size (snd s) \<longrightarrow> 6 < length (snd s)) \<and>
     (cb_proto block = proto_tcp_t \<longrightarrow>
        dispatcher (Some block) (Some (snd s)) (length (snd s)) answer =
          Inr [Sys_Send (nd_fd own) (packet_vector (take 6 (snd s)))]) \<and>
     (cb_proto block = proto_udp_t \<longrightarrow>
        dispatcher (Some block) (Some (snd s)) (length (snd s)) answer =
          Inr [Sys_Send_To (nd_fd own) (nd_family own) (nd_port own) (peer_address (hd (snd s)))
                 (packet_vector (take 6 (snd s)))])"
proof -
  have run: "conserves hp own conn (meant_for own (map snd ts)) conn' sent"
    using run_conserves [OF assms(1,3,4)] assms(5) by auto
  have size: "VALUE_OUTPUT_BUFFER_SIZE \<le> total_size (snd s)"
    using run assms(6) by (auto simp: conserves_def batch_for_def)
  have members: "set (snd s) \<subseteq> set (kept conn) \<union> set (meant_for own (map snd ts))"
    using batch_members [OF run assms(6)] .
  have "packets (snd s)"
    using members assms(1,3) by (fastforce simp: session_ready_def packets_def meant_for_def)
  then have len: "total_size (snd s) \<le> length (snd s) * 1420" by (rule total_size_le)
  then have ne: "snd s \<noteq> []" using size by (auto simp: limits)
  then have "hd (snd s) \<in> set (kept conn) \<union> set (meant_for own (map snd ts))" using members hd_in_set by blast
  then have "node_cmp (Some (hd (snd s))) (Some own) = 0" using assms(2) by (auto simp: meant_for_def)
  then have peer: "nd_fd (hd (snd s)) = nd_fd own" "nd_port (hd (snd s)) = nd_port own" "nd_family (hd (snd s)) = nd_family own"
    using same_peer by blast+
  have "dispatcher (Some block) (Some (snd s)) (length (snd s)) answer = Inr (sent_call block (snd s))"
    using dispatcher_sends [OF ne, of block "[]" answer] by simp
  then show ?thesis using size len by (auto simp: limits sent_call_def peer)
qed

theorem batches_return_to_sender_witness:
  "\<exists>conn' sent s. session_run demo_heap True demo_input demo_session = Inr (True, conn', sent) \<and>
     s \<in> set sent \<and> dispatcher (Some (zero_cb\<lparr>cb_proto := proto_tcp_t\<rparr>)) (Some (snd s)) (length (snd s)) (0, EAGAIN) =
       Inr [Sys_Send 0 (packet_vector (take 6 (snd s)))]"
proof -
  obtain conn' sent where run: "session_run demo_heap True demo_input demo_session = Inr (True, conn', sent)" "sent \<noteq> []"
    using demo_run by blast
  have mine: "\<forall>n \<in> set (kept demo_session). node_cmp (Some n) (Some zero_node) = 0"
    by (simp add: kept_demo cmp3_def zero_node_def)
  have fd: "nd_fd zero_node = 0" by (simp add: zero_node_def)
  obtain s where s: "s \<in> set sent" using run(2) by (cases sent) auto
  have "dispatcher (Some (zero_cb\<lparr>cb_proto := proto_tcp_t\<rparr>)) (Some (snd s)) (length (snd s)) (0, EAGAIN) =
       Inr [Sys_Send 0 (packet_vector (take 6 (snd s)))]"
    using batches_return_to_sender [OF demo_session_ready mine demo_turns run(1) s, of "zero_cb\<lparr>cb_proto := proto_tcp_t\<rparr>" "(0, EAGAIN)"]
    unfolding fd by simp
  then show ?thesis using run(1) s by blast
qed

text \<open>C26: A due session loses all but six of its packets: the pass of the send thread hands the whole pool
  and the session's linked block to the dispatcher and empties and zeroes the pool, but the dispatcher
  makes one system call with the first six packets, whether the block is of a TCP connection or of a UDP
  service, and none at all when the block has no protocol. So packets from the seventh on are neither sent
  nor kept, whatever the call answers.\<close>

theorem due_session_keeps_six:
  assumes "pl_items (sd_slots sd) = Some xs" and "pl_count (sd_slots sd) \<noteq> 0" and "c = unat (pl_count (sd_slots sd))"
    and "c \<le> length xs" and "sd_cfg sd = Some cfg" and "due = now + cfg_scheduler_preemptive_deadline cfg"
    and "sorted (map sc_realtime_deadline_us (take c xs))" and "distinct (map sc_session (take c xs))"
    and "\<forall>x \<in> set (take c xs). sc_realtime_deadline_us x \<le> due \<longrightarrow> slot_ready (nt_tab st) x"
    and "x \<in> set (take c xs)" and "sc_realtime_deadline_us x \<le> due" and "sc_session x = Some s"
    and "kept (nt_tab st s) = n # ns"
    and "cb_linked (sp_session (nt_tab st s)) = Some p" and "read_cb st p = Some block"
  shows "\<exists>sd' tab' sent. check_and_send_pass now sd (nt_tab st) = Inr (sd', tab', sent) \<and> (Some p, n # ns) \<in> set sent \<and>
     dispatcher (read_cb st p) (Some (n # ns)) (length (n # ns)) answer =
       Inr (case cb_proto block of
              proto_tcp_t \<Rightarrow> [Sys_Send (nd_fd n) (packet_vector (take 6 (n # ns)))]
            | proto_udp_t \<Rightarrow> [Sys_Send_To (nd_fd n) (nd_family n) (nd_port n) (peer_address n) (packet_vector (take 6 (n # ns)))]
            | proto_none_t \<Rightarrow> []) \<and>
     kept (tab' s) = [] \<and> (\<forall>m \<in> set (take (unat (sp_pool_size (nt_tab st s))) (the (sp_pool (tab' s)))). m = zero_node)"
proof -
  let ?tab = "nt_tab st" and ?sent = "map (slot_batch (nt_tab st)) (filter (\<lambda>x. sc_realtime_deadline_us x \<le> due) (take c xs))"
  obtain sd' tab' where pass: "check_and_send_pass now sd ?tab = Inr (sd', tab', ?sent)"
    and tab': "\<forall>s. tab' s = (if \<exists>x \<in> set (take c xs). sc_realtime_deadline_us x \<le> due \<and> sc_session x = Some s
                    then session_sent (?tab s) else ?tab s)"
    using check_and_send_pass_due [OF assms(1-9)] by blast
  have ready: "slot_ready ?tab x" using assms(9-11) by blast
  have batch: "slot_batch ?tab x = (Some p, n # ns)"
    using ready assms(12-14) by (auto simp: slot_batch_def kept_def slot_ready_def Let_def)
  have "slot_batch ?tab x \<in> set ?sent" using assms(10,11) by simp
  moreover have "tab' s = session_sent (?tab s)" using tab' [rule_format, of s] assms(10-12) by auto
  then have "kept (tab' s) = []" "\<forall>m \<in> set (take (unat (sp_pool_size (?tab s))) (the (sp_pool (tab' s)))). m = zero_node"
    using ready assms(12) by (auto simp: session_sent_def kept_def slot_ready_def)
  moreover have "dispatcher (read_cb st p) (Some (n # ns)) (length (n # ns)) answer = Inr (sent_call block (n # ns))"
    using dispatcher_sends [of "n # ns" block "[]" answer] assms(15) by simp
  ultimately show ?thesis using pass batch
    by (intro exI [of _ sd'] exI [of _ tab'] exI [of _ ?sent]) (simp add: sent_call_def split: proto_t.split)
qed

text \<open>Seven packets in a session whose linked block is a UDP service: the call carries six, and none is kept.\<close>

definition seven_packets :: "node list" where
  "seven_packets = replicate 6 full_packet @ [full_packet\<lparr>nd_value := [1]\<rparr>]"

definition udp_net :: net where
  "udp_net = zero_net\<lparr>nt_udp := \<lparr>pl_items = Some [zero_cb\<lparr>cb_proto := proto_udp_t\<rparr>], pl_size = 1, pl_count = 1\<rparr>,
     nt_tab := (\<lambda>_. zero_session\<lparr>sp_pool := Some seven_packets, sp_pool_size := 7, sp_pool_count := 7,
       sp_session := zero_cb\<lparr>cb_proto := proto_udp_t, cb_linked := Some (Udp_Pool 0)\<rparr>\<rparr>)\<rparr>"

definition due_scheduler :: scheduler where
  "due_scheduler = demo_scheduler\<lparr>sd_slots := \<lparr>pl_items = Some [zero_slot\<lparr>sc_realtime_deadline_us := 5,
     sc_session := Some (2, proto_arr_udp_t)\<rparr>], pl_size = 1, pl_count = 1\<rparr>\<rparr>"

theorem due_session_keeps_six_witness:
  "\<exists>sd' tab' sent. check_and_send_pass 6 due_scheduler (nt_tab udp_net) = Inr (sd', tab', sent) \<and>
     (Some (Udp_Pool 0), seven_packets) \<in> set sent \<and>
     dispatcher (read_cb udp_net (Udp_Pool 0)) (Some seven_packets) 7 (0, EAGAIN) =
       Inr [Sys_Send_To 0 EZP_DNS 0 (take 16 (nd_ipv6 zero_node)) (packet_vector (replicate 6 full_packet))] \<and>
     kept (tab' (2, proto_arr_udp_t)) = []"
proof -
  let ?x = "zero_slot\<lparr>sc_realtime_deadline_us := 5, sc_session := Some (2, proto_arr_udp_t)\<rparr>"
  let ?ns = "replicate 5 full_packet @ [full_packet\<lparr>nd_value := [1]\<rparr>]"
  have cons: "seven_packets = full_packet # ?ns" by (simp add: seven_packets_def numeral_eq_Suc)
  have len: "length seven_packets = 7" by (simp add: seven_packets_def)
  have six: "take 6 seven_packets = replicate 6 full_packet" by (simp add: seven_packets_def)
  have run: "\<exists>sd' tab' sent. check_and_send_pass 6 due_scheduler (nt_tab udp_net) = Inr (sd', tab', sent) \<and>
     (Some (Udp_Pool 0), full_packet # ?ns) \<in> set sent \<and>
     dispatcher (read_cb udp_net (Udp_Pool 0)) (Some (full_packet # ?ns)) (length (full_packet # ?ns)) (0, EAGAIN) =
       Inr (case cb_proto (zero_cb\<lparr>cb_proto := proto_udp_t\<rparr>) of
              proto_tcp_t \<Rightarrow> [Sys_Send (nd_fd full_packet) (packet_vector (take 6 (full_packet # ?ns)))]
            | proto_udp_t \<Rightarrow> [Sys_Send_To (nd_fd full_packet) (nd_family full_packet) (nd_port full_packet)
                (peer_address full_packet) (packet_vector (take 6 (full_packet # ?ns)))]
            | proto_none_t \<Rightarrow> []) \<and>
     kept (tab' (2, proto_arr_udp_t)) = [] \<and>
     (\<forall>m \<in> set (take (unat (sp_pool_size (nt_tab udp_net (2, proto_arr_udp_t)))) (the (sp_pool (tab' (2, proto_arr_udp_t))))). m = zero_node)"
  proof (rule due_session_keeps_six [where cfg = "small_config 4" and x = ?x and xs = "[?x]" and c = 1 and due = 7])
    show "kept (nt_tab udp_net (2, proto_arr_udp_t)) = full_packet # ?ns"
      using len by (simp add: kept_def udp_net_def flip: cons)
  qed (simp_all add: due_scheduler_def demo_scheduler_def small_config_def slot_ready_def udp_net_def len zero_cb_def
        read_cb_def nth_opt_def pool_slots_def)
  have packet: "nd_fd full_packet = 0" "nd_family full_packet = EZP_DNS" "nd_port full_packet = 0"
    "peer_address full_packet = take 16 (nd_ipv6 zero_node)"
    by (simp_all add: full_packet_def zero_node_def peer_address_def)
  show ?thesis using run unfolding cons [symmetric] len six packet by auto
qed

end
