(* ===== verification/Orbit_Scanner.thy ===== *)
theory Orbit_Scanner
  imports Orbit_Config
begin

text \<open>
  The compiled lexer, \<^verbatim>\<open>src/parser/scanner.c\<close>: flex's compressed automaton for the rules of
  \<^verbatim>\<open>src/parser/scanner.l\<close>, its matching loop with backing up, and its actions; and the proof that it
  finds, for every input, the token the rules mean.

  Here the buffer holds the whole input; \<open>Orbit_Flex\<close> has the buffer that is refilled in pieces, and the
  count of lines. A zero byte of the input is met by \<open>yy_get_previous_state\<close> and \<open>yy_try_NUL_trans\<close> as
  class 1.
\<close>

section \<open>The tables\<close>

definition yy_accept :: "nat list" where
  "yy_accept =
   [0, 0, 0, 21, 19, 17, 18, 19, 12, 14, 11, 13, 15, 15, 15, 15, 15, 15, 17, 0, 16, 0, 11, 15, 15, 15, 15, 15, 15,
    15, 15, 15, 15, 15, 15, 15, 15, 15, 15, 15, 15, 15, 15, 15, 15, 15, 15, 15, 15, 15, 15, 15, 15, 15, 15, 15, 15,
    15, 15, 15, 15, 15, 15, 15, 15, 15, 15, 15, 15, 15, 15, 15, 15, 15, 15, 15, 15, 15, 15, 15, 15, 15, 15, 4, 15,
    15, 15, 15, 15, 15, 15, 15, 15, 15, 15, 15, 2, 15, 15, 15, 15, 15, 15, 15, 15, 15, 15, 15, 10, 15, 15, 15, 1, 15,
    15, 15, 15, 15, 15, 15, 15, 15, 15, 15, 15, 15, 15, 15, 15, 15, 15, 15, 15, 15, 15, 15, 15, 7, 15, 15, 15, 15,
    15, 15, 3, 15, 15, 15, 8, 5, 15, 15, 15, 15, 15, 15, 6, 15, 15, 15, 15, 15, 15, 15, 9, 0]"

definition yy_ec :: "nat list" where
  "yy_ec =
   [0, 1, 1, 1, 1, 1, 1, 1, 1, 2, 3, 1, 1, 1, 1, 1, 1, 1, 1, 1, 1, 1, 1, 1, 1, 1, 1, 1, 1, 1, 1, 1, 2, 1, 4, 1, 1, 1,
    1, 1, 1, 1, 1, 1, 5, 6, 1, 1, 7, 7, 7, 7, 7, 7, 7, 7, 7, 7, 1, 8, 1, 1, 1, 1, 1, 9, 10, 11, 12, 13, 14, 15, 16,
    17, 18, 19, 20, 21, 22, 23, 24, 18, 25, 26, 27, 28, 29, 18, 30, 18, 31, 1, 32, 1, 1, 33, 1, 18, 18, 18, 18, 18,
    18, 18, 18, 18, 18, 18, 18, 18, 18, 18, 18, 18, 18, 18, 18, 18, 18, 18, 18, 18, 18, 1, 1, 1, 1, 1, 1, 1, 1, 1, 1,
    1, 1, 1, 1, 1, 1, 1, 1, 1, 1, 1, 1, 1, 1, 1, 1, 1, 1, 1, 1, 1, 1, 1, 1, 1, 1, 1, 1, 1, 1, 1, 1, 1, 1, 1, 1, 1, 1,
    1, 1, 1, 1, 1, 1, 1, 1, 1, 1, 1, 1, 1, 1, 1, 1, 1, 1, 1, 1, 1, 1, 1, 1, 1, 1, 1, 1, 1, 1, 1, 1, 1, 1, 1, 1, 1, 1,
    1, 1, 1, 1, 1, 1, 1, 1, 1, 1, 1, 1, 1, 1, 1, 1, 1, 1, 1, 1, 1, 1, 1, 1, 1, 1, 1, 1, 1, 1, 1, 1, 1, 1, 1, 1, 1, 1,
    1, 1, 1, 1, 1, 1, 1, 1, 1]"

definition yy_meta :: "nat list" where
  "yy_meta =
   [0, 1, 1, 1, 1, 1, 1, 2, 1, 2, 2, 2, 2, 2, 2, 2, 2, 2, 2, 2, 2, 2, 2, 2, 2, 2, 2, 2, 2, 2, 2, 2, 1, 2]"

definition yy_base :: "nat list" where
  "yy_base =
   [0, 0, 0, 187, 188, 184, 188, 30, 188, 188, 178, 188, 0, 167, 174, 25, 26, 157, 179, 32, 188, 177, 172, 0, 153,
    147, 143, 166, 158, 147, 159, 143, 159, 136, 148, 147, 153, 139, 151, 141, 142, 137, 137, 126, 146, 140, 132,
    136, 141, 130, 137, 124, 122, 126, 115, 114, 113, 120, 111, 126, 122, 119, 113, 31, 129, 111, 117, 115, 122, 101,
    116, 121, 114, 102, 103, 115, 114, 101, 99, 103, 112, 96, 107, 0, 91, 86, 85, 100, 103, 102, 90, 99, 99, 29, 87,
    79, 0, 85, 99, 94, 86, 92, 78, 78, 89, 74, 73, 74, 0, 89, 84, 83, 0, 62, 83, 60, 80, 66, 77, 61, 72, 61, 53, 52,
    63, 58, 49, 64, 60, 67, 54, 60, 48, 44, 57, 60, 45, 0, 46, 57, 47, 54, 50, 46, 0, 48, 43, 30, 0, 0, 36, 43, 42,
    21, 41, 40, 0, 38, 41, 37, 28, 30, 23, 31, 0, 188, 64, 40]"

definition yy_def :: "nat list" where
  "yy_def =
   [0, 165, 1, 165, 165, 165, 165, 166, 165, 165, 165, 165, 167, 167, 167, 167, 167, 167, 165, 166, 165, 166, 165,
    167, 167, 167, 167, 167, 167, 167, 167, 167, 167, 167, 167, 167, 167, 167, 167, 167, 167, 167, 167, 167, 167,
    167, 167, 167, 167, 167, 167, 167, 167, 167, 167, 167, 167, 167, 167, 167, 167, 167, 167, 167, 167, 167, 167,
    167, 167, 167, 167, 167, 167, 167, 167, 167, 167, 167, 167, 167, 167, 167, 167, 167, 167, 167, 167, 167, 167,
    167, 167, 167, 167, 167, 167, 167, 167, 167, 167, 167, 167, 167, 167, 167, 167, 167, 167, 167, 167, 167, 167,
    167, 167, 167, 167, 167, 167, 167, 167, 167, 167, 167, 167, 167, 167, 167, 167, 167, 167, 167, 167, 167, 167,
    167, 167, 167, 167, 167, 167, 167, 167, 167, 167, 167, 167, 167, 167, 167, 167, 167, 167, 167, 167, 167, 167,
    167, 167, 167, 167, 167, 167, 167, 167, 167, 167, 0, 165, 165]"

definition yy_nxt :: "nat list" where
  "yy_nxt =
   [0, 4, 5, 6, 7, 8, 9, 10, 11, 12, 12, 13, 12, 12, 12, 12, 12, 12, 12, 12, 12, 14, 12, 12, 12, 15, 16, 17, 12, 12,
    12, 12, 4, 4, 20, 26, 20, 28, 27, 29, 71, 101, 23, 72, 164, 163, 30, 162, 161, 160, 159, 158, 157, 156, 155, 154,
    153, 102, 152, 151, 150, 149, 21, 148, 21, 19, 19, 147, 146, 145, 144, 143, 142, 141, 140, 139, 138, 137, 136,
    135, 134, 133, 132, 131, 130, 129, 128, 127, 126, 125, 124, 123, 122, 121, 120, 119, 118, 117, 116, 115, 114,
    113, 112, 111, 110, 109, 108, 107, 106, 105, 104, 103, 100, 99, 98, 97, 96, 95, 94, 93, 92, 91, 90, 89, 88, 87,
    86, 85, 84, 83, 82, 81, 80, 79, 78, 77, 76, 75, 74, 73, 70, 69, 68, 67, 66, 65, 64, 63, 62, 61, 60, 59, 58, 57,
    56, 55, 54, 53, 52, 51, 50, 49, 48, 47, 46, 45, 44, 43, 42, 41, 40, 39, 38, 37, 36, 35, 34, 33, 32, 22, 165, 18,
    31, 25, 24, 22, 18, 165, 3, 165, 165, 165, 165, 165, 165, 165, 165, 165, 165, 165, 165, 165, 165, 165, 165, 165,
    165, 165, 165, 165, 165, 165, 165, 165, 165, 165, 165, 165, 165, 165, 165, 165]"

definition yy_chk :: "nat list" where
  "yy_chk =
   [0, 1, 1, 1, 1, 1, 1, 1, 1, 1, 1, 1, 1, 1, 1, 1, 1, 1, 1, 1, 1, 1, 1, 1, 1, 1, 1, 1, 1, 1, 1, 1, 1, 1, 7, 15, 19,
    16, 15, 16, 63, 93, 167, 63, 163, 162, 16, 161, 160, 159, 158, 157, 155, 154, 153, 152, 151, 93, 150, 147, 146,
    145, 7, 143, 19, 166, 166, 142, 141, 140, 139, 138, 136, 135, 134, 133, 132, 131, 130, 129, 128, 127, 126, 125,
    124, 123, 122, 121, 120, 119, 118, 117, 116, 115, 114, 113, 111, 110, 109, 107, 106, 105, 104, 103, 102, 101,
    100, 99, 98, 97, 95, 94, 92, 91, 90, 89, 88, 87, 86, 85, 84, 82, 81, 80, 79, 78, 77, 76, 75, 74, 73, 72, 71, 70,
    69, 68, 67, 66, 65, 64, 62, 61, 60, 59, 58, 57, 56, 55, 54, 53, 52, 51, 50, 49, 48, 47, 46, 45, 44, 43, 42, 41,
    40, 39, 38, 37, 36, 35, 34, 33, 32, 31, 30, 29, 28, 27, 26, 25, 24, 22, 21, 18, 17, 14, 13, 10, 5, 3, 165, 165,
    165, 165, 165, 165, 165, 165, 165, 165, 165, 165, 165, 165, 165, 165, 165, 165, 165, 165, 165, 165, 165, 165,
    165, 165, 165, 165, 165, 165, 165, 165, 165, 165]"

section \<open>Matching\<close>

definition yy_class :: "char \<Rightarrow> nat" where
  "yy_class c = (if c = NUL then 1 else yy_ec ! of_char c)"

text \<open>One transition: fall back until the entry belongs to the state.\<close>

partial_function (option) yy_find :: "nat \<Rightarrow> nat \<Rightarrow> nat option" where
  "yy_find st c =
     (if yy_chk ! (yy_base ! st + c) = st then Some (yy_nxt ! (yy_base ! st + c))
      else yy_find (yy_def ! st) (if 166 \<le> yy_def ! st then yy_meta ! c else c))"

text \<open>The loop \<open>yy_match\<close> from character \<open>cp\<close> on: \<open>la\<close> is the last accepting state and its position. It
  ends in a state with base 188, or at the end of the buffer, where the scanner returns to the state
  before it.\<close>

fun yy_run :: "nat \<times> nat \<Rightarrow> nat \<Rightarrow> nat \<Rightarrow> string \<Rightarrow> (nat \<times> (nat \<times> nat) \<times> nat) option" where
  "yy_run la cp st [] = Some (st, la, cp)"
| "yy_run la cp st (c # cs) =
     (let la' = (if yy_accept ! st \<noteq> 0 then (st, cp) else la)
      in case yy_find st (yy_class c) of
           None \<Rightarrow> None
         | Some st' \<Rightarrow> if yy_base ! st' \<noteq> 188 then yy_run la' (cp + 1) st' cs else Some (st', la', cp + 1))"

definition yy_find_action :: "nat \<times> (nat \<times> nat) \<times> nat \<Rightarrow> nat \<times> nat" where
  "yy_find_action = (\<lambda>(st, la, cp).
     if yy_accept ! st = 0 then (yy_accept ! fst la, snd la) else (yy_accept ! st, cp))"

text \<open>The action and the length of the next token.\<close>

definition yy_match :: "nat \<times> nat \<Rightarrow> string \<Rightarrow> (nat \<times> nat) option" where
  "yy_match la s = map_option yy_find_action (yy_run la 0 1 s)"

section \<open>Actions\<close>

text \<open>The switch of \<open>yylex\<close>: what an action sends to \<open>handle_token\<close> and returns; \<open>None\<close> for the two that
  go on with the loop.\<close>

definition scanner_action :: "nat \<Rightarrow> string \<Rightarrow> (string \<times> string \<times> int) option" where
  "scanner_action act yytext =
     (if act = 1 then Some (''KEYWORD'', ''SESSION_SIZE'', TOKEN_IDENT)
      else if act = 2 then Some (''KEYWORD'', ''SLEEP_TIME'', TOKEN_IDENT)
      else if act = 3 then Some (''KEYWORD'', ''CIRCLE_BUFFER_SIZE'', TOKEN_IDENT)
      else if act = 4 then Some (''KEYWORD'', ''MAX_PORTS'', TOKEN_IDENT)
      else if act = 5 then Some (''KEYWORD'', ''REAL_TIME_DEAD_LINE'', TOKEN_IDENT)
      else if act = 6 then Some (''KEYWORD'', ''REAL_TIME_USER_DEFINED'', TOKEN_IDENT)
      else if act = 7 then Some (''KEYWORD'', ''TRUNK_ACCEPT_URI'', TOKEN_IDENT)
      else if act = 8 then Some (''KEYWORD'', ''TRUNK_DISPATCH_URI'', TOKEN_IDENT)
      else if act = 9 then Some (''KEYWORD'', ''SCHEDULER_PREEMPTIVE_DEADLINE'', TOKEN_IDENT)
      else if act = 10 then Some (''KEYWORD'', ''RB_LOG_LEVEL'', TOKEN_IDENT)
      else if act = 11 then Some (''NUMBER'', cstring yytext, TOKEN_NUMBER)
      else if act = 12 then Some (''COMMA'', cstring yytext, TOKEN_COMMA)
      else if act = 13 then Some (''SEMICOLON'', cstring yytext, TOKEN_SEMICOLON)
      else if act = 14 then Some (''DASH'', cstring yytext, TOKEN_SYMBOL)
      else if act = 15 then Some (''IDENT'', cstring yytext, TOKEN_IDENT)
      else if act = 16 then Some (''STRING'', cstring yytext, TOKEN_STRING)
      else if act = 19 then Some (''INVALID'', cstring yytext, TOKEN_ERROR)
      else None)"

text \<open>One call of the compiled \<open>yylex\<close> on the rest of the input. \<open>la\<close> is what the two static variables of
  the backing up hold before each match. At the end of the input it returns 0.\<close>

partial_function (option) scanner_yylex ::
    "nat \<times> nat \<Rightarrow> string \<Rightarrow> console_state \<times> configs \<Rightarrow> (int \<times> string \<times> console_state \<times> configs) option" where
  "scanner_yylex la s st =
     (if s = [] then Some (0, s, st)
      else case yy_match la s of
             None \<Rightarrow> None
           | Some (act, n) \<Rightarrow>
              (case scanner_action act (take n s) of
                 None \<Rightarrow> scanner_yylex la (drop n s) st
               | Some (type, v, token) \<Rightarrow> Some (token, drop n s, handle_token type v st)))"

section \<open>Reading the tables\<close>

text \<open>A table as one equation per entry, for the simplifier.\<close>

fun table_all :: "(nat \<Rightarrow> nat \<Rightarrow> bool) \<Rightarrow> num \<Rightarrow> nat list \<Rightarrow> bool" where
  "table_all P n [] \<longleftrightarrow> True"
| "table_all P n (v # vs) \<longleftrightarrow> P (numeral n) v \<and> table_all P (Num.inc n) vs"

lemma all_less_Suc_split: "(\<forall>i < Suc m. Q i) \<longleftrightarrow> Q 0 \<and> (\<forall>i < m. Q (Suc i))"
  using less_Suc_eq_0_disj by auto

lemma table_all_iff: "table_all P n vs \<longleftrightarrow> (\<forall>i < length vs. P (numeral n + i) (vs ! i))"
proof (induction P n vs rule: table_all.induct)
  case (2 P n v vs)
  have inc: "numeral (Num.inc n) + i = numeral n + Suc i" for i :: nat by (simp add: numeral_inc)
  show ?case unfolding table_all.simps 2 inc by (auto simp: all_less_Suc_split)
qed simp

lemma table_at: "xs = y # ys \<Longrightarrow> xs ! 0 = y \<and> table_all (\<lambda>i v. xs ! i = v) num.One ys"
  by (simp add: table_all_iff)

lemma table_everywhere: "P 0 y \<and> table_all P num.One ys \<Longrightarrow> i < length (y # ys) \<Longrightarrow> P i ((y # ys) ! i)"
  by (cases i) (auto simp: table_all_iff)

lemmas chk_at = table_at [OF yy_chk_def, simplified]
lemmas nxt_at = table_at [OF yy_nxt_def, simplified]
lemmas base_at = table_at [OF yy_base_def, simplified]
lemmas def_at = table_at [OF yy_def_def, simplified]
lemmas accept_at = table_at [OF yy_accept_def, simplified]
lemmas meta_at = table_at [OF yy_meta_def, simplified]
lemmas ec_at = table_at [OF yy_ec_def, simplified]

lemmas table_entries = chk_at nxt_at base_at def_at accept_at meta_at ec_at
section \<open>Classes of characters\<close>

definition class_fact :: "nat \<Rightarrow> nat \<Rightarrow> bool" where
  "class_fact i e \<longleftrightarrow> (e = 7) = (48 \<le> i \<and> i \<le> 57) \<and> (e = 2) = (i = 32 \<or> i = 9) \<and> (e = 3) = (i = 10) \<and>
     (e = 4) = (i = 34) \<and> (e = 5) = (i = 44) \<and> (e = 6) = (i = 45) \<and> (e = 8) = (i = 59) \<and> (e = 32) = (i = 92) \<and>
     (e = 33) = (i = 95) \<and> (9 \<le> e \<and> e \<le> 31) = (65 \<le> i \<and> i \<le> 90 \<or> 97 \<le> i \<and> i \<le> 122) \<and> e < 34 \<and> (i \<noteq> 0 \<longrightarrow> 0 < e)"

lemma class_table: "i < 256 \<Longrightarrow> class_fact i (yy_ec ! i)"
  unfolding yy_ec_def by (rule table_everywhere) (simp_all add: class_fact_def)

definition ident_class :: "nat \<Rightarrow> bool" where
  "ident_class k \<longleftrightarrow> k = 7 \<or> 9 \<le> k \<and> k \<le> 31 \<or> k = 33"

lemma class_cases:
  "yy_class c = 7 \<longleftrightarrow> is_digit c" "yy_class c = 2 \<longleftrightarrow> is_blank c" "yy_class c = 3 \<longleftrightarrow> c = CHR 0x0A"
  "yy_class c = 4 \<longleftrightarrow> c = CHR 0x22" "yy_class c = 5 \<longleftrightarrow> c = CHR '',''" "yy_class c = 6 \<longleftrightarrow> c = CHR ''-''"
  "yy_class c = 8 \<longleftrightarrow> c = CHR '';''" "yy_class c = 32 \<longleftrightarrow> c = CHR 0x5C"
  "9 \<le> yy_class c \<and> yy_class c \<le> 31 \<longleftrightarrow> is_letter c" "ident_class (yy_class c) \<longleftrightarrow> is_ident c" "yy_class c \<in> {1..<34}"
proof -
  define i where "i = (of_char c :: nat)"
  have i: "i < 256" unfolding i_def by (rule nat_of_char_less_256)
  have c: "c = char_of i" by (simp add: i_def)
  note e = class_table [OF i, unfolded class_fact_def]
  have code: "c = CHR 0x0A \<longleftrightarrow> i = 10" "c = CHR 0x22 \<longleftrightarrow> i = 34" "c = CHR '','' \<longleftrightarrow> i = 44" "c = CHR ''-'' \<longleftrightarrow> i = 45"
    "c = CHR '';'' \<longleftrightarrow> i = 59" "c = CHR 0x5C \<longleftrightarrow> i = 92" "c = CHR ''_'' \<longleftrightarrow> i = 95" "c = NUL \<longleftrightarrow> i = 0" "c = CHR '' '' \<longleftrightarrow> i = 32" "c = CHR 0x09 \<longleftrightarrow> i = 9"
    unfolding i_def by (auto simp flip: of_char_eq_iff [where 'a = nat])
  have cl: "yy_class c = (if i = 0 then 1 else yy_ec ! i)" by (simp add: yy_class_def code i_def [symmetric])
  define y where "y = yy_class c"
  have f: "y = 7 \<longleftrightarrow> 48 \<le> i \<and> i \<le> 57" "y = 2 \<longleftrightarrow> i = 32 \<or> i = 9" "y = 3 \<longleftrightarrow> i = 10" "y = 4 \<longleftrightarrow> i = 34" "y = 5 \<longleftrightarrow> i = 44"
    "y = 6 \<longleftrightarrow> i = 45" "y = 8 \<longleftrightarrow> i = 59" "y = 32 \<longleftrightarrow> i = 92" "y = 33 \<longleftrightarrow> i = 95"
    "9 \<le> y \<and> y \<le> 31 \<longleftrightarrow> 65 \<le> i \<and> i \<le> 90 \<or> 97 \<le> i \<and> i \<le> 122" "y < 34" "0 < y"
    using e by (cases "i = 0"; simp add: y_def cl)+
  show "yy_class c = 7 \<longleftrightarrow> is_digit c" "yy_class c = 2 \<longleftrightarrow> is_blank c" "yy_class c = 3 \<longleftrightarrow> c = CHR 0x0A"
    "yy_class c = 4 \<longleftrightarrow> c = CHR 0x22" "yy_class c = 5 \<longleftrightarrow> c = CHR '',''" "yy_class c = 6 \<longleftrightarrow> c = CHR ''-''"
    "yy_class c = 8 \<longleftrightarrow> c = CHR '';''" "yy_class c = 32 \<longleftrightarrow> c = CHR 0x5C"
    "9 \<le> yy_class c \<and> yy_class c \<le> 31 \<longleftrightarrow> is_letter c" "yy_class c \<in> {1..<34}"
    unfolding y_def [symmetric] code is_digit_def is_blank_def is_letter_def i_def [symmetric] using f by simp_all
  show "ident_class (yy_class c) \<longleftrightarrow> is_ident c"
    unfolding y_def [symmetric] code is_digit_def is_ident_def is_letter_def i_def [symmetric] ident_class_def f(1,9) conj_assoc [symmetric] f(10) by blast
qed

text \<open>Every class a keyword uses holds a single character, so a keyword is its sequence of classes.\<close>

definition keyword_classes :: "nat list list" where
  "keyword_classes =
    [[26, 13, 26, 26, 17, 23, 22, 33, 26, 17, 31, 13],
     [26, 20, 13, 13, 24, 33, 27, 17, 21, 13],
     [11, 17, 25, 11, 20, 13, 33, 10, 28, 14, 14, 13, 25, 33, 26, 17, 31, 13],
     [21, 9, 30, 33, 24, 23, 25, 27, 26],
     [25, 13, 9, 20, 33, 27, 17, 21, 13, 33, 12, 13, 9, 12, 33, 20, 17, 22, 13],
     [25, 13, 9, 20, 33, 27, 17, 21, 13, 33, 28, 26, 13, 25, 33, 12, 13, 14, 17, 22, 13, 12],
     [27, 25, 28, 22, 19, 33, 9, 11, 11, 13, 24, 27, 33, 28, 25, 17],
     [27, 25, 28, 22, 19, 33, 12, 17, 26, 24, 9, 27, 11, 16, 33, 28, 25, 17],
     [26, 11, 16, 13, 12, 28, 20, 13, 25, 33, 24, 25, 13, 13, 21, 24, 27, 17, 29, 13, 33, 12, 13, 9, 12, 20, 17, 22, 13],
     [25, 10, 33, 20, 23, 15, 33, 20, 13, 29, 13, 20]]"

lemma keyword_classes_eq: "map (map yy_class) keyword_texts = keyword_classes"
  by (simp add: keyword_texts_def keyword_classes_def yy_class_def yy_ec_def)

definition single_class :: "nat \<Rightarrow> bool" where
  "single_class k \<longleftrightarrow> 9 \<le> k \<and> k \<le> 33 \<and> k \<noteq> 18 \<and> k \<noteq> 32"

lemma keyword_classes_single: "\<forall>ks \<in> set keyword_classes. \<forall>k \<in> set ks. single_class k"
  by (simp add: keyword_classes_def single_class_def)

definition class_code :: "nat list" where
  "class_code = [65, 66, 67, 68, 69, 70, 71, 72, 73, 74, 75, 76, 77, 78, 79, 80, 82, 83, 84, 85, 86, 88, 90, 92, 95]"

lemma single_code: "i < 256 \<Longrightarrow> single_class (yy_ec ! i) \<longrightarrow> class_code ! (yy_ec ! i - 9) = i"
  unfolding yy_ec_def by (rule table_everywhere) (simp_all add: single_class_def class_code_def)

lemma single_class_inj:
  assumes "single_class (yy_class c)" and "yy_class d = yy_class c"
  shows "d = c"
proof -
  have code: "class_code ! (yy_class x - 9) = (of_char x :: nat)" if "single_class (yy_class x)" for x
  proof -
    have y: "yy_class x = yy_ec ! of_char x" using that by (auto simp: yy_class_def single_class_def split: if_splits)
    show ?thesis using single_code [of "of_char x"] that unfolding y by simp
  qed
  have "(of_char d :: nat) = of_char c" using code [of c] code [of d] assms by metis
  then show ?thesis by (simp only: of_char_eq_iff)
qed

lemma keyword_by_classes:
  assumes "k \<in> set keyword_texts" and "map yy_class w = map yy_class k"
  shows "w = k"
proof -
  have "map yy_class k \<in> set keyword_classes" using assms(1) by (simp add: keyword_classes_eq [symmetric])
  then have "\<forall>c \<in> set k. single_class (yy_class c)" using keyword_classes_single by fastforce
  then show ?thesis using assms(2) single_class_inj
    by (induction k arbitrary: w) (auto simp: map_eq_Cons_conv)
qed

text \<open>One row at a time: the successors of a state over the classes 1 to 33.\<close>

lemma over_classes: "map f (1 # [2..<34]) = map g (1 # [2..<34]) \<Longrightarrow> k \<in> {1..<34} \<Longrightarrow> f k = g k"
proof -
  assume "map f (1 # [2..<34]) = map g (1 # [2..<34])" and "k \<in> {1..<34}"
  moreover have "set (1 # [2..<34]) = {1..<34 :: nat}" unfolding list.set set_upt by auto
  ultimately show "f k = g k" unfolding map_eq_conv by blast
qed

lemma find_start: "map (yy_find 1) (1 # [2..<34]) = map Some [4, 5, 6, 7, 8, 9, 10, 11, 12, 12, 13, 12, 12, 12, 12, 12, 12, 12, 12, 12,
    14, 12, 12, 12, 15, 16, 17, 12, 12, 12, 12, 4, 4]"
  by (simp add: yy_find.simps table_entries flip: numeral_2_eq_2)

lemma find_default:
  "map (\<lambda>k. yy_find 167 (yy_meta ! k)) (1 # [2..<34]) = map (\<lambda>k. Some (if ident_class k then 23 else 165)) (1 # [2..<34])"
  by (simp add: yy_find.simps table_entries ident_class_def flip: numeral_2_eq_2)

lemma find_digits:
  "s \<in> {10, 22} \<Longrightarrow> map (yy_find s) (1 # [2..<34]) = map (\<lambda>k. Some (if k = 7 then 22 else 165)) (1 # [2..<34])"
  by (elim insertE emptyE) (simp_all add: yy_find.simps table_entries flip: numeral_2_eq_2)

lemma find_blanks:
  "s \<in> {5, 18} \<Longrightarrow> map (yy_find s) (1 # [2..<34]) = map (\<lambda>k. Some (if k = 2 then 18 else 165)) (1 # [2..<34])"
  by (elim insertE emptyE) (simp_all add: yy_find.simps table_entries flip: numeral_2_eq_2)

lemma find_string:
  "s \<in> {7, 19} \<Longrightarrow> map (yy_find s) (1 # [2..<34]) = map (\<lambda>k. Some (if k = 4 then 20 else if k = 32 then 21 else 19)) (1 # [2..<34])"
  by (elim insertE emptyE) (simp_all add: yy_find.simps table_entries flip: numeral_2_eq_2)

lemma find_escape: "map (yy_find 21) (1 # [2..<34]) = map (\<lambda>k. Some (if k = 3 then 165 else 19)) (1 # [2..<34])"
  by (simp add: yy_find.simps table_entries flip: numeral_2_eq_2)

section \<open>The states of identifiers\<close>

text \<open>What a prefix of an identifier leaves of the keywords: the number of each rule still possible and the
  classes it still expects.\<close>

type_synonym rest = "(nat \<times> nat list) list"

definition firsts :: "rest \<Rightarrow> nat list" where
  "firsts rs = remdups (map (hd \<circ> snd) (filter (\<lambda>x. snd x \<noteq> []) rs))"

definition after :: "nat \<Rightarrow> rest \<Rightarrow> rest" where
  "after k rs = map (\<lambda>x. (fst x, tl (snd x))) (filter (\<lambda>x. snd x \<noteq> [] \<and> hd (snd x) = k) rs)"

text \<open>The action for an identifier that goes on with the classes \<open>ks\<close> and ends there.\<close>

definition action_of :: "rest \<Rightarrow> nat list \<Rightarrow> nat" where
  "action_of rs ks = (case filter (\<lambda>x. snd x = ks) rs of [] \<Rightarrow> 15 | x # _ \<Rightarrow> fst x)"

definition node_ok :: "nat \<Rightarrow> rest \<Rightarrow> bool" where
  "node_ok s rs \<longleftrightarrow> yy_base ! s < 188 \<and> yy_def ! s = 167 \<and> yy_accept ! s = action_of rs [] \<and> yy_accept ! s \<noteq> 0 \<and>
     list_all ident_class (firsts rs) \<and>
     list_all (\<lambda>k. yy_chk ! (yy_base ! s + k) = s \<longleftrightarrow> k \<in> set (firsts rs)) (1 # [2..<34])"

definition next_nodes :: "nat \<Rightarrow> rest \<Rightarrow> (nat \<times> rest) list" where
  "next_nodes s rs = map (\<lambda>k. (yy_nxt ! (yy_base ! s + k), after k rs)) (firsts rs)"

fun walk :: "nat \<Rightarrow> (nat \<times> rest) list \<Rightarrow> bool" where
  "walk n [] = True"
| "walk 0 (x # xs) = False"
| "walk (Suc n) (x # xs) = (node_ok (fst x) (snd x) \<and> walk n (next_nodes (fst x) (snd x) @ xs))"

lemma walk_closed:
  "walk n xs \<Longrightarrow> \<exists>N. set xs \<subseteq> N \<and> (\<forall>(s, rs) \<in> N. node_ok s rs \<and> set (next_nodes s rs) \<subseteq> N)"
proof (induction n xs rule: walk.induct)
  case (3 n x xs)
  then obtain N where "set (next_nodes (fst x) (snd x) @ xs) \<subseteq> N" "\<forall>(s, rs) \<in> N. node_ok s rs \<and> set (next_nodes s rs) \<subseteq> N"
    by auto
  then show ?case using "3.prems" by (intro exI [of _ "insert x N"]) auto
qed auto

definition all_keywords :: rest where
  "all_keywords = zip [1..<11] keyword_classes"

definition start_nodes :: "(nat \<times> rest) list" where
  "start_nodes = map (\<lambda>x. (fst x, after (snd x) all_keywords)) [(13, 11), (14, 21), (15, 25), (16, 26), (17, 27)] @ [(12, []), (23, [])]"

lemma walk_numeral:
  "walk (numeral n) (x # xs) = (node_ok (fst x) (snd x) \<and> walk (pred_numeral n) (next_nodes (fst x) (snd x) @ xs))"
  by (simp add: numeral_eq_Suc)

lemma walk_start: "walk 150 start_nodes"
  by (simp add: start_nodes_def all_keywords_def keyword_classes_def upt_conv_Cons walk_numeral node_ok_def ident_class_def next_nodes_def firsts_def after_def action_of_def table_entries flip: numeral_2_eq_2)

section \<open>Running over a token\<close>

definition token_from :: "nat \<times> nat \<Rightarrow> nat \<Rightarrow> nat \<Rightarrow> string \<Rightarrow> (nat \<times> nat) option" where
  "token_from la cp s cs = map_option yy_find_action (yy_run la cp s cs)"

lemma token_from_Nil: "token_from la cp s [] = Some (yy_find_action (s, la, cp))"
  by (simp add: token_from_def)

lemma token_from_Cons:
  "yy_find s (yy_class c) = Some t \<Longrightarrow> token_from la cp s (c # cs) =
     (let la' = (if yy_accept ! s \<noteq> 0 then (s, cp) else la)
      in if yy_base ! t \<noteq> 188 then token_from la' (cp + 1) t cs else Some (yy_find_action (t, la', cp + 1)))"
  by (simp add: token_from_def Let_def)

lemma run_digits: "s \<in> {10, 22} \<Longrightarrow> token_from la cp s cs = Some (11, cp + length (takeWhile is_digit cs))"
proof (induction cs arbitrary: s la cp)
  case (Cons c cs)
  have "yy_find s (yy_class c) = Some (if is_digit c then 22 else 165)"
    using over_classes [OF find_digits [OF Cons.prems] class_cases(11)] by (simp add: class_cases)
  then show ?case using Cons by (auto simp: token_from_Cons table_entries yy_find_action_def)
qed (auto simp: token_from_Nil yy_find_action_def table_entries)

lemma run_blanks: "s \<in> {5, 18} \<Longrightarrow> token_from la cp s cs = Some (17, cp + length (takeWhile is_blank cs))"
proof (induction cs arbitrary: s la cp)
  case (Cons c cs)
  have "yy_find s (yy_class c) = Some (if is_blank c then 18 else 165)"
    using over_classes [OF find_blanks [OF Cons.prems] class_cases(11)] by (simp add: class_cases)
  then show ?case using Cons by (auto simp: token_from_Cons table_entries yy_find_action_def)
qed (auto simp: token_from_Nil yy_find_action_def table_entries)

lemma string_step:
  "s \<in> {7, 19} \<Longrightarrow> yy_find s (yy_class c) = Some (if c = CHR 0x22 then 20 else if c = CHR 0x5C then 21 else 19)"
  "yy_find 21 (yy_class c) = Some (if c = CHR 0x0A then 165 else 19)"
  using over_classes [OF find_string class_cases(11)] over_classes [OF find_escape class_cases(11)] by (simp_all add: class_cases)

lemma run_string_body:
  "token_from la cp 19 cs =
     Some (case string_body cs of None \<Rightarrow> (yy_accept ! fst la, snd la) | Some n \<Rightarrow> (16, cp + n))"
proof (induction cs arbitrary: cp rule: string_body.induct)
  case (2 c cs)
  show ?case
  proof (cases "c = CHR 0x5C")
    case True
    then show ?thesis using 2(1)
      by (cases cs) (auto simp: token_from_Cons token_from_Nil string_step table_entries yy_find_action_def split: option.split)
  next
    case False
    then show ?thesis using 2(2)
      by (auto simp: token_from_Cons string_step table_entries yy_find_action_def split: option.split)
  qed
qed (simp add: token_from_Nil yy_find_action_def table_entries)

lemma run_string_start:
  "token_from la cp 7 cs = Some (case string_body cs of None \<Rightarrow> (19, cp) | Some n \<Rightarrow> (16, cp + n))"
proof -
  have "token_from la cp 7 cs = token_from (7, cp) cp 19 cs"
    by (cases cs) (simp_all add: token_from_Cons token_from_Nil string_step table_entries yy_find_action_def)
  then show ?thesis by (simp add: run_string_body table_entries split: option.split)
qed

lemma node_okD:
  assumes "node_ok s rs"
  shows "yy_base ! s < 188" "yy_def ! s = 167" "yy_accept ! s = action_of rs []" "yy_accept ! s \<noteq> 0" "k \<in> set (firsts rs) \<Longrightarrow> ident_class k"
  using assms unfolding node_ok_def list_all_iff by blast+

text \<open>An identifier runs through the nodes of the keywords it may still be, or in state 23.\<close>

lemma node_step:
  assumes "node_ok s rs" and "k \<in> {1..<34}"
  shows "yy_find s k = Some (if k \<in> set (firsts rs) then yy_nxt ! (yy_base ! s + k) else if ident_class k then 23 else 165)"
proof -
  have "k \<in> set (1 # [2..<34])" using assms(2) unfolding list.set set_upt by auto
  then have entry: "yy_chk ! (yy_base ! s + k) = s \<longleftrightarrow> k \<in> set (firsts rs)"
    using assms(1) unfolding node_ok_def list_all_iff by blast
  have "yy_find 167 (yy_meta ! k) = Some (if ident_class k then 23 else 165)"
    by (rule over_classes [OF find_default assms(2)])
  then show ?thesis using entry node_okD(2) [OF assms(1)] by (simp add: yy_find.simps [of s])
qed

lemma action_of_after: "action_of (after k rs) ks = action_of rs (k # ks)"
proof -
  have "filter (\<lambda>x. snd x = ks) (after k rs) = map (\<lambda>x. (fst x, tl (snd x))) (filter (\<lambda>x. snd x = k # ks) rs)"
    by (induction rs) (auto simp: after_def neq_Nil_conv)
  then show ?thesis by (simp add: action_of_def split: list.split)
qed

lemma action_of_first: "k \<notin> set (firsts rs) \<Longrightarrow> action_of rs (k # ks) = 15"
  by (force simp: action_of_def firsts_def filter_empty_conv split: list.split dest!: filter_eq_ConsD)

lemma run_ident:
  assumes N: "\<forall>(s, rs) \<in> N. node_ok s rs \<and> set (next_nodes s rs) \<subseteq> N" and "(23, []) \<in> N" and "(s, rs) \<in> N"
  shows "token_from la cp s cs =
     Some (action_of rs (map yy_class (takeWhile is_ident cs)), cp + length (takeWhile is_ident cs))"
  using assms(3)
proof (induction cs arbitrary: s rs la cp)
  case Nil
  then have "node_ok s rs" using N by auto
  then show ?case by (simp add: token_from_Nil yy_find_action_def node_okD(4) flip: node_okD(3))
next
  case (Cons c cs)
  let ?k = "yy_class c"
  have ok: "node_ok s rs" and sub: "set (next_nodes s rs) \<subseteq> N" using N Cons.prems by auto
  note step = node_step [OF ok class_cases(11) [of c]]
  show ?case
  proof (cases "is_ident c")
    case True
    define t and rs' where "t = (if ?k \<in> set (firsts rs) then yy_nxt ! (yy_base ! s + ?k) else 23)"
      and "rs' = (if ?k \<in> set (firsts rs) then after ?k rs else [])"
    have tN: "(t, rs') \<in> N" using sub assms(2) by (auto simp: t_def rs'_def next_nodes_def)
    then have base: "yy_base ! t < 188" using N node_okD(1) by blast
    have act: "action_of rs' ks = action_of rs (?k # ks)" for ks
      by (simp add: rs'_def action_of_after action_of_first) (simp add: action_of_def)
    have "yy_find s ?k = Some t" using step True by (simp add: t_def class_cases)
    then show ?thesis using True base by (simp add: token_from_Cons Cons.IH [OF tN] act)
  next
    case False
    then have "?k \<notin> set (firsts rs)" using node_okD(5) [OF ok] class_cases(10) by blast
    then have "yy_find s ?k = Some 165" using step False by (simp add: class_cases)
    moreover have "yy_accept ! s \<noteq> 0" "yy_accept ! s = action_of rs []" using node_okD [OF ok] by blast+
    ultimately show ?thesis using False by (simp add: token_from_Cons table_entries yy_find_action_def)
  qed
qed

section \<open>The automaton and the rules\<close>

text \<open>The first character decides.\<close>

lemma start_state:
  "yy_find 1 (yy_class c) = Some (if is_blank c then 5 else if c = CHR 0x0A then 6 else if c = CHR 0x22 then 7
     else if c = CHR '','' then 8 else if c = CHR ''-'' then 9 else if is_digit c then 10 else if c = CHR '';'' then 11
     else if \<not> is_letter c then 4
     else if yy_class c = 11 then 13 else if yy_class c = 21 then 14 else if yy_class c = 25 then 15
     else if yy_class c = 26 then 16 else if yy_class c = 27 then 17 else 12)"
proof -
  have "map (yy_find 1) (1 # [2..<34]) = map (\<lambda>k. Some (if k = 2 then 5 else if k = 3 then 6 else if k = 4 then 7
     else if k = 5 then 8 else if k = 6 then 9 else if k = 7 then 10 else if k = 8 then 11
     else if \<not> (9 \<le> k \<and> k \<le> 31) then 4
     else if k = 11 then 13 else if k = 21 then 14 else if k = 25 then 15
     else if k = 26 then 16 else if k = 27 then 17 else 12)) (1 # [2..<34])"
    by (simp add: yy_find.simps table_entries flip: numeral_2_eq_2)
  from over_classes [OF this class_cases(11) [of c]] show ?thesis unfolding class_cases(1-9) .
qed

lemma longest_other:
  assumes "\<not> is_letter c"
  shows "longest rules (c # cs) = Some (
     if is_digit c then (R_NUMBER, length (takeWhile is_digit (c # cs)))
     else if is_blank c then (R_BLANK, length (takeWhile is_blank (c # cs)))
     else if c = CHR '','' then (R_COMMA, 1) else if c = CHR '';'' then (R_SEMICOLON, 1) else if c = CHR ''-'' then (R_DASH, 1)
     else if c = CHR 0x0A then (R_NEWLINE, 1)
     else if c = CHR 0x22 then (case string_body cs of None \<Rightarrow> (R_ANY, 1) | Some n \<Rightarrow> (R_STRING, Suc n))
     else (R_ANY, 1))"
proof -
  have digit: "is_digit c \<Longrightarrow> \<not> is_blank c \<and> c \<noteq> CHR '','' \<and> c \<noteq> CHR '';'' \<and> c \<noteq> CHR ''-'' \<and> c \<noteq> CHR 0x0A \<and> c \<noteq> CHR 0x22"
    by (auto simp: is_digit_def is_blank_def)
  have blank: "is_blank c \<Longrightarrow> c \<noteq> CHR '','' \<and> c \<noteq> CHR '';'' \<and> c \<noteq> CHR ''-'' \<and> c \<noteq> CHR 0x0A \<and> c \<noteq> CHR 0x22"
    by (auto simp: is_blank_def)
  have start: "longest rules (c # cs) = longest [R_NUMBER, R_COMMA, R_SEMICOLON, R_DASH, R_IDENT, R_STRING, R_BLANK, R_NEWLINE, R_ANY] (c # cs)"
    using assms by (intro longest_not_letter) simp
  consider "is_digit c" | "is_blank c" | "c = CHR 0x22" | "c \<in> {CHR '','', CHR '';'', CHR ''-'', CHR 0x0A}"
    | "\<not> is_digit c" "\<not> is_blank c" "c \<noteq> CHR 0x22" "c \<notin> {CHR '','', CHR '';'', CHR ''-'', CHR 0x0A}" by blast
  then show ?thesis
  proof cases
    case 1
    then show ?thesis using assms digit unfolding start by (simp add: literal_def)
  next
    case 2
    then show ?thesis using assms blank digit unfolding start by (cases "is_digit c") (simp_all add: literal_def)
  next
    case 3
    have "\<not> is_digit c" "\<not> is_blank c" using 3 by (simp_all add: is_digit_def is_blank_def)
    then show ?thesis using assms 3 unfolding start by (simp add: literal_def split: option.split)
  next
    case 4
    then have "\<not> is_digit c" "\<not> is_blank c" by (auto simp: is_digit_def is_blank_def)
    then show ?thesis using assms 4 unfolding start by (elim insertE emptyE) (simp_all add: literal_def)
  next
    case 5
    then show ?thesis using assms unfolding start by (simp add: literal_def)
  qed
qed

lemma keyword_action:
  defines "a w \<equiv> action_of all_keywords (map yy_class w)"
  shows "0 < a w \<and> a w \<le> 15 \<and> rules ! (a w - 1) = (if w \<in> set keyword_texts then R_KEYWORD w else R_IDENT)"
proof -
  have len: "length keyword_classes = 10" "length keyword_texts = 10" by (simp_all add: keyword_classes_def keyword_texts_def)
  have rule: "i < 10 \<Longrightarrow> rules ! i = R_KEYWORD (keyword_texts ! i)" for i by (simp add: rules_def nth_append len)
  have ident: "rules ! 14 = R_IDENT" by (simp add: rules_def keyword_texts_def)
  show ?thesis
  proof (cases "filter (\<lambda>x. snd x = map yy_class w) all_keywords")
    case Nil
    have "w \<notin> set keyword_texts"
    proof
      assume "w \<in> set keyword_texts"
      then have "map yy_class w \<in> set keyword_classes" by (simp add: keyword_classes_eq [symmetric])
      then have "map yy_class w \<in> snd ` set all_keywords" by (simp add: all_keywords_def len flip: set_map)
      then show False using Nil by (auto simp: filter_empty_conv)
    qed
    then show ?thesis using Nil ident by (simp add: a_def action_of_def)
  next
    case (Cons x xs)
    then have "x \<in> set (filter (\<lambda>x. snd x = map yy_class w) all_keywords)" by simp
    then have "x \<in> set all_keywords" "snd x = map yy_class w" by simp_all
    then obtain i where i: "i < 10" "x = (Suc i, keyword_classes ! i)" "keyword_classes ! i = map yy_class w"
      by (auto simp: all_keywords_def set_zip len)
    have "keyword_classes ! i = map yy_class (keyword_texts ! i)" using i(1) by (simp add: keyword_classes_eq [symmetric] len)
    then have "map yy_class w = map yy_class (keyword_texts ! i)" using i(3) by metis
    moreover have mem: "keyword_texts ! i \<in> set keyword_texts" using i(1) len by simp
    ultimately have w: "w = keyword_texts ! i" by (intro keyword_by_classes)
    have "a w = Suc i" using Cons i(2) by (simp add: a_def action_of_def)
    then show ?thesis using i(1) rule mem w by simp
  qed
qed

lemma firsts_all: "set (firsts all_keywords) = {11, 21, 25, 26, 27}"
  by (auto simp: all_keywords_def firsts_def keyword_classes_def upt_conv_Cons)

lemma start_ident:
  assumes "is_letter c" and "yy_find 1 (yy_class c) = Some t"
  shows "(t, if yy_class c \<in> set (firsts all_keywords) then after (yy_class c) all_keywords else []) \<in> set start_nodes"
  using assms(2) letter_not [OF assms(1)] assms(1) unfolding start_state firsts_all
  by (auto simp: start_nodes_def split: if_splits)

lemma yy_match_ident:
  assumes "is_letter c"
  shows "yy_match la (c # cs) = Some (action_of all_keywords (map yy_class (takeWhile is_ident (c # cs))), length (takeWhile is_ident (c # cs)))"
proof -
  let ?k = "yy_class c" and ?rest = "if yy_class c \<in> set (firsts all_keywords) then after (yy_class c) all_keywords else []"
  obtain N where N: "set start_nodes \<subseteq> N" "\<forall>(s, rs) \<in> N. node_ok s rs \<and> set (next_nodes s rs) \<subseteq> N"
    using walk_closed [OF walk_start] by blast
  obtain t where t: "yy_find 1 ?k = Some t" using start_state [of c] by blast
  have tN: "(t, ?rest) \<in> N" "(23, []) \<in> N" using start_ident [OF assms t] N(1) by (auto simp: start_nodes_def)
  then have base: "yy_base ! t < 188" using N(2) node_okD(1) by blast
  have act: "action_of ?rest ks = action_of all_keywords (?k # ks)" for ks
    by (simp add: action_of_after action_of_first) (simp add: action_of_def)
  have "is_ident c" using assms by (simp add: is_ident_def)
  moreover have "yy_match la (c # cs) = token_from la 1 t cs"
    using t base by (simp add: yy_match_def token_from_def table_entries)
  ultimately show ?thesis using run_ident [OF N(2) tN(2,1), of la 1 cs] by (simp add: act)
qed

text \<open>The other tokens, by their first character.\<close>

lemma yy_match_Cons:
  "yy_find 1 (yy_class c) = Some t \<Longrightarrow> yy_match la (c # cs) =
     (if yy_base ! t \<noteq> 188 then token_from la 1 t cs else Some (yy_find_action (t, la, 1)))"
  by (simp add: yy_match_def token_from_def table_entries)

lemma rule_number:
  "rules ! 10 = R_NUMBER" "rules ! 11 = R_COMMA" "rules ! 12 = R_SEMICOLON" "rules ! 13 = R_DASH" "rules ! 14 = R_IDENT"
  "rules ! 15 = R_STRING" "rules ! 16 = R_BLANK" "rules ! 17 = R_NEWLINE" "rules ! 18 = R_ANY"
  by (simp_all add: rules_def keyword_texts_def)

lemma yy_match_other:
  assumes "\<not> is_letter c"
  shows "\<exists>act n. yy_match la (c # cs) = Some (act, n) \<and> 0 < act \<and> act \<le> 19 \<and> longest rules (c # cs) = Some (rules ! (act - 1), n)"
proof -
  have digit: "is_digit c \<Longrightarrow> \<not> is_blank c \<and> c \<noteq> CHR '','' \<and> c \<noteq> CHR '';'' \<and> c \<noteq> CHR ''-'' \<and> c \<noteq> CHR 0x0A \<and> c \<noteq> CHR 0x22"
    by (auto simp: is_digit_def is_blank_def)
  have blank: "is_blank c \<Longrightarrow> c \<noteq> CHR '','' \<and> c \<noteq> CHR '';'' \<and> c \<noteq> CHR ''-'' \<and> c \<noteq> CHR 0x0A \<and> c \<noteq> CHR 0x22"
    by (auto simp: is_blank_def)
  note long = longest_other [OF assms, of cs] and found = yy_match_Cons [OF start_state, of la c cs]
  consider "is_digit c" | "is_blank c" | "c = CHR 0x22" | "c \<in> {CHR '','', CHR '';'', CHR ''-'', CHR 0x0A}"
    | "\<not> is_digit c" "\<not> is_blank c" "c \<noteq> CHR 0x22" "c \<notin> {CHR '','', CHR '';'', CHR ''-'', CHR 0x0A}" by blast
  then show ?thesis
  proof cases
    case 1
    then show ?thesis using digit long found by (simp add: run_digits table_entries rule_number)
  next
    case 2
    then show ?thesis using blank long found digit by (cases "is_digit c") (simp_all add: run_blanks table_entries rule_number)
  next
    case 3
    have "\<not> is_digit c" "\<not> is_blank c" using 3 by (simp_all add: is_digit_def is_blank_def)
    then show ?thesis using 3 long found
      by (cases "string_body cs") (simp_all add: run_string_start table_entries rule_number)
  next
    case 4
    then have "\<not> is_digit c" "\<not> is_blank c" by (auto simp: is_digit_def is_blank_def)
    then show ?thesis using 4 long found
      by (elim insertE emptyE) (simp_all add: table_entries rule_number yy_find_action_def)
  next
    case 5
    then show ?thesis using long found assms by (simp add: table_entries rule_number yy_find_action_def)
  qed
qed

lemma yy_match_longest:
  assumes "s \<noteq> []"
  shows "\<exists>act n. yy_match la s = Some (act, n) \<and> 0 < act \<and> act \<le> 19 \<and> longest rules s = Some (rules ! (act - 1), n)"
proof -
  obtain c cs where s: "s = c # cs" using assms by (cases s) auto
  show ?thesis
  proof (cases "is_letter c")
    case True
    let ?w = "takeWhile is_ident s" and ?t = "dropWhile is_ident s"
    have w: "?w = c # takeWhile is_ident cs" using True by (simp add: s is_ident_def)
    have "?t = [] \<or> \<not> is_ident (hd ?t)" using hd_dropWhile [of is_ident s] by blast
    then have "longest rules (?w @ ?t) = Some (if ?w \<in> set keyword_texts then R_KEYWORD ?w else R_IDENT, length ?w)"
      using True w by (intro longest_ident) (auto simp: is_ident_def dest: set_takeWhileD)
    then show ?thesis using yy_match_ident [OF True, of la cs] keyword_action [of ?w] by (auto simp: s)
  qed (use yy_match_other s in blast)
qed

lemma scanner_action_rule: "0 < act \<Longrightarrow> act \<le> 19 \<Longrightarrow> scanner_action act yytext = rule_action (rules ! (act - 1)) yytext"
proof -
  assume "0 < act" and "act \<le> 19"
  then have "act \<in> set (1 # [2..<20])" unfolding list.set set_upt by auto
  moreover have "\<forall>act \<in> set (1 # [2..<20]). scanner_action act yytext = rule_action (rules ! (act - 1)) yytext"
    by (simp add: rules_def keyword_texts_def scanner_action_def)
  ultimately show ?thesis by blast
qed

section \<open>Property\<close>

text \<open>C2: The compiled lexer is the rule file: for every input and whatever the static variables of the
  matching loop hold, a call of \<open>yylex\<close> with flex's tables returns, with the token, the remaining input
  and the configuration that longest match over the rules gives.\<close>

theorem scanner_implements_rules: "scanner_yylex la s st = Some (yylex s st)"
proof (induction s st rule: yylex.induct)
  case (1 s st)
  show ?case
  proof (cases "s = []")
    case True
    then show ?thesis by (simp add: scanner_yylex.simps yylex.simps longest_nil)
  next
    case False
    obtain act n where act: "yy_match la s = Some (act, n)" "0 < act" "act \<le> 19" "longest rules s = Some (rules ! (act - 1), n)"
      using yy_match_longest [OF False] by blast
    show ?thesis
    proof (cases "rule_action (rules ! (act - 1)) (take n s)")
      case None
      then have "scanner_yylex la (drop n s) st = Some (yylex (drop n s) st)" using 1 act(4) by blast
      then show ?thesis using None act False scanner_action_rule [OF act(2,3)]
        by (simp add: scanner_yylex.simps [of la s] yylex.simps [of s])
    next
      case (Some a)
      then show ?thesis using act False scanner_action_rule [OF act(2,3)]
        by (cases a) (simp add: scanner_yylex.simps [of la s] yylex.simps [of s])
    qed
  qed
qed

end
