(* ===== verification/Orbit_Flex.thy ===== *)
theory Orbit_Flex
  imports Orbit_Scanner
begin

text \<open>
  The buffer of the compiled lexer, \<^verbatim>\<open>src/parser/scanner.c\<close>: \<open>yylex\<close> with its three labels, the
  refilling of the buffer in pieces by \<open>yy_get_next_buffer\<close>, and the functions that create and restart
  it. \<open>Orbit_Scanner\<close> matches a token in a text that is all there; here the text arrives in the pieces
  \<open>fread\<close> delivers, a token may lie across several of them and outgrow the buffer, and the result is shown
  to be the same.

  A pointer into the buffer is its offset. The stream behind \<open>yyin\<close> is the text not read from it yet;
  \<open>yyin\<close> and the buffer's \<open>yy_input_file\<close> name the same stream whenever the code reads through them. The
  stack of buffers holds at most the one \<open>yylex\<close> creates, since nothing in the program pushes another; its
  own small block, and that of the buffer's record, are always to be had, the text of the buffer is not.
  \<open>yywrap\<close> is the macro 1. Reading from the stream does not fail. The fields nothing here reads (the line and
  column of a buffer, the start of a line, whether the stream is a terminal, which only decides how the
  pieces are cut) are left out.
\<close>

section \<open>State\<close>

datatype buffer_status = YY_BUFFER_NEW | YY_BUFFER_NORMAL | YY_BUFFER_EOF_PENDING

text \<open>The current buffer and the static variables of the scanner. The line count is not bounded here; in C it
  is an \<open>int\<close>.\<close>

record flex =
  fx_exists :: bool
  fx_ch_buf :: string
  fx_buf_pos :: nat
  fx_buf_size :: nat
  fx_buf_n_chars :: nat
  fx_is_our_buffer :: bool
  fx_fill_buffer :: bool
  fx_status :: buffer_status
  fx_n_chars :: nat
  fx_c_buf_p :: nat
  fx_text :: nat
  fx_leng :: nat
  fx_hold :: char
  fx_last :: "nat \<times> nat"
  fx_start :: nat
  fx_init :: bool
  fx_lineno :: nat
  fx_in :: string

text \<open>What the C library does: how many characters \<open>fread\<close> or the loop over \<open>getc\<close> delivers when asked for
  so many of the rest of the stream, the contents of fresh memory, and whether a block of a size is to
  be had.\<close>

record yy_env =
  en_read :: "nat \<Rightarrow> string \<Rightarrow> nat"
  en_junk :: "nat \<Rightarrow> char"
  en_alloc :: "nat \<Rightarrow> bool"

definition YY_BUF_SIZE :: nat where "YY_BUF_SIZE = 16384"
definition YY_READ_BUF_SIZE :: nat where "YY_READ_BUF_SIZE = 8192"
definition YY_END_OF_BUFFER :: nat where "YY_END_OF_BUFFER = 21"

text \<open>\<open>YY_STATE_EOF(INITIAL)\<close>.\<close>

definition YY_STATE_EOF :: nat where "YY_STATE_EOF = YY_END_OF_BUFFER + 0 + 1"

definition yy_rule_can_match_eol :: "nat list" where
  "yy_rule_can_match_eol = [0, 0, 0, 0, 0, 0, 0, 0, 0, 0, 0, 0, 0, 0, 0, 0, 1, 0, 1, 0, 0]"

section \<open>The buffer\<close>

definition yy_load_buffer_state :: "flex \<Rightarrow> flex" where
  "yy_load_buffer_state f =
     f\<lparr>fx_n_chars := fx_buf_n_chars f, fx_text := fx_buf_pos f, fx_c_buf_p := fx_buf_pos f,
       fx_hold := fx_ch_buf f ! fx_buf_pos f\<rparr>"

text \<open>\<open>yy_flush_buffer\<close> and \<open>yy_init_buffer\<close>; the first argument says whether the buffer is the current one
  already.\<close>

definition yy_flush_buffer :: "bool \<Rightarrow> flex \<Rightarrow> flex" where
  "yy_flush_buffer current f =
     (let f1 = f\<lparr>fx_buf_n_chars := 0, fx_ch_buf := (fx_ch_buf f)[0 := NUL, 1 := NUL], fx_buf_pos := 0,
                 fx_status := YY_BUFFER_NEW\<rparr>
      in if current then yy_load_buffer_state f1 else f1)"

definition yy_init_buffer :: "bool \<Rightarrow> flex \<Rightarrow> flex" where
  "yy_init_buffer current f = (yy_flush_buffer current f)\<lparr>fx_fill_buffer := True\<rparr>"

definition yy_create_buffer :: "yy_env \<Rightarrow> nat \<Rightarrow> flex \<Rightarrow> flex res" where
  "yy_create_buffer en bytes f =
     (if \<not> en_alloc en (bytes + 2) then Inl Exits
      else Inr ((yy_init_buffer False (f\<lparr>fx_buf_size := bytes, fx_ch_buf := map (en_junk en) [0..<bytes + 2],
                   fx_is_our_buffer := True\<rparr>))\<lparr>fx_exists := True\<rparr>))"

definition yyrestart :: "yy_env \<Rightarrow> flex \<Rightarrow> flex res" where
  "yyrestart en f =
     and_then (if fx_exists f then Inr f else yy_create_buffer en YY_BUF_SIZE f) (\<lambda>f1.
       Inr (yy_load_buffer_state (yy_init_buffer True f1)))"

text \<open>The loop that makes room: the size doubles, or grows by an eighth where doubling leaves the range of
  \<open>int\<close>.\<close>

partial_function (option) yy_grow :: "yy_env \<Rightarrow> nat \<Rightarrow> flex \<Rightarrow> flex res option" where
  "yy_grow en number_to_move f =
     (if number_to_move + 1 < fx_buf_size f then Some (Inr f)
      else if \<not> fx_is_our_buffer f then Some (Inl Exits)
      else
        (let old = fx_buf_size f;
             size' = (if 2 ^ 31 \<le> old * 2 \<or> old * 2 = 0 then old + old div 8 else old * 2)
         in if \<not> en_alloc en (size' + 2) then Some (Inl Exits)
            else yy_grow en number_to_move
                   (f\<lparr>fx_buf_size := size',
                      fx_ch_buf := fx_ch_buf f @ map (en_junk en) [length (fx_ch_buf f)..<size' + 2]\<rparr>)))"

datatype eob_act = EOB_ACT_CONTINUE_SCAN | EOB_ACT_END_OF_FILE | EOB_ACT_LAST_MATCH

text \<open>\<open>YY_INPUT\<close> into the buffer from offset \<open>k\<close> on, at most \<open>m\<close> characters.\<close>

definition yy_input :: "yy_env \<Rightarrow> nat \<Rightarrow> nat \<Rightarrow> flex \<Rightarrow> flex" where
  "yy_input en k m f =
     (let r = en_read en m (fx_in f); b = fx_ch_buf f
      in f\<lparr>fx_ch_buf := take k b @ take r (fx_in f) @ drop (k + r) b, fx_in := drop r (fx_in f),
           fx_n_chars := r, fx_buf_n_chars := r\<rparr>)"

text \<open>The end of \<open>yy_get_next_buffer\<close>, from the test of the number of characters on.\<close>

definition yy_close_buffer :: "yy_env \<Rightarrow> nat \<Rightarrow> flex \<Rightarrow> (eob_act \<times> flex) res" where
  "yy_close_buffer en k f =
     and_then (if fx_n_chars f = 0 then
                 (if k = 0 then and_then (yyrestart en f) (\<lambda>f1. Inr (EOB_ACT_END_OF_FILE, f1))
                  else Inr (EOB_ACT_LAST_MATCH, f\<lparr>fx_status := YY_BUFFER_EOF_PENDING\<rparr>))
               else Inr (EOB_ACT_CONTINUE_SCAN, f)) (\<lambda>(act, f1).
     and_then (if fx_buf_size f1 < fx_n_chars f1 + k then
                 (let new_size = fx_n_chars f1 + k + fx_n_chars f1 div 2
                  in if \<not> en_alloc en new_size then Inl Exits
                     else Inr (f1\<lparr>fx_ch_buf := take new_size (fx_ch_buf f1) @ map (en_junk en) [length (fx_ch_buf f1)..<new_size],
                                  fx_buf_size := new_size - 2\<rparr>))
               else Inr f1) (\<lambda>f2.
     (let n = fx_n_chars f2 + k
      in if length (fx_ch_buf f2) \<le> n + 1 then Inl Out_Of_Bounds
         else Inr (act, f2\<lparr>fx_n_chars := n, fx_ch_buf := (fx_ch_buf f2)[n := NUL, n + 1 := NUL], fx_text := 0\<rparr>))))"

definition yy_get_next_buffer :: "yy_env \<Rightarrow> flex \<Rightarrow> (eob_act \<times> flex) res option" where
  "yy_get_next_buffer en f =
     (if fx_n_chars f + 1 < fx_c_buf_p f then Some (Inl Exits)
      else if \<not> fx_fill_buffer f then
        Some (Inr (if fx_c_buf_p f - fx_text f = 1 then EOB_ACT_END_OF_FILE else EOB_ACT_LAST_MATCH, f))
      else
        (let k = fx_c_buf_p f - fx_text f - 1; b = fx_ch_buf f;
             f1 = f\<lparr>fx_ch_buf := take k (drop (fx_text f) b) @ drop k b\<rparr>
         in if fx_status f1 = YY_BUFFER_EOF_PENDING then
              Some (yy_close_buffer en k (f1\<lparr>fx_n_chars := 0, fx_buf_n_chars := 0\<rparr>))
            else (case yy_grow en k f1 of
                    None \<Rightarrow> None
                  | Some (Inl e) \<Rightarrow> Some (Inl e)
                  | Some (Inr f2) \<Rightarrow>
                      Some (yy_close_buffer en k (yy_input en k (min (fx_buf_size f2 - k - 1) YY_READ_BUF_SIZE) f2)))))"

section \<open>Matching in the buffer\<close>

text \<open>The loop \<open>yy_match\<close> over the rest of the block: a zero byte, of the text or one of the two after it, has
  class 0. It cannot end before the block does.\<close>

fun yy_match_buf :: "nat \<times> nat \<Rightarrow> nat \<Rightarrow> nat \<Rightarrow> string \<Rightarrow> (nat \<times> (nat \<times> nat) \<times> nat) option" where
  "yy_match_buf la cp st [] = None"
| "yy_match_buf la cp st (c # cs) =
     (let la' = (if yy_accept ! st \<noteq> 0 then (st, cp) else la)
      in case yy_find st (yy_ec ! of_char c) of
           None \<Rightarrow> None
         | Some st' \<Rightarrow> if yy_base ! st' \<noteq> 188 then yy_match_buf la' (cp + 1) st' cs else Some (st', la', cp + 1))"

text \<open>The loop of \<open>yy_get_previous_state\<close>.\<close>

fun yy_previous :: "nat \<times> nat \<Rightarrow> nat \<Rightarrow> nat \<Rightarrow> string \<Rightarrow> (nat \<times> (nat \<times> nat)) option" where
  "yy_previous la cp st [] = Some (st, la)"
| "yy_previous la cp st (c # cs) =
     (let la' = (if yy_accept ! st \<noteq> 0 then (st, cp) else la)
      in case yy_find st (yy_class c) of None \<Rightarrow> None | Some st' \<Rightarrow> yy_previous la' (cp + 1) st' cs)"

definition yy_get_previous_state :: "flex \<Rightarrow> (nat \<times> flex) option" where
  "yy_get_previous_state f =
     map_option (\<lambda>(st, la). (st, f\<lparr>fx_last := la\<rparr>))
       (yy_previous (fx_last f) (fx_text f) (fx_start f) (take (fx_c_buf_p f - fx_text f) (drop (fx_text f) (fx_ch_buf f))))"

definition yy_try_NUL_trans :: "nat \<Rightarrow> flex \<Rightarrow> (nat \<times> flex) option" where
  "yy_try_NUL_trans st f =
     map_option (\<lambda>st'. (if st' = 165 then 0 else st',
                        if yy_accept ! st \<noteq> 0 then f\<lparr>fx_last := (st, fx_c_buf_p f)\<rparr> else f))
       (yy_find st 1)"

definition YY_DO_BEFORE_ACTION :: "nat \<Rightarrow> nat \<Rightarrow> flex \<Rightarrow> flex" where
  "YY_DO_BEFORE_ACTION bp cp f =
     f\<lparr>fx_text := bp, fx_leng := cp - bp, fx_hold := fx_ch_buf f ! cp, fx_ch_buf := (fx_ch_buf f)[cp := NUL],
       fx_c_buf_p := cp\<rparr>"

definition yytext :: "flex \<Rightarrow> string" where
  "yytext f = take (fx_leng f) (drop (fx_text f) (fx_ch_buf f))"

definition count_lines :: "nat \<Rightarrow> flex \<Rightarrow> flex" where
  "count_lines act f =
     (if act \<noteq> YY_END_OF_BUFFER \<and> yy_rule_can_match_eol ! act \<noteq> 0
      then f\<lparr>fx_lineno := fx_lineno f + length (filter (\<lambda>c. c = CHR 0x0A) (yytext f))\<rparr> else f)"

text \<open>The labels of \<open>yylex\<close> the action for the end of the buffer jumps to, with \<open>yy_bp\<close>, the state and \<open>yy_cp\<close>.\<close>

datatype yy_label = Yy_Match nat nat nat | Yy_Find_Action nat nat nat

text \<open>The action \<open>YY_END_OF_BUFFER\<close>: the label to jump to, or none at the end of the file.\<close>

definition yy_end_of_buffer :: "yy_env \<Rightarrow> nat \<Rightarrow> flex \<Rightarrow> (yy_label option \<times> flex) res option" where
  "yy_end_of_buffer en cp f0 =
     (let amount = cp - fx_text f0 - 1;
          f1 = f0\<lparr>fx_ch_buf := (fx_ch_buf f0)[cp := fx_hold f0]\<rparr>;
          f = (if fx_status f1 = YY_BUFFER_NEW then f1\<lparr>fx_n_chars := fx_buf_n_chars f1, fx_status := YY_BUFFER_NORMAL\<rparr> else f1)
      in if fx_c_buf_p f \<le> fx_n_chars f then
           Option.bind (yy_get_previous_state (f\<lparr>fx_c_buf_p := fx_text f + amount\<rparr>)) (\<lambda>(st, f2).
           Option.bind (yy_try_NUL_trans st f2) (\<lambda>(next, f3).
             if next \<noteq> 0 then
               Some (Inr (Some (Yy_Match (fx_text f3) next (fx_c_buf_p f3 + 1)), f3\<lparr>fx_c_buf_p := fx_c_buf_p f3 + 1\<rparr>))
             else Some (Inr (Some (Yy_Find_Action (fx_text f3) st (fx_c_buf_p f3)), f3))))
         else
           (case yy_get_next_buffer en f of
              None \<Rightarrow> None
            | Some (Inl e) \<Rightarrow> Some (Inl e)
            | Some (Inr (EOB_ACT_END_OF_FILE, f2)) \<Rightarrow> Some (Inr (None, f2\<lparr>fx_c_buf_p := fx_text f2\<rparr>))
            | Some (Inr (EOB_ACT_CONTINUE_SCAN, f2)) \<Rightarrow>
                Option.bind (yy_get_previous_state (f2\<lparr>fx_c_buf_p := fx_text f2 + amount\<rparr>)) (\<lambda>(st, f3).
                  Some (Inr (Some (Yy_Match (fx_text f3) st (fx_c_buf_p f3)), f3)))
            | Some (Inr (EOB_ACT_LAST_MATCH, f2)) \<Rightarrow>
                Option.bind (yy_get_previous_state (f2\<lparr>fx_c_buf_p := fx_n_chars f2\<rparr>)) (\<lambda>(st, f3).
                  Some (Inr (Some (Yy_Find_Action (fx_text f3) st (fx_c_buf_p f3)), f3)))))"

text \<open>From a label to the action to execute.\<close>

partial_function (option) yy_goto :: "yy_env \<Rightarrow> yy_label \<Rightarrow> flex \<Rightarrow> (nat \<times> flex) res option" where
  "yy_goto en l f =
     (case l of
        Yy_Match bp st cp \<Rightarrow>
          (case yy_match_buf (fx_last f) cp st (drop cp (fx_ch_buf f)) of
             None \<Rightarrow> Some (Inl Out_Of_Bounds)
           | Some (st', la, cp') \<Rightarrow> yy_goto en (Yy_Find_Action bp st' cp') (f\<lparr>fx_last := la\<rparr>))
      | Yy_Find_Action bp st cp \<Rightarrow>
          (case yy_find_action (st, fx_last f, cp) of (act, cp') \<Rightarrow>
             let f1 = count_lines act (YY_DO_BEFORE_ACTION bp cp' f)
             in if act = 0 then
                  yy_goto en (Yy_Find_Action bp (fst (fx_last f1)) (snd (fx_last f1)))
                    (f1\<lparr>fx_ch_buf := (fx_ch_buf f1)[cp' := fx_hold f1]\<rparr>)
                else if act \<noteq> YY_END_OF_BUFFER then Some (Inr (act, f1))
                else (case yy_end_of_buffer en cp' f1 of
                        None \<Rightarrow> None
                      | Some (Inl e) \<Rightarrow> Some (Inl e)
                      | Some (Inr (None, f2)) \<Rightarrow> Some (Inr (YY_STATE_EOF, f2))
                      | Some (Inr (Some l2, f2)) \<Rightarrow> yy_goto en l2 f2)))"

section \<open>\<open>yylex\<close>\<close>

partial_function (option) yylex_loop ::
    "yy_env \<Rightarrow> flex \<Rightarrow> console_state \<times> configs \<Rightarrow> (int \<times> flex \<times> console_state \<times> configs) res option" where
  "yylex_loop en f st =
     (let cp = fx_c_buf_p f; f1 = f\<lparr>fx_ch_buf := (fx_ch_buf f)[cp := fx_hold f]\<rparr>
      in case yy_goto en (Yy_Match cp (fx_start f1) cp) f1 of
           None \<Rightarrow> None
         | Some (Inl e) \<Rightarrow> Some (Inl e)
         | Some (Inr (act, f2)) \<Rightarrow>
             if act = YY_STATE_EOF then Some (Inr (0, f2, st))
             else (case scanner_action act (yytext f2) of
                     None \<Rightarrow> yylex_loop en f2 st
                   | Some (type, v, token) \<Rightarrow> Some (Inr (token, f2, handle_token type v st))))"

definition yylex_init :: "yy_env \<Rightarrow> flex \<Rightarrow> flex res" where
  "yylex_init en f =
     (if fx_init f then Inr f
      else
        (let f1 = f\<lparr>fx_init := True, fx_start := (if fx_start f = 0 then 1 else fx_start f)\<rparr>
         in and_then (if fx_exists f1 then Inr f1 else yy_create_buffer en YY_BUF_SIZE f1) (\<lambda>f2.
              Inr (yy_load_buffer_state f2))))"

definition flex_yylex ::
    "yy_env \<Rightarrow> flex \<Rightarrow> console_state \<times> configs \<Rightarrow> (int \<times> flex \<times> console_state \<times> configs) res option" where
  "flex_yylex en f st =
     (case yylex_init en f of Inl e \<Rightarrow> Some (Inl e) | Inr f1 \<Rightarrow> yylex_loop en f1 st)"

text \<open>The loop of \<open>console_run\<close> over the compiled lexer.\<close>

partial_function (option) flex_run_loop ::
    "yy_env \<Rightarrow> flex \<Rightarrow> console_state \<times> configs \<Rightarrow> (flex \<times> console_state \<times> configs) res option" where
  "flex_run_loop en f st =
     (case flex_yylex en f st of
        None \<Rightarrow> None
      | Some (Inl e) \<Rightarrow> Some (Inl e)
      | Some (Inr (token, f1, st1)) \<Rightarrow> if token = 0 then Some (Inr (f1, st1)) else flex_run_loop en f1 st1)"

text \<open>The static variables before the first call.\<close>

definition fresh_flex :: "string \<Rightarrow> flex" where
  "fresh_flex s = \<lparr>fx_exists = False, fx_ch_buf = [], fx_buf_pos = 0, fx_buf_size = 0, fx_buf_n_chars = 0,
     fx_is_our_buffer = False, fx_fill_buffer = False, fx_status = YY_BUFFER_NEW, fx_n_chars = 0, fx_c_buf_p = 0,
     fx_text = 0, fx_leng = 0, fx_hold = NUL, fx_last = (0, 0), fx_start = 0, fx_init = False, fx_lineno = 1, fx_in = s\<rparr>"

end
