(* ===== verification/Orbit_Refill.thy ===== *)
theory Orbit_Refill
  imports Orbit_Flex
begin

text \<open>
  Facts for the compiled lexer when its text comes in pieces: what the tables do on the zero bytes that end
  the buffer, matching over a piece of the text (\<open>match_piece\<close>), the representation \<open>holds\<close> of a text by
  buffer and stream, and the refilling of the buffer (\<open>next_buffer_split\<close>).
\<close>

section \<open>More of the tables\<close>

lemma base_188: "i < 168 \<Longrightarrow> yy_base ! i \<le> 188 \<and> (yy_base ! i = 188 \<longrightarrow> i \<in> {4, 6, 8, 9, 11, 20, 165})"
  unfolding yy_base_def by (rule table_everywhere) simp_all

lemma def_range: "i < 168 \<Longrightarrow> yy_def ! i < 168"
  unfolding yy_def_def by (rule table_everywhere) simp_all

lemma nxt_range: "i < 222 \<Longrightarrow> yy_nxt ! i \<le> 165 \<and> (i = 0 \<or> 0 < yy_nxt ! i) \<and> (i = 188 \<or> yy_nxt ! i \<noteq> 3)"
  unfolding yy_nxt_def by (rule table_everywhere) simp_all

lemma meta_range: "i < 34 \<Longrightarrow> yy_meta ! i < 34 \<and> (i = 0 \<or> 0 < yy_meta ! i)"
  unfolding yy_meta_def by (rule table_everywhere) simp_all

lemma find_range:
  assumes "yy_find s c = Some t" and "s < 168" and "0 < c" and "c < 34"
  shows "0 < t \<and> t \<le> 165 \<and> t \<noteq> 3"
proof -
  have "s < 168 \<longrightarrow> 0 < c \<longrightarrow> c < 34 \<longrightarrow> 0 < t \<and> t \<le> 165 \<and> t \<noteq> 3"
  proof (rule yy_find.raw_induct [OF _ assms(1), where P = "\<lambda>s c t. s < 168 \<longrightarrow> 0 < c \<longrightarrow> c < 34 \<longrightarrow> 0 < t \<and> t \<le> 165 \<and> t \<noteq> 3"])
    fix find s c t
    assume ih: "\<And>s c t. find s c = Some t \<Longrightarrow> s < 168 \<longrightarrow> 0 < c \<longrightarrow> c < 34 \<longrightarrow> 0 < t \<and> t \<le> 165 \<and> t \<noteq> 3"
      and now: "(if yy_chk ! (yy_base ! s + c) = s then Some (yy_nxt ! (yy_base ! s + c))
        else find (yy_def ! s) (if 166 \<le> yy_def ! s then yy_meta ! c else c)) = Some t"
    show "s < 168 \<longrightarrow> 0 < c \<longrightarrow> c < 34 \<longrightarrow> 0 < t \<and> t \<le> 165 \<and> t \<noteq> 3"
    proof (intro impI)
      assume s: "s < 168" and c: "0 < c" "c < 34"
      show "0 < t \<and> t \<le> 165 \<and> t \<noteq> 3"
      proof (cases "yy_chk ! (yy_base ! s + c) = s")
        case True
        then have "t = yy_nxt ! (yy_base ! s + c)" using now by simp
        moreover have "yy_base ! s + c < 222" using base_188 [OF s] c by simp
        moreover have "yy_base ! s + c \<noteq> 188"
        proof
          assume at: "yy_base ! s + c = 188"
          then have "s = 165" using True by (simp add: chk_at)
          then show False using at c by (simp add: base_at)
        qed
        ultimately show ?thesis using nxt_range [of "yy_base ! s + c"] c by simp
      next
        case False
        then have "find (yy_def ! s) (if 166 \<le> yy_def ! s then yy_meta ! c else c) = Some t" using now by simp
        from ih [OF this] show ?thesis using def_range [OF s] meta_range [OF c(2)] c by (simp split: if_splits)
      qed
    qed
  qed
  then show ?thesis using assms(2-4) by blast
qed

text \<open>The states in which the matching loop ends other than by jamming accept, and only jam after that.\<close>

definition final_states :: "nat list" where
  "final_states = [4, 6, 8, 9, 11, 20]"

lemma row_188: "c \<in> {1..<34} \<Longrightarrow> yy_chk ! (188 + c) = 165 \<and> yy_nxt ! (188 + c) = 165"
proof -
  assume c: "c \<in> {1..<34}"
  have "map (\<lambda>c. (yy_chk ! (188 + c), yy_nxt ! (188 + c))) (1 # [2..<34]) = map (\<lambda>_. (165, 165)) (1 # [2..<34])"
    by (simp add: table_entries flip: numeral_2_eq_2)
  from over_classes [OF this c] show ?thesis by simp
qed

lemma final_jam:
  assumes "t \<in> set final_states" and "c \<in> {1..<34}"
  shows "yy_find t c = Some 165" and "yy_accept ! t \<noteq> 0"
proof -
  have "yy_base ! t = 188" "yy_def ! t = 165" "t \<noteq> 165" using assms(1) by (auto simp: final_states_def table_entries)
  moreover have "yy_find 165 c = Some 165" using row_188 [OF assms(2)] by (subst yy_find.simps) (simp add: base_at)
  ultimately show "yy_find t c = Some 165" using row_188 [OF assms(2)] by (subst yy_find.simps) simp
  show "yy_accept ! t \<noteq> 0" using assms(1) by (auto simp: final_states_def table_entries)
qed

text \<open>Every state goes to the end-of-buffer state 3 on a zero byte, and that state jams on everything.\<close>

definition zero_fact :: "nat \<Rightarrow> nat \<Rightarrow> bool" where
  "zero_fact i v \<longleftrightarrow> yy_chk ! v \<noteq> i \<or> i = 0 \<or> i = 3 \<or> i = 165"

lemma zero_facts: "zero_fact 0 0 \<and> table_all zero_fact num.One (tl yy_base)"
  unfolding yy_base_def by (simp add: zero_fact_def chk_at)

lemma zero_row: "i < 168 \<Longrightarrow> zero_fact i (yy_base ! i)"
  unfolding yy_base_def by (rule table_everywhere) (use zero_facts in \<open>simp_all add: yy_base_def\<close>)

definition def_fact :: "nat \<Rightarrow> nat \<Rightarrow> bool" where
  "def_fact i v \<longleftrightarrow> i = 0 \<or> i = 165 \<or> v = 1 \<or> v = 165 \<or> v = 166 \<or> v = 167"

lemma def_facts: "def_fact 0 0 \<and> table_all def_fact num.One (tl yy_def)"
  unfolding yy_def_def by (simp add: def_fact_def)

lemma def_targets: "i < 168 \<Longrightarrow> def_fact i (yy_def ! i)"
  unfolding yy_def_def by (rule table_everywhere) (use def_facts in \<open>simp_all add: yy_def_def\<close>)

lemma end_of_buffer_state:
  assumes "s \<in> {1..<165}" and "s \<noteq> 3"
  shows "yy_find s 0 = Some 3"
proof -
  have last: "yy_find 165 0 = Some 3" by (subst yy_find.simps) (simp add: table_entries)
  have step: "yy_find i 0 = yy_find (yy_def ! i) 0" if "i < 168" "i \<notin> {0, 3, 165}" for i
    using zero_row [of i] that by (subst yy_find.simps) (simp add: meta_at zero_fact_def)
  have "yy_find 166 0 = Some 3" "yy_find 167 0 = Some 3" "yy_find 1 0 = Some 3"
    using step [of 166] step [of 167] step [of 1] last by (simp_all add: def_at)
  then show ?thesis using step [of s] def_targets [of s] last assms by (auto simp: def_fact_def)
qed

lemma end_of_buffer_jams: "c < 34 \<Longrightarrow> yy_find 3 c = Some 165"
proof -
  assume c: "c < 34"
  have "map (yy_find 3) (0 # 1 # [2..<34]) = map (\<lambda>_. Some 165) (0 # 1 # [2..<34])"
    by (simp add: yy_find.simps table_entries flip: numeral_2_eq_2)
  then have "\<forall>c \<in> set (0 # 1 # [2..<34]). yy_find 3 c = Some 165" by (simp only: map_eq_conv)
  moreover have "c \<in> set (0 # 1 # [2..<34])" using c unfolding list.set set_upt by auto
  ultimately show ?thesis by blast
qed

lemma special_states: "yy_base ! 3 = 187" "yy_accept ! 3 = 21" "yy_base ! 165 = 188" "yy_accept ! 165 = 0" "yy_accept ! 1 = 0"
  by (simp_all add: table_entries)

section \<open>Matching in pieces\<close>

definition live :: "nat \<Rightarrow> bool" where
  "live st \<longleftrightarrow> 0 < st \<and> st < 165 \<and> st \<noteq> 3"

lemma live_base: "live st \<Longrightarrow> yy_base ! st = 188 \<Longrightarrow> st \<in> set final_states"
  using base_188 [of st] by (auto simp: live_def final_states_def)

lemma live_find:
  assumes "live st" and "c \<in> {1..<34}" and "yy_find st c = Some t" and "t \<noteq> 165"
  shows "live t"
  using find_range [OF assms(3)] assms by (simp add: live_def)

lemma byte_class: "yy_ec ! of_char c < 34" "c \<noteq> NUL \<Longrightarrow> yy_ec ! of_char c = yy_class c" "yy_ec ! of_char NUL = 0"
  using class_table [OF nat_of_char_less_256 [of c]] by (auto simp: class_fact_def yy_class_def ec_at)

text \<open>\<open>xs\<close> leads from \<open>st\<close> to \<open>st1\<close>: the loop of \<open>yy_get_previous_state\<close> ends there, and matching may go on
  from there as if it had not stopped.\<close>

definition reaches :: "nat \<Rightarrow> string \<Rightarrow> nat \<Rightarrow> bool" where
  "reaches st xs st1 \<longleftrightarrow> (\<forall>la cp. \<exists>la1. yy_previous la cp st xs = Some (st1, la1) \<and>
     (\<forall>ys. map_option yy_find_action (yy_run la cp st (xs @ ys)) =
           map_option yy_find_action (yy_run la1 (cp + length xs) st1 ys)))"

lemma previous_append:
  "yy_previous la cp st (xs @ ys) = Option.bind (yy_previous la cp st xs) (\<lambda>(st1, la1). yy_previous la1 (cp + length xs) st1 ys)"
  by (induction la cp st xs rule: yy_previous.induct) (auto simp: Let_def split: option.split)

lemma reaches_refl [simp]: "reaches st [] st"
  by (simp add: reaches_def)

lemma reaches_trans:
  assumes "reaches st xs st1" and "reaches st1 ys st2"
  shows "reaches st (xs @ ys) st2"
  unfolding reaches_def
proof (intro allI)
  fix la cp
  obtain la1 where one: "yy_previous la cp st xs = Some (st1, la1)"
    "\<And>zs. map_option yy_find_action (yy_run la cp st (xs @ zs)) = map_option yy_find_action (yy_run la1 (cp + length xs) st1 zs)"
    using assms(1) unfolding reaches_def by blast
  obtain la2 where two: "yy_previous la1 (cp + length xs) st1 ys = Some (st2, la2)"
    "\<And>zs. map_option yy_find_action (yy_run la1 (cp + length xs) st1 (ys @ zs)) =
       map_option yy_find_action (yy_run la2 (cp + length xs + length ys) st2 zs)"
    using assms(2) unfolding reaches_def by blast
  show "\<exists>la1. yy_previous la cp st (xs @ ys) = Some (st2, la1) \<and>
      (\<forall>zs. map_option yy_find_action (yy_run la cp st ((xs @ ys) @ zs)) =
           map_option yy_find_action (yy_run la1 (cp + length (xs @ ys)) st2 zs))"
    using one two by (intro exI [of _ la2]) (simp add: previous_append add.assoc)
qed

lemma final_run:
  assumes "t \<in> set final_states"
  shows "map_option yy_find_action (yy_run la cp t ys) = Some (yy_accept ! t, cp)"
proof (cases ys)
  case Nil
  then show ?thesis using final_jam(2) [OF assms, of 1] by (simp add: yy_find_action_def)
next
  case (Cons c cs)
  have "yy_find t (yy_class c) = Some 165" "yy_accept ! t \<noteq> 0" using final_jam [OF assms class_cases(11) [of c]] by blast+
  then show ?thesis by (simp add: Cons special_states yy_find_action_def)
qed

lemma reaches_char:
  assumes "yy_find st (yy_class c) = Some t" and "live st" and "t \<noteq> 165"
  shows "reaches st [c] t" and "live t"
proof -
  show t: "live t" using live_find [OF assms(2) class_cases(11) assms(1,3)] .
  show "reaches st [c] t"
  proof (cases "yy_base ! t = 188")
    case True
    have "yy_accept ! t \<noteq> 0" using final_jam(2) [OF live_base [OF t True], of 1] by simp
    then have stop: "map_option yy_find_action (yy_run la cp st ([c] @ ys)) = Some (yy_accept ! t, cp + 1)" for la cp ys
      using assms(1) True by (simp add: yy_find_action_def Let_def)
    show ?thesis unfolding reaches_def stop final_run [OF live_base [OF t True]] using assms(1) by simp
  qed (use assms(1) in \<open>simp add: reaches_def\<close>)
qed

text \<open>A piece without zero bytes, before the two zero bytes that end the block: either the token ends in the
  piece, or the loop ends in the end-of-buffer action and the piece leads to a state.\<close>

lemma match_piece:
  assumes "live st" and "NUL \<notin> set xs"
  shows "xs \<noteq> [] \<and> (\<forall>la cp ys zs. yy_match_buf la cp st (xs @ ys) = yy_run la cp st (xs @ zs)) \<or>
     (\<exists>st1. live st1 \<and> reaches st xs st1 \<and>
        (\<forall>la cp c ys. yy_match_buf la cp st (xs @ NUL # c # ys) = Some (165, (3, cp + length xs + 1), cp + length xs + 2)))"
  using assms
proof (induction xs arbitrary: st)
  case Nil
  have "yy_find st 0 = Some 3" using end_of_buffer_state [of st] Nil by (simp add: live_def)
  then have "\<forall>la cp c ys. yy_match_buf la cp st (NUL # c # ys) = Some (165, (3, cp + 1), cp + 2)"
    using end_of_buffer_jams [OF byte_class(1)] byte_class(3) by (simp add: special_states Let_def)
  then show ?case using Nil(1) by auto
next
  case (Cons x xs)
  have x: "yy_ec ! of_char x = yy_class x" "NUL \<notin> set xs" using Cons.prems(2) byte_class(2) [of x] by auto
  show ?case
  proof (cases "yy_find st (yy_class x)")
    case None
    then show ?thesis using x by simp
  next
    case (Some t)
    show ?thesis
    proof (cases "yy_base ! t = 188")
      case True
      then show ?thesis using x Some by simp
    next
      case False
      have ne: "t \<noteq> 165" using False special_states by auto
      note t = reaches_char [OF Some Cons.prems(1) ne]
      from Cons.IH [OF t(2) x(2)] show ?thesis
      proof (elim disjE)
        assume "xs \<noteq> [] \<and> (\<forall>la cp ys zs. yy_match_buf la cp t (xs @ ys) = yy_run la cp t (xs @ zs))"
        then show ?thesis using x(1) Some False by simp
      next
        assume "\<exists>st1. live st1 \<and> reaches t xs st1 \<and>
          (\<forall>la cp c ys. yy_match_buf la cp t (xs @ NUL # c # ys) = Some (165, (3, cp + length xs + 1), cp + length xs + 2))"
        then obtain st1 where "live st1" "reaches t xs st1"
          "\<And>la cp c ys. yy_match_buf la cp t (xs @ NUL # c # ys) = Some (165, (3, cp + length xs + 1), cp + length xs + 2)"
          by blast
        then show ?thesis using reaches_trans [OF t(1)] x(1) Some False by (intro disjI2 exI [of _ st1]) simp
      qed
    qed
  qed
qed

section \<open>One token, from anywhere in the buffer\<close>

lemma match_length_le: "match_length r s \<le> length s"
proof -
  have body: "string_body s = Some n \<Longrightarrow> n \<le> length s" for s n
    by (induction s arbitrary: n rule: string_body.induct) (auto split: if_splits list.splits option.splits)
  have lit: "literal k s \<le> length s" for k by (auto simp: literal_def) (metis length_take min.cobounded1)
  show ?thesis using body [of "tl s"] lit by (cases r; cases s) (auto simp: length_takeWhile_le split: option.splits)
qed

lemma distinct_rules: "distinct rules"
  by (simp add: rules_def keyword_texts_def)

lemma yy_match_token:
  assumes "s \<noteq> []"
  shows "\<exists>act n. (\<forall>la. yy_match la s = Some (act, n)) \<and> 0 < act \<and> act \<le> 19 \<and> 0 < n \<and> n \<le> length s \<and>
     longest rules s = Some (rules ! (act - 1), n)"
proof -
  obtain act n where first: "yy_match (0, 0) s = Some (act, n)" "0 < act" "act \<le> 19" "longest rules s = Some (rules ! (act - 1), n)"
    using yy_match_longest [OF assms] by blast
  have "yy_match la s = Some (act, n)" for la
  proof -
    obtain act' n' where other: "yy_match la s = Some (act', n')" "0 < act'" "act' \<le> 19" "longest rules s = Some (rules ! (act' - 1), n')"
      using yy_match_longest [OF assms] by blast
    have "length rules = 19" by (simp add: rules_def keyword_texts_def)
    then have "act' - 1 < length rules" "act - 1 < length rules" using first(2,3) other(2,3) by simp_all
    moreover have "rules ! (act' - 1) = rules ! (act - 1)" "n' = n" using first(4) other(4) by simp_all
    ultimately have "act' - 1 = act - 1" using nth_eq_iff_index_eq [OF distinct_rules] by blast
    then have "act' = act" using first(2) other(2) by simp
    then show ?thesis using other(1) \<open>n' = n\<close> by simp
  qed
  moreover have "0 < n" "n \<le> length s" using longest_bound [OF first(4)] match_length_le [of "rules ! (act - 1)" s] by simp_all
  ultimately show ?thesis using first by blast
qed

lemma run_shift:
  "yy_run (a, b + k) (cp + k) st cs = map_option (\<lambda>(s, (l, p), q). (s, (l, p + k), q + k)) (yy_run (a, b) cp st cs)"
proof (induction cs arbitrary: a b cp st)
  case (Cons c cs)
  have "yy_run (if yy_accept ! st \<noteq> 0 then (st, cp + k) else (a, b + k)) (cp + k + 1) st' cs =
      map_option (\<lambda>(s, (l, p), q). (s, (l, p + k), q + k)) (yy_run (if yy_accept ! st \<noteq> 0 then (st, cp) else (a, b)) (cp + 1) st' cs)" for st'
    using Cons.IH [of st cp "cp + 1" st'] Cons.IH [of a b "cp + 1" st'] by simp
  then show ?case by (auto simp: Let_def split: option.split)
qed simp

lemma run_last:
  "(\<exists>r. \<forall>la. yy_run la cp st cs = r) \<or> (\<exists>st' cp'. \<forall>la. yy_run la cp st cs = Some (st', la, cp'))"
proof (induction cs arbitrary: cp st)
  case (Cons c cs)
  show ?case
  proof (cases "yy_find st (yy_class c)")
    case (Some t)
    then show ?thesis using Cons.IH [of "cp + 1" t] by (cases "yy_accept ! st = 0") auto
  qed simp
qed simp

lemma match_from:
  assumes "s \<noteq> []" and "yy_match (0, 0) s = Some (act, n)"
  shows "map_option yy_find_action (yy_run la bp 1 s) = Some (act, bp + n)"
proof -
  have shift: "yy_find_action (s, (l, p + k), q + k) = (fst (yy_find_action (s, (l, p), q)), snd (yy_find_action (s, (l, p), q)) + k)"
    for s l p q k by (simp add: yy_find_action_def)
  have at: "map_option yy_find_action (yy_run (0, k + bp) bp 1 s) = Some (act, n + bp)" for k
  proof -
    have "yy_match (0, k) s = Some (act, n)" using yy_match_token [OF assms(1)] assms(2) by auto
    then obtain r where "yy_run (0, k) 0 1 s = Some r" "yy_find_action r = (act, n)" by (auto simp: yy_match_def)
    then show ?thesis using run_shift [of 0 k bp 0 1 s] by (cases r) (auto simp: shift)
  qed
  from run_last [of bp 1 s] show ?thesis
  proof (elim disjE exE)
    fix r
    assume "\<forall>la. yy_run la bp 1 s = r"
    then have "yy_run la bp 1 s = yy_run (0, 0 + bp) bp 1 s" by metis
    then show ?thesis using at [of 0] by (simp only: add.commute [of bp])
  next
    fix st' cp'
    assume all: "\<forall>la. yy_run la bp 1 s = Some (st', la, cp')"
    have "yy_accept ! st' \<noteq> 0" using at [of 0] at [of 1] all by (auto simp: yy_find_action_def split: if_splits)
    moreover have "yy_run (0, 0 + bp) bp 1 s = Some (st', (0, 0 + bp), cp')" using all by blast
    ultimately have "act = yy_accept ! st'" "cp' = n + bp" using at [of 0] by (simp_all add: yy_find_action_def)
    moreover have "yy_run la bp 1 s = Some (st', la, cp')" using all by blast
    ultimately show ?thesis using \<open>yy_accept ! st' \<noteq> 0\<close> by (cases la) (simp add: yy_find_action_def)
  qed
qed

section \<open>The buffer\<close>

definition env_ok :: "yy_env \<Rightarrow> bool" where
  "env_ok en \<longleftrightarrow> (\<forall>m s. en_read en m s \<le> m \<and> en_read en m s \<le> length s \<and> (0 < m \<and> s \<noteq> [] \<longrightarrow> 0 < en_read en m s)) \<and>
     (\<forall>n. en_alloc en n)"

text \<open>The buffer holds the text \<open>S\<close> from offset \<open>bp\<close> on, as far as it was read; the rest is in the stream.\<close>

definition holds :: "flex \<Rightarrow> nat \<Rightarrow> string \<Rightarrow> bool" where
  "holds f bp S \<longleftrightarrow> fx_exists f \<and> fx_init f \<and> fx_start f = 1 \<and> fx_is_our_buffer f \<and> fx_fill_buffer f \<and>
     0 < fx_buf_size f \<and> length (fx_ch_buf f) = fx_buf_size f + 2 \<and> fx_n_chars f \<le> fx_buf_size f \<and>
     fx_ch_buf f ! fx_n_chars f = NUL \<and> fx_ch_buf f ! (fx_n_chars f + 1) = NUL \<and> bp \<le> fx_n_chars f \<and>
     S = take (fx_n_chars f - bp) (drop bp (fx_ch_buf f)) @ fx_in f \<and>
     (fx_status f = YY_BUFFER_EOF_PENDING \<longrightarrow> fx_in f = []) \<and>
     (fx_status f = YY_BUFFER_NEW \<longrightarrow> fx_n_chars f = 0 \<and> fx_buf_n_chars f = 0)"

lemma grow_ok:
  assumes "env_ok en" and "k + 1 < 2 ^ 30" and "fx_is_our_buffer f" and "0 < fx_buf_size f"
    and "length (fx_ch_buf f) = fx_buf_size f + 2"
  shows "\<exists>s extra. yy_grow en k f = Some (Inr (f\<lparr>fx_buf_size := s, fx_ch_buf := fx_ch_buf f @ extra\<rparr>)) \<and>
     k + 1 < s \<and> length (fx_ch_buf f @ extra) = s + 2"
  using assms(3-5)
proof (induction "k + 2 - fx_buf_size f" arbitrary: f rule: less_induct)
  case less
  show ?case
  proof (cases "k + 1 < fx_buf_size f")
    case True
    then show ?thesis using less.prems
      by (intro exI [of _ "fx_buf_size f"] exI [of _ "[]"]) (simp add: yy_grow.simps)
  next
    case False
    let ?g = "f\<lparr>fx_buf_size := fx_buf_size f * 2,
                fx_ch_buf := fx_ch_buf f @ map (en_junk en) [length (fx_ch_buf f)..<fx_buf_size f * 2 + 2]\<rparr>"
    have "\<not> (2 ^ 31 \<le> fx_buf_size f * 2 \<or> fx_buf_size f * 2 = 0)" using False assms(2) less.prems(2) by simp
    then have step: "yy_grow en k f = yy_grow en k ?g"
      using False less.prems(1) assms(1) by (subst yy_grow.simps) (simp add: env_ok_def Let_def)
    have "\<exists>s extra. yy_grow en k ?g = Some (Inr (?g\<lparr>fx_buf_size := s, fx_ch_buf := fx_ch_buf ?g @ extra\<rparr>)) \<and>
       k + 1 < s \<and> length (fx_ch_buf ?g @ extra) = s + 2"
      using False less.prems by (intro less.hyps) auto
    then show ?thesis unfolding step by fastforce
  qed
qed

text \<open>The end of a refill: \<open>k\<close> kept characters, then \<open>r\<close> new ones.\<close>

lemma close_more:
  assumes "0 < fx_n_chars f" and "fx_n_chars f + k \<le> fx_buf_size f" and "length (fx_ch_buf f) = fx_buf_size f + 2"
  shows "yy_close_buffer en k f = Inr (EOB_ACT_CONTINUE_SCAN, f\<lparr>fx_n_chars := fx_n_chars f + k,
     fx_ch_buf := (fx_ch_buf f)[fx_n_chars f + k := NUL, fx_n_chars f + k + 1 := NUL], fx_text := 0\<rparr>)"
  using assms by (simp add: yy_close_buffer_def Let_def)

lemma close_last:
  assumes "fx_n_chars f = 0" and "0 < k" and "k \<le> fx_buf_size f" and "length (fx_ch_buf f) = fx_buf_size f + 2"
  shows "yy_close_buffer en k f = Inr (EOB_ACT_LAST_MATCH, f\<lparr>fx_status := YY_BUFFER_EOF_PENDING, fx_n_chars := k,
     fx_ch_buf := (fx_ch_buf f)[k := NUL, k + 1 := NUL], fx_text := 0\<rparr>)"
  using assms by (simp add: yy_close_buffer_def Let_def)

lemma close_end:
  assumes "fx_n_chars f = 0" and "fx_exists f" and "length (fx_ch_buf f) = fx_buf_size f + 2"
  shows "\<exists>f'. yy_close_buffer en 0 f = Inr (EOB_ACT_END_OF_FILE, f') \<and> fx_exists f' \<and> fx_init f' = fx_init f \<and>
     fx_start f' = fx_start f \<and> fx_is_our_buffer f' = fx_is_our_buffer f \<and> fx_fill_buffer f' \<and>
     fx_buf_size f' = fx_buf_size f \<and> length (fx_ch_buf f') = fx_buf_size f + 2 \<and> fx_n_chars f' = 0 \<and>
     fx_ch_buf f' ! 0 = NUL \<and> fx_ch_buf f' ! 1 = NUL \<and> fx_buf_n_chars f' = 0 \<and> fx_status f' = YY_BUFFER_NEW \<and>
     fx_in f' = fx_in f \<and> fx_text f' = 0 \<and> fx_hold f' = NUL \<and> fx_lineno f' = fx_lineno f"
  using assms
  by (simp add: yy_close_buffer_def yyrestart_def yy_init_buffer_def yy_flush_buffer_def yy_load_buffer_state_def Let_def)

text \<open>Reading behind \<open>k\<close> kept characters: what is read and what is left make up the stream.\<close>

lemma input_ok:
  assumes "env_ok en" and "length (fx_ch_buf f) = fx_buf_size f + 2" and "k + 1 < fx_buf_size f"
  defines "g \<equiv> yy_input en k (min (fx_buf_size f - k - 1) YY_READ_BUF_SIZE) f"
  shows "length (fx_ch_buf g) = fx_buf_size g + 2" and "fx_n_chars g + k \<le> fx_buf_size g"
    and "take k (fx_ch_buf g) = take k (fx_ch_buf f)" and "take (fx_n_chars g) (drop k (fx_ch_buf g)) @ fx_in g = fx_in f"
    and "fx_n_chars g = 0 \<longleftrightarrow> fx_in f = []"
proof -
  define m where "m = min (fx_buf_size f - k - 1) YY_READ_BUF_SIZE"
  define r where "r = en_read en m (fx_in f)"
  have m: "0 < m" "m \<le> fx_buf_size f - k - 1" using assms(3) by (simp_all add: m_def YY_READ_BUF_SIZE_def)
  have r: "r \<le> m" "r \<le> length (fx_in f)" "fx_in f \<noteq> [] \<Longrightarrow> 0 < r"
    using assms(1) m(1) by (auto simp: env_ok_def r_def)
  have buf: "fx_ch_buf g = take k (fx_ch_buf f) @ take r (fx_in f) @ drop (k + r) (fx_ch_buf f)"
    "fx_n_chars g = r" "fx_in g = drop r (fx_in f)" "fx_buf_size g = fx_buf_size f"
    by (simp_all add: g_def yy_input_def Let_def r_def m_def)
  have lk: "length (take k (fx_ch_buf f)) = k" using assms(2,3) by simp
  show "length (fx_ch_buf g) = fx_buf_size g + 2" unfolding buf using assms(2,3) r m(2) by simp
  show "fx_n_chars g + k \<le> fx_buf_size g" unfolding buf using r(1) m(2) assms(3) by simp
  show "take k (fx_ch_buf g) = take k (fx_ch_buf f)" unfolding buf(1) using lk by simp
  have "drop k (fx_ch_buf g) = take r (fx_in f) @ drop (k + r) (fx_ch_buf f)" unfolding buf(1) using lk by simp
  then show "take (fx_n_chars g) (drop k (fx_ch_buf g)) @ fx_in g = fx_in f" unfolding buf(2,3) using r(2) by simp
  show "fx_n_chars g = 0 \<longleftrightarrow> fx_in f = []" unfolding buf(2) using r(2,3) by auto
qed

text \<open>Refilling when the whole buffer from \<open>bp\<close> on was scanned.\<close>

lemma next_buffer_split:
  assumes "holds f bp S" and "fx_text f = bp" and "fx_c_buf_p f = fx_n_chars f + 1" and "env_ok en" and "length S + 2 < 2 ^ 30"
  defines "k \<equiv> fx_n_chars f - bp"
  shows "\<exists>g. yy_get_next_buffer en f = Some (yy_close_buffer en k g) \<and> take k (fx_ch_buf g) = take k (drop bp (fx_ch_buf f)) \<and>
     fx_n_chars g + k \<le> fx_buf_size g \<and> length (fx_ch_buf g) = fx_buf_size g + 2 \<and> 0 < fx_buf_size g \<and>
     take (fx_n_chars g) (drop k (fx_ch_buf g)) @ fx_in g = fx_in f \<and> (fx_n_chars g = 0 \<longleftrightarrow> fx_in f = []) \<and>
     fx_exists g \<and> fx_init g \<and> fx_start g = 1 \<and> fx_is_our_buffer g \<and> fx_fill_buffer g \<and> fx_status g = fx_status f \<and>
     fx_last g = fx_last f \<and> fx_lineno g = fx_lineno f"
proof -
  let ?b = "fx_ch_buf f"
  have f: "fx_exists f" "fx_init f" "fx_start f = 1" "fx_is_our_buffer f" "fx_fill_buffer f" "0 < fx_buf_size f"
    "length ?b = fx_buf_size f + 2" "fx_n_chars f \<le> fx_buf_size f" "bp \<le> fx_n_chars f"
    "S = take k (drop bp ?b) @ fx_in f" "fx_status f = YY_BUFFER_EOF_PENDING \<longrightarrow> fx_in f = []"
    using assms(1) by (auto simp: holds_def k_def)
  define f1 where "f1 = f\<lparr>fx_ch_buf := take k (drop bp ?b) @ drop k ?b\<rparr>"
  have kb: "bp + k = fx_n_chars f" using f(9) by (simp add: k_def)
  have len1: "length (fx_ch_buf f1) = fx_buf_size f1 + 2" using f(7,8) kb by (simp add: f1_def)
  have keep1: "take k (fx_ch_buf f1) = take k (drop bp ?b)" using f(7,8) kb by (simp add: f1_def)
  have kk: "fx_c_buf_p f - bp - 1 = k" using assms(3) by (simp add: k_def)
  have next_buffer: "yy_get_next_buffer en f =
      (if fx_status f1 = YY_BUFFER_EOF_PENDING then Some (yy_close_buffer en k (f1\<lparr>fx_n_chars := 0, fx_buf_n_chars := 0\<rparr>))
       else case yy_grow en k f1 of None \<Rightarrow> None | Some (Inl e) \<Rightarrow> Some (Inl e)
         | Some (Inr f2) \<Rightarrow> Some (yy_close_buffer en k (yy_input en k (min (fx_buf_size f2 - k - 1) YY_READ_BUF_SIZE) f2)))"
    using f(5) assms(2,3) kk by (simp add: yy_get_next_buffer_def Let_def f1_def)
  show ?thesis
  proof (cases "fx_status f = YY_BUFFER_EOF_PENDING")
    case True
    then show ?thesis using f len1 keep1 kb
      by (intro exI [of _ "f1\<lparr>fx_n_chars := 0, fx_buf_n_chars := 0\<rparr>"]) (simp add: next_buffer, simp add: f1_def)
  next
    case False
    have "k + 1 < 2 ^ 30" using assms(5) f(7-10) kb by simp
    then obtain s extra where grow: "yy_grow en k f1 = Some (Inr (f1\<lparr>fx_buf_size := s, fx_ch_buf := fx_ch_buf f1 @ extra\<rparr>))"
      "k + 1 < s" "length (fx_ch_buf f1 @ extra) = s + 2"
      using grow_ok [OF assms(4), of k f1] f len1 by (auto simp: f1_def)
    define f2 where "f2 = f1\<lparr>fx_buf_size := s, fx_ch_buf := fx_ch_buf f1 @ extra\<rparr>"
    define g where "g = yy_input en k (min (fx_buf_size f2 - k - 1) YY_READ_BUF_SIZE) f2"
    have f2: "length (fx_ch_buf f2) = fx_buf_size f2 + 2" "k + 1 < fx_buf_size f2" "fx_in f2 = fx_in f"
      using grow(2,3) by (simp_all add: f2_def f1_def)
    have keep2: "take k (fx_ch_buf f2) = take k (drop bp ?b)"
      using keep1 len1 f(8) kb by (simp add: f2_def f1_def)
    note input = input_ok [OF assms(4) f2(1,2), folded g_def, unfolded keep2 f2(3)]
    have "fx_exists g" "fx_init g" "fx_start g = 1" "fx_is_our_buffer g" "fx_fill_buffer g" "0 < fx_buf_size g"
      "fx_status g = fx_status f" "fx_last g = fx_last f" "fx_lineno g = fx_lineno f"
      using f f2(2) by (simp_all add: g_def yy_input_def Let_def f2_def f1_def)
    moreover have "yy_get_next_buffer en f = Some (yy_close_buffer en k g)"
      using False unfolding next_buffer grow(1) by (simp add: f1_def f2_def g_def)
    ultimately show ?thesis using input by (intro exI [of _ g] conjI)
  qed
qed

end
