(* ===== verification/Orbit_Stream.thy ===== *)
theory Orbit_Stream
  imports Orbit_Refill
begin

text \<open>
  One token of the compiled lexer, from any state of its buffer: what was scanned before a refill can be
  scanned again from its start, so that a token found across pieces of the file is the token of the whole
  text (\<open>match_scans\<close>). The cases follow the action for the end of the buffer: a zero byte of the text, more
  text, the last token, the end of the file.
\<close>

section \<open>Going on with a token\<close>

text \<open>\<open>p\<close>, the text from \<open>bp\<close> on, was scanned up to state \<open>st\<close>: whatever follows, going on from there finds
  the token that starts at \<open>bp\<close>.\<close>

definition resumes :: "nat \<Rightarrow> string \<Rightarrow> nat \<times> nat \<Rightarrow> nat \<Rightarrow> bool" where
  "resumes bp p la st \<longleftrightarrow> (\<forall>ys act n. p @ ys \<noteq> [] \<longrightarrow> yy_match (0, 0) (p @ ys) = Some (act, n) \<longrightarrow>
     map_option yy_find_action (yy_run la (bp + length p) st ys) = Some (act, bp + n))"

lemma resumesD:
  "resumes bp p la st \<Longrightarrow> p @ ys \<noteq> [] \<Longrightarrow> yy_match (0, 0) (p @ ys) = Some (act, n) \<Longrightarrow>
     map_option yy_find_action (yy_run la (bp + length p) st ys) = Some (act, bp + n)"
  by (simp only: resumes_def) blast

lemma resumes_start: "resumes bp [] la 1"
  unfolding resumes_def using match_from by (simp only: append_Nil list.size add_0_right) blast

lemma resumes_previous:
  assumes "reaches 1 p st1"
  shows "\<exists>la1. yy_previous la bp 1 p = Some (st1, la1) \<and> resumes bp p la1 st1"
proof -
  obtain la1 where la1: "yy_previous la bp 1 p = Some (st1, la1)"
    "\<And>ys. map_option yy_find_action (yy_run la bp 1 (p @ ys)) = map_option yy_find_action (yy_run la1 (bp + length p) st1 ys)"
    using assms unfolding reaches_def by blast
  have "resumes bp p la1 st1"
    unfolding resumes_def la1(2) [symmetric] using match_from by blast
  then show ?thesis using la1(1) by blast
qed

text \<open>The token of a text starts with a rule of \<open>rules\<close> and does not depend on more than was run over.\<close>

definition token_of :: "string \<Rightarrow> nat \<Rightarrow> nat \<Rightarrow> bool" where
  "token_of S act n \<longleftrightarrow> yy_match (0, 0) S = Some (act, n) \<and> 0 < act \<and> act \<le> 19 \<and> 0 < n \<and> n \<le> length S"

lemma token_exists: "S \<noteq> [] \<Longrightarrow> \<exists>act n. token_of S act n"
  using yy_match_token [of S] by (auto simp: token_of_def)

text \<open>When a run over \<open>xs\<close> ends the match for good, the token ends within \<open>xs\<close>.\<close>

lemma token_within:
  assumes "resumes bp p la st" and "p @ xs \<noteq> []"
    and "\<And>zs. map_option yy_find_action (yy_run la (bp + length p) st (xs @ zs)) = r"
  shows "\<exists>act n. token_of (p @ xs @ zs) act n \<and> n \<le> length (p @ xs) \<and> r = Some (act, bp + n)"
proof -
  obtain act n where short: "token_of (p @ xs) act n" using token_exists [OF assms(2)] by blast
  obtain act' n' where long: "token_of (p @ xs @ zs) act' n'" using token_exists [of "p @ xs @ zs"] assms(2) by auto
  have "r = Some (act, bp + n)" using assms(1,2) short assms(3) [of "[]"] by (auto simp: resumes_def token_of_def)
  moreover have "r = Some (act', bp + n')" using assms(1,2) long assms(3) [of zs] by (auto simp: resumes_def token_of_def)
  ultimately show ?thesis using short long by (intro exI [of _ act] exI [of _ n]) (simp add: token_of_def)
qed

section \<open>What a call leaves behind\<close>

text \<open>Between two tokens the character after the last one is kept in \<open>yy_hold_char\<close>.\<close>

definition ready :: "flex \<Rightarrow> string \<Rightarrow> bool" where
  "ready f S \<longleftrightarrow> fx_c_buf_p f < length (fx_ch_buf f) \<and>
     holds (f\<lparr>fx_ch_buf := (fx_ch_buf f)[fx_c_buf_p f := fx_hold f]\<rparr>) (fx_c_buf_p f) S"

definition newlines :: "string \<Rightarrow> nat" where
  "newlines s = length (filter (\<lambda>c. c = CHR 0x0A) s)"

text \<open>What going on at a label leads to, for the text \<open>S\<close> from the start of the token on.\<close>

definition scans :: "string \<Rightarrow> nat \<Rightarrow> (nat \<times> flex) res option \<Rightarrow> bool" where
  "scans S lines r \<longleftrightarrow>
     (if S = [] then \<exists>g. r = Some (Inr (YY_STATE_EOF, g)) \<and> ready g [] \<and> fx_status g = YY_BUFFER_NEW \<and> fx_lineno g = lines
      else \<exists>act n g. r = Some (Inr (act, g)) \<and> token_of S act n \<and> ready g (drop n S) \<and> yytext g = take n S \<and>
        fx_lineno g = lines + (if yy_rule_can_match_eol ! act \<noteq> 0 then newlines (take n S) else 0))"

lemma holds_text:
  "holds f bp S \<Longrightarrow> n \<le> fx_n_chars f - bp \<Longrightarrow> take n (drop bp (fx_ch_buf f)) = take n S"
  by (auto simp: holds_def)

lemma holds_drop:
  assumes "holds f bp S" and "bp + n \<le> fx_n_chars f"
  shows "holds f (bp + n) (drop n S)"
proof -
  have "drop n S = take (fx_n_chars f - (bp + n)) (drop (bp + n) (fx_ch_buf f)) @ fx_in f"
    using assms by (auto simp: holds_def drop_take add.commute)
  then show ?thesis using assms by (simp add: holds_def)
qed

lemma holds_update:
  assumes "holds f bp S" and "fx_exists g = fx_exists f" and "fx_init g = fx_init f" and "fx_start g = fx_start f"
    and "fx_is_our_buffer g = fx_is_our_buffer f" and "fx_fill_buffer g = fx_fill_buffer f" and "fx_buf_size g = fx_buf_size f"
    and "fx_ch_buf g = fx_ch_buf f" and "fx_n_chars g = fx_n_chars f" and "fx_in g = fx_in f"
    and "fx_status g = fx_status f" and "fx_buf_n_chars g = fx_buf_n_chars f"
  shows "holds g bp S"
  using assms by (simp add: holds_def)

lemma find_action_done:
  assumes "holds f bp S" and "token_of S act n" and "bp + n \<le> fx_n_chars f" and "yy_find_action (st, fx_last f, cp) = (act, bp + n)"
  shows "scans S (fx_lineno f) (yy_goto en (Yy_Find_Action bp st cp) f)"
proof -
  let ?g = "YY_DO_BEFORE_ACTION bp (bp + n) f"
  have len: "length (fx_ch_buf f) = fx_buf_size f + 2" "fx_n_chars f \<le> fx_buf_size f" using assms(1) by (auto simp: holds_def)
  have act: "0 < act" "act \<le> 19" "S \<noteq> []" using assms(2) by (auto simp: token_of_def)
  have got: "yytext ?g = take n S" using holds_text [OF assms(1), of n] assms(3)
    by (simp add: yytext_def YY_DO_BEFORE_ACTION_def drop_update_swap)
  have same: "(fx_ch_buf ?g)[fx_c_buf_p ?g := fx_hold ?g] = fx_ch_buf f" by (simp add: YY_DO_BEFORE_ACTION_def)
  have lines: "count_lines act ?g = ?g\<lparr>fx_lineno := fx_lineno f + (if yy_rule_can_match_eol ! act \<noteq> 0 then newlines (take n S) else 0)\<rparr>"
    using act got by (simp add: count_lines_def YY_END_OF_BUFFER_def newlines_def) (simp add: YY_DO_BEFORE_ACTION_def)
  have "ready (count_lines act ?g) (drop n S)"
    using holds_drop [OF assms(1,3)] len assms(3) unfolding lines
    by (simp add: ready_def holds_def YY_DO_BEFORE_ACTION_def)
  moreover have "yytext (count_lines act ?g) = take n S" unfolding lines using got by (simp add: yytext_def)
  moreover have "yy_goto en (Yy_Find_Action bp st cp) f = Some (Inr (act, count_lines act ?g))"
    using act assms(4) by (subst yy_goto.simps) (simp add: Let_def YY_END_OF_BUFFER_def)
  ultimately show ?thesis using act assms(2) lines by (auto simp: scans_def)
qed


text \<open>The action for the end of the buffer sees the block as it was.\<close>

definition at_end :: "nat \<Rightarrow> nat \<Rightarrow> flex \<Rightarrow> flex" where
  "at_end bp q f = f\<lparr>fx_text := bp, fx_leng := q + 1 - bp, fx_hold := fx_ch_buf f ! (q + 1), fx_c_buf_p := q + 1,
     fx_n_chars := (if fx_status f = YY_BUFFER_NEW then fx_buf_n_chars f else fx_n_chars f),
     fx_status := (if fx_status f = YY_BUFFER_NEW then YY_BUFFER_NORMAL else fx_status f)\<rparr>"

lemma at_end_holds: "holds f bp S \<Longrightarrow> holds (at_end bp q f) bp S"
  by (cases "fx_status f = YY_BUFFER_NEW") (auto simp: holds_def at_end_def)

lemma at_end_n_chars: "holds f bp S \<Longrightarrow> fx_n_chars (at_end bp q f) = fx_n_chars f"
  by (simp add: holds_def at_end_def)

lemma at_end_fields:
  "fx_text (at_end bp q f) = bp" "fx_c_buf_p (at_end bp q f) = q + 1" "fx_ch_buf (at_end bp q f) = fx_ch_buf f"
  "fx_last (at_end bp q f) = fx_last f" "fx_lineno (at_end bp q f) = fx_lineno f" "fx_in (at_end bp q f) = fx_in f"
  "fx_status (at_end bp q f) \<noteq> YY_BUFFER_NEW" "fx_start (at_end bp q f) = fx_start f"
  by (simp_all add: at_end_def)

lemma before_end:
  assumes "q + 1 < length (fx_ch_buf f)"
  shows "(YY_DO_BEFORE_ACTION bp (q + 1) f)\<lparr>fx_ch_buf := (fx_ch_buf (YY_DO_BEFORE_ACTION bp (q + 1) f))[q + 1 := fx_hold (YY_DO_BEFORE_ACTION bp (q + 1) f)]\<rparr> =
     f\<lparr>fx_text := bp, fx_leng := q + 1 - bp, fx_hold := fx_ch_buf f ! (q + 1), fx_c_buf_p := q + 1\<rparr>"
  using assms by (simp add: YY_DO_BEFORE_ACTION_def)

lemma goto_end_of_buffer:
  assumes "fx_last f = (3, q + 1)" and "q + 1 < length (fx_ch_buf f)" and "bp \<le> q"
  shows "yy_goto en (Yy_Find_Action bp 165 cp) f =
     (case (let f' = at_end bp q f
            in if fx_c_buf_p f' \<le> fx_n_chars f' then
                 Option.bind (yy_get_previous_state (f'\<lparr>fx_c_buf_p := q\<rparr>)) (\<lambda>(st, f2).
                 Option.bind (yy_try_NUL_trans st f2) (\<lambda>(next, f3).
                   if next \<noteq> 0 then
                     Some (Inr (Some (Yy_Match (fx_text f3) next (fx_c_buf_p f3 + 1)), f3\<lparr>fx_c_buf_p := fx_c_buf_p f3 + 1\<rparr>))
                   else Some (Inr (Some (Yy_Find_Action (fx_text f3) st (fx_c_buf_p f3)), f3))))
               else
                 (case yy_get_next_buffer en f' of
                    None \<Rightarrow> None
                  | Some (Inl e) \<Rightarrow> Some (Inl e)
                  | Some (Inr (EOB_ACT_END_OF_FILE, f2)) \<Rightarrow> Some (Inr (None, f2\<lparr>fx_c_buf_p := fx_text f2\<rparr>))
                  | Some (Inr (EOB_ACT_CONTINUE_SCAN, f2)) \<Rightarrow>
                      Option.bind (yy_get_previous_state (f2\<lparr>fx_c_buf_p := fx_text f2 + (q - bp)\<rparr>)) (\<lambda>(st, f3).
                        Some (Inr (Some (Yy_Match (fx_text f3) st (fx_c_buf_p f3)), f3)))
                  | Some (Inr (EOB_ACT_LAST_MATCH, f2)) \<Rightarrow>
                      Option.bind (yy_get_previous_state (f2\<lparr>fx_c_buf_p := fx_n_chars f2\<rparr>)) (\<lambda>(st, f3).
                        Some (Inr (Some (Yy_Find_Action (fx_text f3) st (fx_c_buf_p f3)), f3))))) of
        None \<Rightarrow> None
      | Some (Inl e) \<Rightarrow> Some (Inl e)
      | Some (Inr (None, f2)) \<Rightarrow> Some (Inr (YY_STATE_EOF, f2))
      | Some (Inr (Some l2, f2)) \<Rightarrow> yy_goto en l2 f2)"
proof -
  let ?d = "YY_DO_BEFORE_ACTION bp (q + 1) f"
  have find: "yy_find_action (165, fx_last f, cp) = (21, q + 1)" by (simp add: assms(1) yy_find_action_def special_states)
  have first: "count_lines 21 ?d = ?d" by (simp add: count_lines_def YY_END_OF_BUFFER_def)
  have state: "(let f1 = ?d\<lparr>fx_ch_buf := (fx_ch_buf ?d)[q + 1 := fx_hold ?d]\<rparr>
     in if fx_status f1 = YY_BUFFER_NEW then f1\<lparr>fx_n_chars := fx_buf_n_chars f1, fx_status := YY_BUFFER_NORMAL\<rparr> else f1) = at_end bp q f"
    unfolding before_end [OF assms(2)] by (simp add: at_end_def)
  have amount: "q + 1 - fx_text ?d - 1 = q - bp" by (simp add: YY_DO_BEFORE_ACTION_def)
  have "fx_text (at_end bp q f) + (q - bp) = q" using assms(3) by (simp add: at_end_fields)
  then show ?thesis using state unfolding yy_goto.simps [of en "Yy_Find_Action bp 165 cp" f]
    by (simp only: yy_label.case find prod.case first Let_def amount yy_end_of_buffer_def)
      (simp add: YY_END_OF_BUFFER_def)
qed

lemma previous_state_ok:
  assumes "fx_text g = bp" and "fx_start g = 1" and "fx_c_buf_p g = bp + length p"
    and "take (length p) (drop bp (fx_ch_buf g)) = p" and "reaches 1 p st1"
  shows "\<exists>la1. yy_get_previous_state g = Some (st1, g\<lparr>fx_last := la1\<rparr>) \<and> resumes bp p la1 st1"
proof -
  obtain la1 where "yy_previous (fx_last g) bp 1 p = Some (st1, la1)" "resumes bp p la1 st1"
    using resumes_previous [OF assms(5)] by blast
  then show ?thesis using assms(1-4) by (intro exI [of _ la1]) (simp add: yy_get_previous_state_def)
qed


text \<open>\<open>p\<close>, the buffered start of the token, was scanned up to \<open>st\<close>.\<close>

definition scanning :: "flex \<Rightarrow> nat \<Rightarrow> string \<Rightarrow> nat \<Rightarrow> string \<Rightarrow> bool" where
  "scanning f bp p st S \<longleftrightarrow> holds f bp S \<and> bp + length p \<le> fx_n_chars f \<and> take (length p) S = p \<and>
     reaches 1 p st \<and> live st \<and> resumes bp p (fx_last f) st"

lemma class_total: "live st \<Longrightarrow> resumes bp p la st \<Longrightarrow> \<exists>t. yy_find st (yy_class c) = Some t"
proof -
  assume "resumes bp p la st"
  moreover obtain act n where "token_of (p @ [c]) act n" using token_exists by blast
  ultimately have "map_option yy_find_action (yy_run la (bp + length p) st [c]) = Some (act, bp + n)"
    by (intro resumesD) (simp_all only: token_of_def, simp)
  then show ?thesis by (cases "yy_find st (yy_class c)") simp_all
qed

lemma resumes_char:
  assumes "resumes bp p la st" and "yy_find st (yy_class c) = Some t" and "live t"
  shows "resumes bp (p @ [c]) (if yy_accept ! st \<noteq> 0 then (st, bp + length p) else la) t"
  unfolding resumes_def
proof (intro allI impI)
  fix ys act n
  let ?la = "if yy_accept ! st \<noteq> 0 then (st, bp + length p) else la"
  assume "yy_match (0, 0) ((p @ [c]) @ ys) = Some (act, n)"
  then have run: "map_option yy_find_action (yy_run la (bp + length p) st (c # ys)) = Some (act, bp + n)"
    by (intro resumesD [OF assms(1)]) simp_all
  show "map_option yy_find_action (yy_run ?la (bp + length (p @ [c])) t ys) = Some (act, bp + n)"
  proof (cases "yy_base ! t = 188")
    case True
    then have final: "t \<in> set final_states" using live_base [OF assms(3)] by blast
    then have "yy_accept ! t \<noteq> 0" using final_jam(2) [of t 1] by simp
    then show ?thesis using run True assms(2) final_run [OF final] by (simp add: yy_find_action_def Let_def)
  next
    case False
    then show ?thesis using run assms(2) by (simp add: Let_def add.assoc)
  qed
qed

lemma holds_take_next:
  assumes "holds f bp S" and "bp + length p < fx_n_chars f" and "fx_ch_buf f ! (bp + length p) = c" and "take (length p) S = p"
  shows "take (length p + 1) S = p @ [c]"
proof -
  have "bp + length p < length (fx_ch_buf f)" using assms(1,2) by (simp add: holds_def)
  then have "take (length p + 1) (drop bp (fx_ch_buf f)) = take (length p) (drop bp (fx_ch_buf f)) @ [fx_ch_buf f ! (bp + length p)]"
    by (simp add: take_Suc_conv_app_nth)
  then show ?thesis
    using holds_text [OF assms(1), of "length p + 1"] holds_text [OF assms(1), of "length p"] assms by simp
qed

text \<open>A state that jams on a zero byte ends the token.\<close>

lemma jam_ends:
  assumes "holds f bp S" and "bp + length p < fx_n_chars f" and "take (length p + 1) S = p @ [c]" and "resumes bp p la st"
    and "yy_find st (yy_class c) = Some 165" and "fx_last f = (if yy_accept ! st \<noteq> 0 then (st, bp + length p) else la)"
  shows "scans S (fx_lineno f) (yy_goto en (Yy_Find_Action bp st (bp + length p)) f)"
proof -
  have stop: "map_option yy_find_action (yy_run la (bp + length p) st ([c] @ zs)) = Some (yy_find_action (st, fx_last f, bp + length p))" for zs
    using assms(5,6) special_states by (simp add: yy_find_action_def Let_def)
  have whole: "p @ [c] @ drop (length p + 1) S = S"
    by (simp only: append_assoc [symmetric] assms(3) [symmetric] append_take_drop_id)
  have "p @ [c] \<noteq> []" by simp
  from token_within [OF assms(4) this stop, of "drop (length p + 1) S", unfolded whole]
  obtain act n where tok: "token_of S act n" "n \<le> length p + 1" "yy_find_action (st, fx_last f, bp + length p) = (act, bp + n)"
    by auto
  show ?thesis by (rule find_action_done [OF assms(1)]) (use tok assms(2) in simp_all)
qed

lemma inside_buffer:
  assumes f: "holds f bp S" "bp + length p < fx_n_chars f" "fx_ch_buf f ! (bp + length p) = NUL" "take (length p) S = p"
    and p: "reaches 1 p st" "live st" and last: "fx_last f = (3, bp + length p + 1)"
  shows "(\<exists>f' t. scanning f' bp (p @ [NUL]) t S \<and> fx_in f' = fx_in f \<and> fx_lineno f' = fx_lineno f \<and>
        yy_goto en (Yy_Find_Action bp 165 cp) f = yy_goto en (Yy_Match bp t (bp + length (p @ [NUL]))) f') \<or>
     scans S (fx_lineno f) (yy_goto en (Yy_Find_Action bp 165 cp) f)"
proof -
  let ?q = "bp + length p" and ?g = "(at_end bp (bp + length p) f)\<lparr>fx_c_buf_p := bp + length p\<rparr>"
  have len: "?q + 1 < length (fx_ch_buf f)" using f(1,2) by (simp add: holds_def)
  have g: "holds ?g bp S" by (rule holds_update [OF at_end_holds [OF f(1), of ?q]]) simp_all
  have n: "fx_n_chars ?g = fx_n_chars f" using at_end_n_chars [OF f(1)] by simp
  have "take (length p) (drop bp (fx_ch_buf ?g)) = p" using holds_text [OF f(1), of "length p"] f(2,4) by (simp add: at_end_fields)
  moreover have "fx_start ?g = 1" using g by (simp add: holds_def)
  ultimately obtain la1 where la1: "yy_get_previous_state ?g = Some (st, ?g\<lparr>fx_last := la1\<rparr>)" "resumes bp p la1 st"
    using previous_state_ok [of ?g bp p st] p(1) by (auto simp: at_end_fields)
  obtain t where t: "yy_find st (yy_class NUL) = Some t" using class_total [OF p(2) la1(2)] by blast
  have nul: "yy_class NUL = 1" by (simp add: yy_class_def)
  define la2 where "la2 = (if yy_accept ! st \<noteq> 0 then (st, ?q) else la1)"
  let ?h = "?g\<lparr>fx_last := la2\<rparr>"
  have h: "holds ?h bp S" by (rule holds_update [OF g]) simp_all
  have try_nul: "yy_try_NUL_trans st (?g\<lparr>fx_last := la1\<rparr>) = Some (if t = 165 then 0 else t, ?h)"
    using t by (simp add: yy_try_NUL_trans_def nul la2_def)
  have "fx_c_buf_p (at_end bp ?q f) \<le> fx_n_chars (at_end bp ?q f)" using n f(2) by (simp add: at_end_fields)
  then have jump: "yy_goto en (Yy_Find_Action bp 165 cp) f =
      (if (if t = 165 then 0 else t) \<noteq> 0 then yy_goto en (Yy_Match bp t (?q + 1)) (?h\<lparr>fx_c_buf_p := ?q + 1\<rparr>)
       else yy_goto en (Yy_Find_Action bp st ?q) ?h)"
    unfolding goto_end_of_buffer [OF last len le_add1] Let_def
    by (simp add: la1(1) try_nul) (simp add: at_end_fields)
  have S: "take (length p + 1) S = p @ [NUL]" by (rule holds_take_next [OF f])
  show ?thesis
  proof (cases "t = 165")
    case False
    note t' = reaches_char [OF t p(2) False]
    have "scanning (?h\<lparr>fx_c_buf_p := ?q + 1\<rparr>) bp (p @ [NUL]) t S"
      unfolding scanning_def
      using holds_update [OF h] reaches_trans [OF p(1) t'(1)] t'(2) S n f(2) resumes_char [OF la1(2) t t'(2)]
      by (simp add: la2_def)
    moreover have "(if t = 165 then 0 else t) \<noteq> 0" using t'(2) by (simp add: live_def)
    ultimately show ?thesis using jump
      by (intro disjI1 exI [of _ "?h\<lparr>fx_c_buf_p := ?q + 1\<rparr>"] exI [of _ t]) (simp add: at_end_fields)
  next
    case True
    have "scans S (fx_lineno ?h) (yy_goto en (Yy_Find_Action bp st ?q) ?h)"
      by (rule jam_ends [OF h _ S la1(2)]) (use True t n f(2) in \<open>simp_all add: la2_def\<close>)
    then show ?thesis using jump True by (simp add: at_end_fields)
  qed
qed

text \<open>What a refill leaves before its end is closed: the start \<open>p\<close> of the token at the front, new characters
  after it, the rest in the stream.\<close>

definition refilled :: "flex \<Rightarrow> string \<Rightarrow> flex \<Rightarrow> bool" where
  "refilled f p g \<longleftrightarrow> take (length p) (fx_ch_buf g) = p \<and> fx_n_chars g + length p \<le> fx_buf_size g \<and>
     length (fx_ch_buf g) = fx_buf_size g + 2 \<and> 0 < fx_buf_size g \<and>
     take (fx_n_chars g) (drop (length p) (fx_ch_buf g)) @ fx_in g = fx_in f \<and> (fx_n_chars g = 0 \<longleftrightarrow> fx_in f = []) \<and>
     fx_exists g \<and> fx_init g \<and> fx_start g = 1 \<and> fx_is_our_buffer g \<and> fx_fill_buffer g \<and>
     fx_status g \<noteq> YY_BUFFER_NEW \<and> (fx_status g = YY_BUFFER_EOF_PENDING \<longrightarrow> fx_in f = []) \<and> fx_lineno g = fx_lineno f"

lemma refill:
  assumes "holds f bp S" and "bp + length p = fx_n_chars f" and "take (length p) S = p" and "env_ok en" and "length S + 2 < 2 ^ 30"
  shows "\<exists>g. yy_get_next_buffer en (at_end bp (bp + length p) f) = Some (yy_close_buffer en (length p) g) \<and> refilled f p g"
    and "S = p @ fx_in f"
proof -
  let ?e = "at_end bp (bp + length p) f"
  have e: "holds ?e bp S" "fx_n_chars ?e = bp + length p" using at_end_holds [OF assms(1)] at_end_n_chars [OF assms(1)] assms(2) by simp_all
  have pb: "take (length p) (drop bp (fx_ch_buf f)) = p" using holds_text [OF assms(1), of "length p"] assms(2,3) by simp
  then show "S = p @ fx_in f" using assms(1) by (simp add: holds_def flip: assms(2))
  have st: "fx_status ?e = YY_BUFFER_EOF_PENDING \<longrightarrow> fx_in f = []" using e(1) by (auto simp: holds_def at_end_fields)
  obtain g where g: "yy_get_next_buffer en ?e = Some (yy_close_buffer en (length p) g)" "take (length p) (fx_ch_buf g) = p"
      "fx_n_chars g + length p \<le> fx_buf_size g" "length (fx_ch_buf g) = fx_buf_size g + 2" "0 < fx_buf_size g"
      "take (fx_n_chars g) (drop (length p) (fx_ch_buf g)) @ fx_in g = fx_in f" "fx_n_chars g = 0 \<longleftrightarrow> fx_in f = []"
      "fx_exists g" "fx_init g" "fx_start g = 1" "fx_is_our_buffer g" "fx_fill_buffer g"
      "fx_status g = fx_status ?e" "fx_lineno g = fx_lineno f"
    using next_buffer_split [OF e(1) _ _ assms(4,5)] e(2) pb by (auto simp: at_end_fields)
  then have "refilled f p g" using st unfolding refilled_def by (simp add: at_end_fields)
  then show "\<exists>g. yy_get_next_buffer en ?e = Some (yy_close_buffer en (length p) g) \<and> refilled f p g" using g(1) by blast
qed

lemma refill_more:
  assumes "refilled f p g" and "fx_in f \<noteq> []" and "S = p @ fx_in f" and "reaches 1 p st" and "live st"
  shows "\<exists>h i. yy_close_buffer en (length p) g = Inr (EOB_ACT_CONTINUE_SCAN, h) \<and> fx_text h = 0 \<and>
     yy_get_previous_state (h\<lparr>fx_c_buf_p := length p\<rparr>) = Some (st, i) \<and> fx_text i = 0 \<and> fx_c_buf_p i = length p \<and>
     scanning i 0 p st S \<and> length (fx_in i) < length (fx_in f) \<and> fx_lineno i = fx_lineno f"
proof -
  let ?h = "g\<lparr>fx_n_chars := fx_n_chars g + length p,
     fx_ch_buf := (fx_ch_buf g)[fx_n_chars g + length p := NUL, fx_n_chars g + length p + 1 := NUL], fx_text := 0\<rparr>"
  have g: "0 < fx_n_chars g" "fx_n_chars g + length p \<le> fx_buf_size g" "length (fx_ch_buf g) = fx_buf_size g + 2"
    "take (length p) (fx_ch_buf g) = p" "take (fx_n_chars g) (drop (length p) (fx_ch_buf g)) @ fx_in g = fx_in f"
    using assms(1,2) by (auto simp: refilled_def)
  have "take (length p + fx_n_chars g) (fx_ch_buf g) @ fx_in g = S" using g(4,5) assms(3) by (simp add: take_add)
  then have h: "holds ?h 0 S" using assms(1,2) g(2,3) by (simp add: holds_def refilled_def add.commute)
  obtain la where la: "yy_get_previous_state (?h\<lparr>fx_c_buf_p := length p\<rparr>) = Some (st, ?h\<lparr>fx_c_buf_p := length p, fx_last := la\<rparr>)"
    "resumes 0 p la st"
    using previous_state_ok [of "?h\<lparr>fx_c_buf_p := length p\<rparr>" 0 p st] assms(4) g(4) h by (auto simp: holds_def)
  let ?i = "?h\<lparr>fx_c_buf_p := length p, fx_last := la\<rparr>"
  have "holds ?i 0 S" by (rule holds_update [OF h]) simp_all
  then have "scanning ?i 0 p st S" using la(2) assms(3-5) by (simp add: scanning_def)
  moreover have "length (fx_in ?i) < length (fx_in f)" using g(1-3) by (auto simp flip: g(5))
  ultimately show ?thesis using la(1) close_more [OF g(1-3)] assms(1) by (intro exI [of _ ?h] exI [of _ ?i]) (simp add: refilled_def)
qed

lemma refill_last:
  assumes "refilled f p g" and "fx_in f = []" and "p \<noteq> []" and "reaches 1 p st"
  shows "\<exists>h i. yy_close_buffer en (length p) g = Inr (EOB_ACT_LAST_MATCH, h) \<and>
     yy_get_previous_state (h\<lparr>fx_c_buf_p := fx_n_chars h\<rparr>) = Some (st, i) \<and> fx_text i = 0 \<and> fx_c_buf_p i = length p \<and>
     scans p (fx_lineno f) (yy_goto en (Yy_Find_Action 0 st (length p)) i)"
proof -
  let ?h = "g\<lparr>fx_status := YY_BUFFER_EOF_PENDING, fx_n_chars := length p,
     fx_ch_buf := (fx_ch_buf g)[length p := NUL, length p + 1 := NUL], fx_text := 0\<rparr>"
  have g: "fx_n_chars g = 0" "0 < length p" "length p \<le> fx_buf_size g" "length (fx_ch_buf g) = fx_buf_size g + 2"
    "take (length p) (fx_ch_buf g) = p" "0 < fx_buf_size g"
    using assms(1-3) by (auto simp: refilled_def)
  have h: "holds ?h 0 p" using assms(1,2) g by (auto simp: holds_def refilled_def)
  obtain la where la: "yy_get_previous_state (?h\<lparr>fx_c_buf_p := length p\<rparr>) = Some (st, ?h\<lparr>fx_c_buf_p := length p, fx_last := la\<rparr>)"
    "resumes 0 p la st"
    using previous_state_ok [of "?h\<lparr>fx_c_buf_p := length p\<rparr>" 0 p st] assms(4) g(5) h by (auto simp: holds_def)
  let ?i = "?h\<lparr>fx_c_buf_p := length p, fx_last := la\<rparr>"
  have i: "holds ?i 0 p" by (rule holds_update [OF h]) simp_all
  obtain act m where tok: "token_of p act m" using token_exists [OF assms(3)] by blast
  then have "map_option yy_find_action (yy_run la (0 + length p) st []) = Some (act, 0 + m)"
    using assms(3) by (intro resumesD [OF la(2)]) (simp_all add: token_of_def)
  then have "yy_find_action (st, fx_last ?i, length p) = (act, 0 + m)" by simp
  then have "scans p (fx_lineno ?i) (yy_goto en (Yy_Find_Action 0 st (length p)) ?i)"
    using tok by (intro find_action_done [OF i]) (simp_all add: token_of_def)
  then show ?thesis using la(1) close_last [OF g(1-4)] assms(1) by (intro exI [of _ ?h] exI [of _ ?i]) (simp add: refilled_def)
qed

lemma refill_end:
  assumes "refilled f [] g" and "fx_in f = []"
  shows "\<exists>h. yy_close_buffer en 0 g = Inr (EOB_ACT_END_OF_FILE, h) \<and> ready (h\<lparr>fx_c_buf_p := fx_text h\<rparr>) [] \<and>
     fx_status h = YY_BUFFER_NEW \<and> fx_lineno h = fx_lineno f"
proof -
  have g: "fx_n_chars g = 0" "fx_in g = []" "fx_exists g" "length (fx_ch_buf g) = fx_buf_size g + 2" "0 < fx_buf_size g"
    "fx_init g" "fx_start g = 1" "fx_is_our_buffer g" "fx_lineno g = fx_lineno f"
    using assms by (auto simp: refilled_def)
  obtain h where h: "yy_close_buffer en 0 g = Inr (EOB_ACT_END_OF_FILE, h)" "fx_exists h" "fx_init h"
    "fx_start h = 1" "fx_is_our_buffer h" "fx_fill_buffer h" "fx_buf_size h = fx_buf_size g"
    "length (fx_ch_buf h) = fx_buf_size g + 2" "fx_n_chars h = 0" "fx_ch_buf h ! 0 = NUL" "fx_ch_buf h ! 1 = NUL"
    "fx_buf_n_chars h = 0" "fx_status h = YY_BUFFER_NEW" "fx_in h = []" "fx_text h = 0" "fx_hold h = NUL"
    "fx_lineno h = fx_lineno f"
    using close_end [OF g(1,3,4), of en] g by auto
  have "(fx_ch_buf h)[0 := NUL] = fx_ch_buf h" using h(10) by (metis list_update_id)
  then have "ready (h\<lparr>fx_c_buf_p := fx_text h\<rparr>) []" using h g(5) by (simp add: ready_def holds_def)
  then show ?thesis using h(1,13,17) by blast
qed

text \<open>The buffer ran out: the start of the token moves to the front, and more text follows, or the token is
  complete, or the file has ended.\<close>

lemma refill_buffer:
  assumes f: "holds f bp S" "bp + length p = fx_n_chars f" "take (length p) S = p"
    and p: "reaches 1 p st" "live st" and last: "fx_last f = (3, bp + length p + 1)"
    and en: "env_ok en" and short: "length S + 2 < 2 ^ 30"
  shows "(\<exists>f'. scanning f' 0 p st S \<and> length (fx_in f') < length (fx_in f) \<and> fx_lineno f' = fx_lineno f \<and>
        yy_goto en (Yy_Find_Action bp 165 cp) f = yy_goto en (Yy_Match 0 st (length p)) f') \<or>
     scans S (fx_lineno f) (yy_goto en (Yy_Find_Action bp 165 cp) f)"
proof -
  let ?q = "bp + length p" and ?e = "at_end bp (bp + length p) f"
  have len: "?q + 1 < length (fx_ch_buf f)" using f(1,2) by (simp add: holds_def)
  have jump: "\<not> fx_c_buf_p ?e \<le> fx_n_chars ?e" using at_end_n_chars [OF f(1)] f(2) by (simp add: at_end_fields)
  obtain g where g: "yy_get_next_buffer en ?e = Some (yy_close_buffer en (length p) g)" "refilled f p g"
    using refill(1) [OF f en short] by blast
  have S: "S = p @ fx_in f" by (rule refill(2) [OF f en short])
  note goto = goto_end_of_buffer [OF last len le_add1, of en cp, unfolded Let_def g(1)]
  show ?thesis
  proof (cases "fx_in f = []")
    case False
    from refill_more [OF g(2) False S p, of en] show ?thesis using goto jump by auto
  next
    case True
    show ?thesis
    proof (cases "p = []")
      case False
      from refill_last [OF g(2) True False p(1), of en] show ?thesis using goto jump S True by auto
    next
      case True
      from refill_end [of f g en] show ?thesis using goto jump S True g(2) \<open>fx_in f = []\<close> by (auto simp: scans_def)
    qed
  qed
qed

text \<open>There is a zero byte ahead, and another character after it.\<close>

lemma zero_ahead:
  assumes "holds f bp S" and "cp \<le> fx_n_chars f"
  shows "\<exists>xs c cs. drop cp (fx_ch_buf f) = xs @ NUL # c # cs \<and> NUL \<notin> set xs \<and> cp + length xs \<le> fx_n_chars f"
proof -
  let ?b = "fx_ch_buf f" and ?n = "fx_n_chars f"
  have len: "?n + 1 < length ?b" "?b ! ?n = NUL" using assms(1) by (simp_all add: holds_def)
  define rest where "rest = drop cp (take ?n ?b)"
  have "drop ?n ?b = NUL # ?b ! (?n + 1) # drop (?n + 2) ?b"
    using len by (simp add: Cons_nth_drop_Suc [symmetric])
  then have ahead: "drop cp ?b = rest @ NUL # ?b ! (?n + 1) # drop (?n + 2) ?b"
    using append_take_drop_id [of ?n ?b] assms(2) len(1)
    by (metis (no_types, opaque_lifting) append_take_drop_id drop_drop drop_take le_add_diff_inverse2 rest_def)
  show ?thesis
  proof (cases "NUL \<in> set rest")
    case True
    then obtain xs zs where split: "rest = xs @ NUL # zs" "NUL \<notin> set xs" by (meson split_list_first)
    have "length rest = ?n - cp" using len(1) by (simp add: rest_def)
    then have "cp + length xs \<le> ?n" using split(1) by simp
    moreover obtain c cs where "zs @ NUL # ?b ! (?n + 1) # drop (?n + 2) ?b = c # cs" by (cases zs) auto
    ultimately show ?thesis using ahead split by auto
  next
    case False
    moreover have "cp + length rest \<le> ?n" using assms(2) len(1) by (simp add: rest_def)
    ultimately show ?thesis using ahead by blast
  qed
qed

text \<open>The buffered text after \<open>p\<close> up to the next zero byte.\<close>

lemma buffered_piece:
  assumes "scanning f bp p st S"
  shows "\<exists>xs c cs. drop (bp + length p) (fx_ch_buf f) = xs @ NUL # c # cs \<and> NUL \<notin> set xs \<and>
     bp + length (p @ xs) \<le> fx_n_chars f \<and> take (length (p @ xs)) S = p @ xs \<and>
     fx_ch_buf f ! (bp + length (p @ xs)) = NUL"
proof -
  let ?cp = "bp + length p" and ?b = "fx_ch_buf f"
  have s: "holds f bp S" "?cp \<le> fx_n_chars f" "take (length p) S = p" using assms by (simp_all add: scanning_def)
  obtain xs c cs where ahead: "drop ?cp ?b = xs @ NUL # c # cs" "NUL \<notin> set xs" "?cp + length xs \<le> fx_n_chars f"
    using zero_ahead [OF s(1,2)] by blast
  have "take (length (p @ xs)) (drop bp ?b) = take (length p) (drop bp ?b) @ take (length xs) (drop ?cp ?b)"
    by (simp add: take_add add.commute)
  moreover have "length (p @ xs) \<le> fx_n_chars f - bp" "length p \<le> fx_n_chars f - bp" using s(2) ahead(3) by simp_all
  then have "take (length (p @ xs)) (drop bp ?b) = take (length (p @ xs)) S" "take (length p) (drop bp ?b) = p"
    using holds_text [OF s(1)] s(3) by metis+
  ultimately have "take (length (p @ xs)) S = p @ xs" using ahead(1) by (simp only:) simp
  moreover have "?b ! (?cp + length xs) = drop ?cp ?b ! length xs" using s(1,2) by (simp add: holds_def)
  then have "?b ! (bp + length (p @ xs)) = NUL" using ahead(1) by (simp add: add.assoc)
  ultimately show ?thesis using ahead by (simp add: add.assoc) blast
qed

text \<open>The token ends in the piece.\<close>

lemma piece_ends:
  assumes "scanning f bp p st S" and "drop (bp + length p) (fx_ch_buf f) = xs @ ys" and "bp + length (p @ xs) \<le> fx_n_chars f"
    and "take (length (p @ xs)) S = p @ xs" and "xs \<noteq> []"
    and run: "\<forall>la cp ys zs. yy_match_buf la cp st (xs @ ys) = yy_run la cp st (xs @ zs)"
  shows "scans S (fx_lineno f) (yy_goto en (Yy_Match bp st (bp + length p)) f)"
proof -
  let ?cp = "bp + length p"
  have s: "holds f bp S" "resumes bp p (fx_last f) st" using assms(1) by (simp_all add: scanning_def)
  obtain r where r: "yy_match_buf (fx_last f) ?cp st (drop ?cp (fx_ch_buf f)) = r" by blast
  have "map_option yy_find_action (yy_run (fx_last f) ?cp st (xs @ zs)) = map_option yy_find_action r" for zs
    using run r unfolding assms(2) by metis
  moreover have "p @ xs @ drop (length (p @ xs)) S = S"
    using append_take_drop_id [of "length (p @ xs)" S] unfolding assms(4) by simp
  ultimately obtain act n where tok: "token_of S act n" "n \<le> length (p @ xs)" "map_option yy_find_action r = Some (act, bp + n)"
    using token_within [OF s(2) _, of xs "map_option yy_find_action r" "drop (length (p @ xs)) S"] assms(5) by auto
  then obtain st' la cp' where r': "r = Some (st', la, cp')" "yy_find_action (st', la, cp') = (act, bp + n)" by auto
  have "holds (f\<lparr>fx_last := la\<rparr>) bp S" by (rule holds_update [OF s(1)]) simp_all
  then have "scans S (fx_lineno (f\<lparr>fx_last := la\<rparr>)) (yy_goto en (Yy_Find_Action bp st' cp') (f\<lparr>fx_last := la\<rparr>))"
    by (rule find_action_done) (use tok r' assms(3) in simp_all)
  then show ?thesis using r r' by (subst yy_goto.simps) simp
qed

text \<open>Matching from a label on scans the token that starts at \<open>yy_bp\<close>.\<close>

lemma match_scans:
  assumes "scanning f bp p st S" and "env_ok en" and "length S + 2 < 2 ^ 30"
  shows "scans S (fx_lineno f) (yy_goto en (Yy_Match bp st (bp + length p)) f)"
  using assms(1)
proof (induction "length (fx_in f) + length S - length p" arbitrary: f bp p st rule: less_induct)
  case less
  let ?cp = "bp + length p"
  have s: "holds f bp S" "reaches 1 p st" "live st" using less.prems by (simp_all add: scanning_def)
  obtain xs c cs where ahead: "drop ?cp (fx_ch_buf f) = xs @ NUL # c # cs" "NUL \<notin> set xs" "bp + length (p @ xs) \<le> fx_n_chars f"
    "take (length (p @ xs)) S = p @ xs" "fx_ch_buf f ! (bp + length (p @ xs)) = NUL"
    using buffered_piece [OF less.prems] by blast
  have S: "length (p @ xs) \<le> length S" using ahead(4) by (metis length_take min.cobounded1)
  from match_piece [OF s(3) ahead(2)] show ?case
  proof (elim disjE exE conjE)
    assume "xs \<noteq> []" "\<forall>la cp ys zs. yy_match_buf la cp st (xs @ ys) = yy_run la cp st (xs @ zs)"
    then show ?thesis by (rule piece_ends [OF less.prems ahead(1,3,4)])
  next
    fix st1
    assume st1: "live st1" "reaches st xs st1"
      and run: "\<forall>la cp c ys. yy_match_buf la cp st (xs @ NUL # c # ys) = Some (165, (3, cp + length xs + 1), cp + length xs + 2)"
    let ?f = "f\<lparr>fx_last := (3, bp + length (p @ xs) + 1)\<rparr>"
    let ?fin = "yy_goto en (Yy_Find_Action bp 165 (?cp + length xs + 2)) ?f"
    have jump: "yy_goto en (Yy_Match bp st ?cp) f = ?fin"
      unfolding yy_goto.simps [of en "Yy_Match bp st ?cp"] ahead(1) yy_label.case
      by (subst run [rule_format]) (simp add: add.assoc)
    have h: "holds ?f bp S" by (rule holds_update [OF s(1)]) simp_all
    have px: "take (length (p @ xs)) S = p @ xs" "reaches 1 (p @ xs) st1" using ahead(4) reaches_trans [OF s(2) st1(2)] by simp_all
    have last: "fx_last ?f = (3, bp + length (p @ xs) + 1)" by simp
    show ?thesis
    proof (cases "bp + length (p @ xs) = fx_n_chars f")
      case True
      then have full: "bp + length (p @ xs) = fx_n_chars ?f" by simp
      from refill_buffer [OF h full px(1,2) st1(1) last assms(2,3), of "?cp + length xs + 2"] show ?thesis
      proof (elim disjE exE conjE)
        fix f'
        assume cont: "scanning f' 0 (p @ xs) st1 S" "length (fx_in f') < length (fx_in ?f)" "fx_lineno f' = fx_lineno ?f"
          "?fin = yy_goto en (Yy_Match 0 st1 (length (p @ xs))) f'"
        have "scans S (fx_lineno f') (yy_goto en (Yy_Match 0 st1 (0 + length (p @ xs))) f')"
          by (rule less.hyps [OF _ cont(1)]) (use cont(2) S in simp)
        then show ?thesis using jump cont by simp
      qed (simp add: jump)
    next
      case False
      have "bp + length (p @ xs) < fx_n_chars ?f" using False ahead(3) by simp
      moreover have "fx_ch_buf ?f ! (bp + length (p @ xs)) = NUL" using ahead(5) by simp
      ultimately have "(\<exists>f' t. scanning f' bp ((p @ xs) @ [NUL]) t S \<and> fx_in f' = fx_in ?f \<and> fx_lineno f' = fx_lineno ?f \<and>
          ?fin = yy_goto en (Yy_Match bp t (bp + length ((p @ xs) @ [NUL]))) f') \<or> scans S (fx_lineno ?f) ?fin"
        by (intro inside_buffer [OF h _ _ px st1(1) last])
      then show ?thesis
      proof (elim disjE exE conjE)
        fix f' t
        assume cont: "scanning f' bp ((p @ xs) @ [NUL]) t S" "fx_in f' = fx_in ?f" "fx_lineno f' = fx_lineno ?f"
          "?fin = yy_goto en (Yy_Match bp t (bp + length ((p @ xs) @ [NUL]))) f'"
        have "length ((p @ xs) @ [NUL]) \<le> length S" using cont(1) unfolding scanning_def by (metis length_take min.cobounded1)
        then have "scans S (fx_lineno f') (yy_goto en (Yy_Match bp t (bp + length ((p @ xs) @ [NUL]))) f')"
          by (intro less.hyps [OF _ cont(1)]) (use cont(2) in simp)
        then show ?thesis using jump cont by simp
      qed (simp add: jump)
    qed
  qed
qed

end
