(* ===== verification/Orbit_Reader.thy ===== *)
theory Orbit_Reader
  imports Orbit_Stream
begin

text \<open>
  Calls of the compiled \<open>yylex\<close> and the runs of the console over it: the refinement of \<open>yylex\<close>, \<open>run_loop\<close>
  and \<open>console_run\<close> of \<open>Orbit_Config\<close> by the code of \<^verbatim>\<open>src/parser/scanner.c\<close>, one call, one file and a
  sequence of files at a time, with the count of lines.
\<close>

section \<open>Calls of \<open>yylex\<close>\<close>

lemma keyword_no_newline: "k \<in> set keyword_texts \<Longrightarrow> CHR 0x0A \<notin> set k"
proof -
  assume "k \<in> set keyword_texts"
  moreover have "\<forall>k \<in> set keyword_texts. CHR 0x0A \<notin> set k" by (simp add: keyword_texts_def)
  ultimately show ?thesis by blast
qed

text \<open>Only the rules for strings and line ends match a newline.\<close>

lemma rule_newline:
  assumes "r \<in> set rules" and "r \<noteq> R_STRING" and "r \<noteq> R_NEWLINE"
  shows "CHR 0x0A \<notin> set (take (match_length r s) s)"
proof -
  have lit: "CHR 0x0A \<notin> set k \<Longrightarrow> CHR 0x0A \<notin> set (take (literal k s) s)" for k by (auto simp: literal_def)
  have run: "\<not> P (CHR 0x0A) \<Longrightarrow> CHR 0x0A \<notin> set (take (length (takeWhile P s)) s)" for P
    by (metis set_takeWhileD takeWhile_eq_take)
  show ?thesis
  proof (cases r)
    case (R_KEYWORD k)
    then have "k \<in> set keyword_texts" using assms(1) by (auto simp: rules_def)
    then show ?thesis using lit keyword_no_newline by (simp add: R_KEYWORD)
  qed (use assms(2,3) lit run in \<open>auto simp: is_digit_def is_blank_def is_ident_def is_letter_def hd_conv_nth take_Suc split: list.splits\<close>)
qed

lemma token_rule: "token_of S act n \<Longrightarrow> longest rules S = Some (rules ! (act - 1), n)"
  using yy_match_token [of S] by (cases "S = []") (auto simp: token_of_def)

lemma newline_rules:
  assumes "token_of S act n" and "yy_rule_can_match_eol ! act = 0"
  shows "newlines (take n S) = 0"
proof -
  have act: "act \<in> {1..<20}" using assms(1) by (auto simp: token_of_def)
  have "\<forall>i \<in> set (1 # [2..<20]). yy_rule_can_match_eol ! i = 0 \<longrightarrow>
      rules ! (i - 1) \<in> set rules \<and> rules ! (i - 1) \<noteq> R_STRING \<and> rules ! (i - 1) \<noteq> R_NEWLINE"
    by (simp add: rules_def keyword_texts_def yy_rule_can_match_eol_def)
  moreover have "act \<in> set (1 # [2..<20])" using act unfolding list.set set_upt by auto
  ultimately have "rules ! (act - 1) \<in> set rules" "rules ! (act - 1) \<noteq> R_STRING" "rules ! (act - 1) \<noteq> R_NEWLINE"
    using assms(2) by blast+
  then have "CHR 0x0A \<notin> set (take n S)" using rule_newline longest_bound [OF token_rule [OF assms(1)]] by metis
  then show ?thesis by (auto simp: newlines_def filter_empty_conv)
qed

lemma newlines_append [simp]: "newlines (s @ t) = newlines s + newlines t"
  by (simp add: newlines_def)

lemma newlines_split: "newlines s = newlines (take n s) + newlines (drop n s)"
  by (metis append_take_drop_id newlines_append)

lemma rule_action_token: "rule_action r s = Some (type, v, token) \<Longrightarrow> token \<noteq> 0"
  by (cases r) (auto simp: token_defs)

text \<open>What a call of \<open>yylex\<close> returns, against \<open>yylex\<close> of the rules.\<close>

definition lexes :: "string \<Rightarrow> console_state \<times> configs \<Rightarrow> nat \<Rightarrow> (int \<times> flex \<times> console_state \<times> configs) res option \<Rightarrow> bool" where
  "lexes S st lines r \<longleftrightarrow> (\<exists>token rest st' g. yylex S st = (token, rest, st') \<and> r = Some (Inr (token, g, st')) \<and>
     ready g rest \<and> fx_lineno g + newlines rest = lines + newlines S \<and>
     (token = 0 \<longrightarrow> rest = [] \<and> fx_status g = YY_BUFFER_NEW))"

lemma ready_label:
  assumes "ready f S" and "env_ok en" and "length S + 2 < 2 ^ 30"
  shows "scans S (fx_lineno f)
     (yy_goto en (Yy_Match (fx_c_buf_p f) (fx_start f) (fx_c_buf_p f)) (f\<lparr>fx_ch_buf := (fx_ch_buf f)[fx_c_buf_p f := fx_hold f]\<rparr>))"
proof -
  let ?f = "f\<lparr>fx_ch_buf := (fx_ch_buf f)[fx_c_buf_p f := fx_hold f]\<rparr>"
  have "holds ?f (fx_c_buf_p f) S" "fx_start f = 1" using assms(1) by (auto simp: ready_def holds_def)
  then have "scanning ?f (fx_c_buf_p f) [] (fx_start f) S" by (simp add: scanning_def resumes_start [unfolded One_nat_def] live_def) (simp add: holds_def)
  from match_scans [OF this assms(2,3)] show ?thesis by simp
qed

lemma yylex_loop_lexes:
  assumes "env_ok en"
  shows "ready f S \<Longrightarrow> length S + 2 < 2 ^ 30 \<Longrightarrow> lexes S st (fx_lineno f) (yylex_loop en f st)"
proof (induction "length S" arbitrary: f S rule: less_induct)
  case less
  let ?r = "yy_goto en (Yy_Match (fx_c_buf_p f) (fx_start f) (fx_c_buf_p f)) (f\<lparr>fx_ch_buf := (fx_ch_buf f)[fx_c_buf_p f := fx_hold f]\<rparr>)"
  have label: "scans S (fx_lineno f) ?r" by (rule ready_label [OF less.prems(1) assms less.prems(2)])
  show ?case
  proof (cases "S = []")
    case True
    then obtain g where "?r = Some (Inr (YY_STATE_EOF, g))" "ready g []" "fx_status g = YY_BUFFER_NEW" "fx_lineno g = fx_lineno f"
      using label by (auto simp: scans_def)
    then show ?thesis using True
      by (subst yylex_loop.simps) (simp add: lexes_def Let_def yylex.simps [of "[]"] longest_nil)
  next
    case False
    then obtain act n g where g: "?r = Some (Inr (act, g))" "token_of S act n" "ready g (drop n S)" "yytext g = take n S"
      "fx_lineno g = fx_lineno f + (if yy_rule_can_match_eol ! act \<noteq> 0 then newlines (take n S) else 0)"
      using label by (auto simp: scans_def)
    have n: "0 < n" "n \<le> length S" "0 < act" "act \<le> 19" using g(2) by (simp_all add: token_of_def)
    have lines: "fx_lineno g + newlines (drop n S) = fx_lineno f + newlines S"
      using newlines_split [of S n] newline_rules [OF g(2)] g(5) by simp
    have step: "yylex_loop en f st = (case scanner_action act (take n S) of None \<Rightarrow> yylex_loop en g st
        | Some (type, v, token) \<Rightarrow> Some (Inr (token, g, handle_token type v st)))"
      using g(1,4) n(4) by (subst yylex_loop.simps) (simp add: Let_def YY_STATE_EOF_def YY_END_OF_BUFFER_def)
    have spec: "yylex S st = (case scanner_action act (take n S) of None \<Rightarrow> yylex (drop n S) st
        | Some (type, v, token) \<Rightarrow> (token, drop n S, handle_token type v st))"
      by (simp add: yylex.simps [of S] token_rule [OF g(2)] scanner_action_rule [OF n(3,4)])
    show ?thesis
    proof (cases "scanner_action act (take n S)")
      case None
      have "lexes (drop n S) st (fx_lineno g) (yylex_loop en g st)"
        using n less.prems(2) by (intro less.hyps g(3)) simp_all
      then show ?thesis using None step spec lines by (auto simp: lexes_def)
    next
      case (Some a)
      obtain type v token where a: "a = (type, v, token)" by (cases a)
      have "token \<noteq> 0" using Some scanner_action_rule [OF n(3,4)] rule_action_token unfolding a by metis
      then show ?thesis using Some step spec lines g(3) by (simp add: lexes_def a)
    qed
  qed
qed

text \<open>Before the first call nothing is allocated.\<close>

definition opened :: "flex \<Rightarrow> string \<Rightarrow> bool" where
  "opened f S \<longleftrightarrow> ready f S \<or> \<not> fx_init f \<and> \<not> fx_exists f \<and> fx_start f = 0 \<and> fx_in f = S"

lemma yylex_init_ready:
  assumes "opened f S" and "env_ok en"
  shows "\<exists>g. yylex_init en f = Inr g \<and> ready g S \<and> fx_lineno g = fx_lineno f"
proof (cases "fx_init f")
  case True
  then show ?thesis using assms(1) by (auto simp: opened_def yylex_init_def)
next
  case False
  then have f: "\<not> fx_exists f" "fx_start f = 0" "fx_in f = S" using assms(1) by (auto simp: opened_def ready_def holds_def)
  define b where "b = map (en_junk en) [0..<YY_BUF_SIZE + 2]"
  have "length b = YY_BUF_SIZE + 2" "0 < YY_BUF_SIZE" by (simp_all add: b_def YY_BUF_SIZE_def)
  then show ?thesis using f False assms(2)
    by (simp add: yylex_init_def yy_create_buffer_def yy_init_buffer_def yy_flush_buffer_def yy_load_buffer_state_def
        ready_def holds_def env_ok_def Let_def flip: b_def)
qed

lemma flex_yylex_lexes:
  assumes "opened f S" and "env_ok en" and "length S + 2 < 2 ^ 30"
  shows "lexes S st (fx_lineno f) (flex_yylex en f st)"
proof -
  obtain g where "yylex_init en f = Inr g" "ready g S" "fx_lineno g = fx_lineno f"
    using yylex_init_ready [OF assms(1,2)] by blast
  then show ?thesis using yylex_loop_lexes [OF assms(2), of g S st] assms(3) by (simp add: flex_yylex_def)
qed

text \<open>At the end of a file the buffer is ready for whatever \<open>yyin\<close> is set to next.\<close>

lemma ready_for_next: "ready f [] \<Longrightarrow> fx_status f = YY_BUFFER_NEW \<Longrightarrow> ready (f\<lparr>fx_in := s\<rparr>) s"
  by (auto simp: ready_def holds_def)

lemma flex_run_loop_reads:
  assumes "env_ok en"
  shows "opened f S \<Longrightarrow> length S + 2 < 2 ^ 30 \<Longrightarrow>
     \<exists>g. flex_run_loop en f st = Some (Inr (g, run_loop S st)) \<and> (\<forall>s. opened (g\<lparr>fx_in := s\<rparr>) s) \<and>
         fx_lineno g = fx_lineno f + newlines S"
proof (induction S st arbitrary: f rule: run_loop.induct)
  case (1 S st)
  obtain token rest st' g where call: "yylex S st = (token, rest, st')" "flex_yylex en f st = Some (Inr (token, g, st'))"
    "ready g rest" "fx_lineno g + newlines rest = fx_lineno f + newlines S"
    "token = 0 \<longrightarrow> rest = [] \<and> fx_status g = YY_BUFFER_NEW"
    using flex_yylex_lexes [OF 1(2) assms 1(3), of st] by (auto simp: lexes_def)
  show ?case
  proof (cases "token = 0")
    case True
    then show ?thesis using call ready_for_next [of g]
      by (subst flex_run_loop.simps) (simp add: run_loop.simps [of S] opened_def newlines_def)
  next
    case False
    have "length rest < length S" by (rule yylex_shorter [OF call(1) False])
    moreover have "opened g rest" using call(3) by (simp add: opened_def)
    ultimately obtain h where "flex_run_loop en g st' = Some (Inr (h, run_loop rest st'))" "\<forall>s. opened (h\<lparr>fx_in := s\<rparr>) s"
      "fx_lineno h = fx_lineno g + newlines rest"
      using "1.IH" [OF call(1) [symmetric] refl False, of g] 1(3) by auto
    then show ?thesis using call False by (subst flex_run_loop.simps) (simp add: run_loop.simps [of S])
  qed
qed

section \<open>The console over the compiled lexer\<close>

text \<open>\<open>console_run\<close>: \<open>yyin\<close> is the file \<open>console_setup\<close> opened.\<close>

definition flex_console_run ::
    "yy_env \<Rightarrow> flex \<Rightarrow> console_state \<times> configs \<Rightarrow> (int \<times> flex \<times> console_state \<times> configs) res option" where
  "flex_console_run en f = (\<lambda>(st, mem).
     (case cs_input st of
        None \<Rightarrow> Some (Inr (EOF, f, st, mem))
      | Some s \<Rightarrow>
         if cs_cfg st = None then Some (Inr (EOF, f, st, mem))
         else (case flex_run_loop en (f\<lparr>fx_in := s\<rparr>) (st, mem) of
                 None \<Rightarrow> None
               | Some (Inl e) \<Rightarrow> Some (Inl e)
               | Some (Inr (g, st', mem')) \<Rightarrow> Some (Inr (0, g, st'\<lparr>cs_input := Some []\<rparr>, mem')))))"

text \<open>Runs of the console one after the other, as the daemon starts and reloads: each with the state its
  \<open>console_setup\<close> left, all on the same scanner variables and configurations.\<close>

fun flex_runs :: "yy_env \<Rightarrow> flex \<Rightarrow> console_state list \<Rightarrow> configs \<Rightarrow> (flex \<times> configs) res option" where
  "flex_runs en f [] mem = Some (Inr (f, mem))"
| "flex_runs en f (c # cs) mem =
     (case flex_console_run en f (c, mem) of
        None \<Rightarrow> None
      | Some (Inl e) \<Rightarrow> Some (Inl e)
      | Some (Inr (code, g, st, mem')) \<Rightarrow> flex_runs en g cs mem')"

definition lines_read :: "console_state \<Rightarrow> nat" where
  "lines_read c = (if cs_cfg c = None then 0 else case cs_input c of None \<Rightarrow> 0 | Some s \<Rightarrow> newlines s)"

lemma flex_runs_from:
  assumes "env_ok en" and "\<forall>c \<in> set cs. \<forall>s. cs_input c = Some s \<longrightarrow> length s + 2 < 2 ^ 30"
    and "\<forall>s. opened (f\<lparr>fx_in := s\<rparr>) s"
  shows "\<exists>g. flex_runs en f cs mem = Some (Inr (g, fold (\<lambda>c m. snd (snd (console_run (c, m)))) cs mem)) \<and>
     fx_lineno g = fx_lineno f + sum_list (map lines_read cs)"
  using assms(2,3)
proof (induction cs arbitrary: f mem)
  case (Cons c cs)
  show ?case
  proof (cases "cs_cfg c \<noteq> None \<and> (\<exists>s. cs_input c = Some s)")
    case False
    then have "flex_console_run en f (c, mem) = Some (Inr (EOF, f, c, mem))" "console_run (c, mem) = (EOF, c, mem)" "lines_read c = 0"
      by (auto simp: flex_console_run_def console_run_def lines_read_def split: option.split)
    then show ?thesis using Cons.IH [of f mem] Cons.prems by simp
  next
    case True
    then obtain s where s: "cs_input c = Some s" "cs_cfg c \<noteq> None" by blast
    have "opened (f\<lparr>fx_in := s\<rparr>) s" "length s + 2 < 2 ^ 30" using Cons.prems s by auto
    from flex_run_loop_reads [OF assms(1) this, of "(c, mem)"]
    obtain g where g: "flex_run_loop en (f\<lparr>fx_in := s\<rparr>) (c, mem) = Some (Inr (g, run_loop s (c, mem)))"
      "\<forall>s. opened (g\<lparr>fx_in := s\<rparr>) s" "fx_lineno g = fx_lineno f + newlines s" by auto
    obtain st' mem' where r: "run_loop s (c, mem) = (st', mem')" by fastforce
    have "flex_console_run en f (c, mem) = Some (Inr (0, g, st'\<lparr>cs_input := Some []\<rparr>, mem'))"
      "console_run (c, mem) = (0, st'\<lparr>cs_input := Some []\<rparr>, mem')" "lines_read c = newlines s"
      using s g(1) r by (simp_all (no_asm_simp) only: flex_console_run_def console_run_def lines_read_def prod.case option.case if_False sum.case split_beta fst_conv snd_conv)
    then show ?thesis using Cons.IH [OF _ g(2), of mem'] Cons.prems(1) g(3) by auto
  qed
qed simp

text \<open>C3: The compiled lexer reads every file of every reload as the lexer rules say. However \<open>fread\<close> cuts a
  file into pieces, zero bytes in it included, and however often tokens lie across pieces or outgrow the
  buffer, the runs of the console end without a fault and leave the configurations that running the rules
  over the whole texts leaves; and \<open>yylineno\<close> has counted every line end. The C library delivers at least
  a character while there are any, memory is not refused, and a file is shorter than 2 to the 30.\<close>

theorem compiled_lexer_reads_every_file:
  assumes "env_ok en" and "\<forall>c \<in> set cs. \<forall>s. cs_input c = Some s \<longrightarrow> length s + 2 < 2 ^ 30"
  shows "\<exists>g. flex_runs en (fresh_flex []) cs mem = Some (Inr (g, fold (\<lambda>c m. snd (snd (console_run (c, m)))) cs mem)) \<and>
     fx_lineno g = 1 + sum_list (map lines_read cs)"
proof -
  have "\<forall>s. opened ((fresh_flex [])\<lparr>fx_in := s\<rparr>) s" by (simp add: opened_def fresh_flex_def)
  from flex_runs_from [OF assms this] show ?thesis by (simp add: fresh_flex_def)
qed

text \<open>Two loads of a file read three characters at a time.\<close>

definition three_at_a_time :: yy_env where
  "three_at_a_time = \<lparr>en_read = \<lambda>m s. min (min m 3) (length s), en_junk = \<lambda>_. CHR ''x'', en_alloc = \<lambda>_. True\<rparr>"

definition two_loads :: "console_state list" where
  "two_loads = [zero_console\<lparr>cs_cfg := Some 0, cs_input := Some (''MAX_PORTS 5;'' @ [CHR 0x0A])\<rparr>,
     zero_console\<lparr>cs_cfg := Some 0, cs_input := Some (''SLEEP_TIME 12;'' @ [CHR 0x0A])\<rparr>]"

theorem compiled_lexer_reads_every_file_witness:
  "env_ok three_at_a_time \<and>
   (\<exists>g mem. flex_runs three_at_a_time (fresh_flex []) two_loads (\<lambda>_. blank_config) = Some (Inr (g, mem)) \<and>
      fx_lineno g = 3 \<and> cfg_max_ports (mem 0) = 5 \<and> cfg_sleep_time (mem 0) = 12)"
proof -
  let ?loaded = "fold (\<lambda>c m. snd (snd (console_run (c, m)))) two_loads (\<lambda>_. blank_config)"
  have ok: "env_ok three_at_a_time" by (auto simp: env_ok_def three_at_a_time_def)
  have short: "\<forall>c \<in> set two_loads. \<forall>s. cs_input c = Some s \<longrightarrow> length s + 2 < 2 ^ 30" by (simp add: two_loads_def zero_console_def)
  have lines: "1 + sum_list (map lines_read two_loads) = 3" by (simp add: two_loads_def lines_read_def newlines_def zero_console_def)
  have "cfg_max_ports (?loaded 0) = 5" "cfg_sleep_time (?loaded 0) = 12" by code_simp+
  with compiled_lexer_reads_every_file [OF ok short, of "\<lambda>_. blank_config", unfolded lines] ok show ?thesis by blast
qed

end
