(* ===== verification/Orbit_Buffers.thy ===== *)
theory Orbit_Buffers
  imports Orbit_Stream
begin

text \<open>
  The part of \<^verbatim>\<open>src/parser/scanner.c\<close> flex adds for programs with several inputs, and which this one
  links but never calls: the stack of buffers, scanning text in memory, the accessors, and giving
  everything back. Here a buffer lies at an address, the stack holds addresses, and a \<open>FILE *\<close> is a number;
  \<open>flex_of\<close> is the single buffer of \<open>Orbit_Flex\<close> that is on top. Freeing a buffer frees its address; the
  block of its text, which goes with it when the scanner owns it, is not tracked apart.
\<close>

section \<open>State\<close>

record yy_buffer =
  yb_input_file :: "nat option"
  yb_ch_buf :: string
  yb_buf_pos :: nat
  yb_buf_size :: nat
  yb_n_chars :: nat
  yb_is_our_buffer :: bool
  yb_is_interactive :: bool
  yb_at_bol :: bool
  yb_fill_buffer :: bool
  yb_status :: buffer_status

record scanner =
  sc_heap :: "nat \<Rightarrow> yy_buffer option"
  sc_stack :: "nat option list option"
  sc_top :: nat
  sc_n_chars :: nat
  sc_c_buf_p :: nat
  sc_text :: nat
  sc_leng :: nat
  sc_hold :: char
  sc_last :: "nat \<times> nat"
  sc_in :: "nat option"
  sc_out :: "nat option"
  sc_switched :: bool
  sc_init :: bool
  sc_start :: nat
  sc_lineno :: int
  sc_debug :: int

definition YY_CURRENT_BUFFER :: "scanner \<Rightarrow> nat option" where
  "YY_CURRENT_BUFFER s = Option.bind (sc_stack s) (\<lambda>xs. if sc_top s < length xs then xs ! sc_top s else None)"

text \<open>An assignment to \<open>YY_CURRENT_BUFFER_LVALUE\<close>.\<close>

definition set_current :: "nat option \<Rightarrow> scanner \<Rightarrow> scanner" where
  "set_current b s = s\<lparr>sc_stack := map_option (\<lambda>xs. xs[sc_top s := b]) (sc_stack s)\<rparr>"

section \<open>The stack\<close>

text \<open>The stack is allocated with one element and grows by eight.\<close>

definition yyensure_buffer_stack :: "bool \<Rightarrow> scanner \<Rightarrow> scanner res" where
  "yyensure_buffer_stack ok s =
     (case sc_stack s of
        None \<Rightarrow> if ok then Inr (s\<lparr>sc_stack := Some [None], sc_top := 0\<rparr>) else Inl Exits
      | Some xs \<Rightarrow>
         if length xs - 1 \<le> sc_top s then
           if ok then Inr (s\<lparr>sc_stack := Some (xs @ replicate 8 None)\<rparr>) else Inl Exits
         else Inr s)"

definition load_buffer_state :: "scanner \<Rightarrow> scanner res" where
  "load_buffer_state s =
     (case Option.bind (YY_CURRENT_BUFFER s) (sc_heap s) of
        None \<Rightarrow> Inl Null_Deref
      | Some b \<Rightarrow> Inr (s\<lparr>sc_n_chars := yb_n_chars b, sc_text := yb_buf_pos b, sc_c_buf_p := yb_buf_pos b,
                        sc_in := yb_input_file b, sc_hold := yb_ch_buf b ! yb_buf_pos b\<rparr>))"

text \<open>What \<open>yy_switch_to_buffer\<close> and \<open>yypush_buffer_state\<close> do with the buffer they leave.\<close>

definition flush_old_buffer :: "scanner \<Rightarrow> scanner" where
  "flush_old_buffer s =
     (case YY_CURRENT_BUFFER s of
        None \<Rightarrow> s
      | Some a \<Rightarrow> s\<lparr>sc_heap := (sc_heap s)(a := map_option (\<lambda>b. b\<lparr>yb_ch_buf := (yb_ch_buf b)[sc_c_buf_p s := sc_hold s],
                      yb_buf_pos := sc_c_buf_p s, yb_n_chars := sc_n_chars s\<rparr>) (sc_heap s a))\<rparr>)"

definition yy_switch_to_buffer :: "bool \<Rightarrow> nat option \<Rightarrow> scanner \<Rightarrow> scanner res" where
  "yy_switch_to_buffer ok new_buffer s =
     and_then (yyensure_buffer_stack ok s) (\<lambda>s1.
       if YY_CURRENT_BUFFER s1 = new_buffer then Inr s1
       else and_then (load_buffer_state (set_current new_buffer (flush_old_buffer s1))) (\<lambda>s2. Inr (s2\<lparr>sc_switched := True\<rparr>)))"

definition yypush_buffer_state :: "bool \<Rightarrow> nat option \<Rightarrow> scanner \<Rightarrow> scanner res" where
  "yypush_buffer_state ok new_buffer s =
     (if new_buffer = None then Inr s
      else and_then (yyensure_buffer_stack ok s) (\<lambda>s1.
        let s2 = flush_old_buffer s1;
            s3 = (if YY_CURRENT_BUFFER s2 \<noteq> None then s2\<lparr>sc_top := sc_top s2 + 1\<rparr> else s2)
        in and_then (load_buffer_state (set_current new_buffer s3)) (\<lambda>s4. Inr (s4\<lparr>sc_switched := True\<rparr>))))"

definition yy_delete_buffer :: "nat option \<Rightarrow> scanner \<Rightarrow> scanner" where
  "yy_delete_buffer b s =
     (case b of
        None \<Rightarrow> s
      | Some a \<Rightarrow>
         (let s1 = (if YY_CURRENT_BUFFER s = Some a then set_current None s else s)
          in s1\<lparr>sc_heap := (sc_heap s1)(a := None)\<rparr>))"

definition yypop_buffer_state :: "scanner \<Rightarrow> scanner res" where
  "yypop_buffer_state s =
     (if YY_CURRENT_BUFFER s = None then Inr s
      else
        (let s1 = set_current None (yy_delete_buffer (YY_CURRENT_BUFFER s) s);
             s2 = (if 0 < sc_top s1 then s1\<lparr>sc_top := sc_top s1 - 1\<rparr> else s1)
         in if YY_CURRENT_BUFFER s2 \<noteq> None then and_then (load_buffer_state s2) (\<lambda>s3. Inr (s3\<lparr>sc_switched := True\<rparr>))
            else Inr s2))"

section \<open>Text in memory\<close>

text \<open>\<open>a\<close> is the address the allocation of a buffer returns, if any.\<close>

definition yy_scan_buffer :: "bool \<Rightarrow> nat option \<Rightarrow> string \<Rightarrow> scanner \<Rightarrow> (nat option \<times> scanner) res" where
  "yy_scan_buffer ok a base s =
     (if length base < 2 \<or> base ! (length base - 2) \<noteq> NUL \<or> base ! (length base - 1) \<noteq> NUL then Inr (None, s)
      else if a = None then Inl Exits
      else
        (let b = \<lparr>yb_input_file = None, yb_ch_buf = base, yb_buf_pos = 0, yb_buf_size = length base - 2,
                  yb_n_chars = length base - 2, yb_is_our_buffer = False, yb_is_interactive = False,
                  yb_at_bol = True, yb_fill_buffer = False, yb_status = YY_BUFFER_NEW\<rparr>
         in and_then (yy_switch_to_buffer ok a (s\<lparr>sc_heap := (sc_heap s)(the a := Some b)\<rparr>)) (\<lambda>s1. Inr (a, s1))))"

definition yy_scan_bytes :: "bool \<Rightarrow> bool \<Rightarrow> nat option \<Rightarrow> string \<Rightarrow> scanner \<Rightarrow> (nat option \<times> scanner) res" where
  "yy_scan_bytes room ok a bytes s =
     (if \<not> room then Inl Exits
      else and_then (yy_scan_buffer ok a (bytes @ [NUL, NUL]) s) (\<lambda>(b, s1).
        case b of
          None \<Rightarrow> Inl Exits
        | Some p \<Rightarrow> Inr (b, s1\<lparr>sc_heap := (sc_heap s1)(p := map_option (yb_is_our_buffer_update (\<lambda>_. True)) (sc_heap s1 p))\<rparr>)))"

definition yy_scan_string :: "bool \<Rightarrow> bool \<Rightarrow> nat option \<Rightarrow> string \<Rightarrow> scanner \<Rightarrow> (nat option \<times> scanner) res" where
  "yy_scan_string room ok a str s = yy_scan_bytes room ok a (cstring str) s"

section \<open>Accessors and the end\<close>

definition yyget_lineno :: "scanner \<Rightarrow> int" where "yyget_lineno s = sc_lineno s"
definition yyget_in :: "scanner \<Rightarrow> nat option" where "yyget_in s = sc_in s"
definition yyget_out :: "scanner \<Rightarrow> nat option" where "yyget_out s = sc_out s"
definition yyget_leng :: "scanner \<Rightarrow> nat" where "yyget_leng s = sc_leng s"

text \<open>The token, in the current buffer.\<close>

definition yyget_text :: "scanner \<Rightarrow> string option" where
  "yyget_text s = map_option (\<lambda>b. take (sc_leng s) (drop (sc_text s) (yb_ch_buf b))) (Option.bind (YY_CURRENT_BUFFER s) (sc_heap s))"

definition yyset_lineno :: "int \<Rightarrow> scanner \<Rightarrow> scanner" where "yyset_lineno n s = s\<lparr>sc_lineno := n\<rparr>"
definition yyset_in :: "nat option \<Rightarrow> scanner \<Rightarrow> scanner" where "yyset_in i s = s\<lparr>sc_in := i\<rparr>"
definition yyset_out :: "nat option \<Rightarrow> scanner \<Rightarrow> scanner" where "yyset_out i s = s\<lparr>sc_out := i\<rparr>"
definition yyget_debug :: "scanner \<Rightarrow> int" where "yyget_debug s = sc_debug s"
definition yyset_debug :: "int \<Rightarrow> scanner \<Rightarrow> scanner" where "yyset_debug n s = s\<lparr>sc_debug := n\<rparr>"

definition yy_init_globals :: "scanner \<Rightarrow> scanner" where
  "yy_init_globals s =
     s\<lparr>sc_lineno := 1, sc_stack := None, sc_top := 0, sc_c_buf_p := 0, sc_init := False, sc_start := 0,
       sc_in := None, sc_out := None\<rparr>"

text \<open>The loop of \<open>yylex_destroy\<close>.\<close>

partial_function (option) destroy_buffers :: "scanner \<Rightarrow> scanner res option" where
  "destroy_buffers s =
     (if YY_CURRENT_BUFFER s = None then Some (Inr s)
      else case yypop_buffer_state (set_current None (yy_delete_buffer (YY_CURRENT_BUFFER s) s)) of
             Inl e \<Rightarrow> Some (Inl e)
           | Inr s1 \<Rightarrow> destroy_buffers s1)"

definition yylex_destroy :: "scanner \<Rightarrow> (int \<times> scanner) res option" where
  "yylex_destroy s =
     (case destroy_buffers s of
        None \<Rightarrow> None
      | Some (Inl e) \<Rightarrow> Some (Inl e)
      | Some (Inr s1) \<Rightarrow> Some (Inr (0, yy_init_globals (s1\<lparr>sc_stack := None\<rparr>))))"

section \<open>Pushing and popping\<close>

text \<open>The single buffer of \<open>Orbit_Flex\<close>: the one on top, and the rest of its file.\<close>

definition flex_of :: "(nat \<Rightarrow> string) \<Rightarrow> scanner \<Rightarrow> flex" where
  "flex_of files s =
     (case Option.bind (YY_CURRENT_BUFFER s) (sc_heap s) of
        None \<Rightarrow> (fresh_flex [])\<lparr>fx_init := sc_init s, fx_start := sc_start s\<rparr>
      | Some b \<Rightarrow> \<lparr>fx_exists = True, fx_ch_buf = yb_ch_buf b, fx_buf_pos = yb_buf_pos b, fx_buf_size = yb_buf_size b,
          fx_buf_n_chars = yb_n_chars b, fx_is_our_buffer = yb_is_our_buffer b, fx_fill_buffer = yb_fill_buffer b,
          fx_status = yb_status b, fx_n_chars = sc_n_chars s, fx_c_buf_p = sc_c_buf_p s, fx_text = sc_text s,
          fx_leng = sc_leng s, fx_hold = sc_hold s, fx_last = sc_last s, fx_start = sc_start s, fx_init = sc_init s,
          fx_lineno = nat (sc_lineno s), fx_in = (case yb_input_file b of None \<Rightarrow> [] | Some i \<Rightarrow> files i)\<rparr>)"

text \<open>A buffer is current, in the stack and allocated.\<close>

definition has_current :: "nat \<Rightarrow> yy_buffer \<Rightarrow> scanner \<Rightarrow> bool" where
  "has_current a b s \<longleftrightarrow> sc_heap s a = Some b \<and> (\<exists>xs. sc_stack s = Some xs \<and> sc_top s < length xs \<and> xs ! sc_top s = Some a)"

lemma has_currentD: "has_current a b s \<Longrightarrow> YY_CURRENT_BUFFER s = Some a \<and> sc_heap s a = Some b"
  by (auto simp: has_current_def YY_CURRENT_BUFFER_def)

text \<open>There is room above the current buffer once the stack was ensured.\<close>

lemma ensure_keeps:
  assumes "has_current a b s"
  shows "\<exists>xs. yyensure_buffer_stack True s = Inr (s\<lparr>sc_stack := Some xs\<rparr>) \<and> sc_top s + 1 < length xs \<and>
     (\<forall>i \<le> sc_top s. xs ! i = the (sc_stack s) ! i)"
proof -
  obtain xs where "sc_stack s = Some xs" "sc_top s < length xs" using assms by (auto simp: has_current_def)
  moreover from this have "s = s\<lparr>sc_stack := Some xs\<rparr>" by simp
  ultimately show ?thesis
    by (intro exI [of _ "if length xs - 1 \<le> sc_top s then xs @ replicate 8 None else xs"])
      (auto simp: yyensure_buffer_stack_def nth_append)
qed

text \<open>A push leaves the buffer it covers with its last character put back, and makes the new one current.\<close>

lemma push_covers:
  assumes "has_current a buf s" and "sc_heap s b = Some new" and "b \<noteq> a"
  defines "saved \<equiv> buf\<lparr>yb_ch_buf := (yb_ch_buf buf)[sc_c_buf_p s := sc_hold s], yb_buf_pos := sc_c_buf_p s, yb_n_chars := sc_n_chars s\<rparr>"
  shows "\<exists>s1 xs. yypush_buffer_state True (Some b) s = Inr s1 \<and> has_current b new s1 \<and> sc_heap s1 = (sc_heap s)(a := Some saved) \<and>
     sc_stack s1 = Some xs \<and> sc_top s1 = sc_top s + 1 \<and> sc_top s1 < length xs \<and> (\<forall>i \<le> sc_top s. xs ! i = the (sc_stack s) ! i) \<and>
     sc_last s1 = sc_last s \<and> sc_start s1 = sc_start s \<and> sc_init s1 = sc_init s \<and> sc_lineno s1 = sc_lineno s"
proof -
  obtain xs where xs: "yyensure_buffer_stack True s = Inr (s\<lparr>sc_stack := Some xs\<rparr>)" "sc_top s + 1 < length xs"
    "\<forall>i \<le> sc_top s. xs ! i = the (sc_stack s) ! i" using ensure_keeps [OF assms(1)] by blast
  have a: "xs ! sc_top s = Some a" "sc_heap s a = Some buf" using assms(1) xs(3) by (auto simp: has_current_def)
  show ?thesis
    using xs a assms(2,3)
    by (simp add: yypush_buffer_state_def flush_old_buffer_def YY_CURRENT_BUFFER_def load_buffer_state_def set_current_def
        has_current_def saved_def Let_def)
qed

text \<open>A pop returns to the buffer below and frees the one on top.\<close>

lemma pop_uncovers:
  assumes "has_current b new s" and "sc_stack s = Some xs" and "0 < sc_top s" and "xs ! (sc_top s - 1) = Some a"
    and "sc_heap s a = Some buf" and "a \<noteq> b"
  shows "\<exists>s1. yypop_buffer_state s = Inr s1 \<and> has_current a buf s1 \<and> sc_heap s1 = (sc_heap s)(b := None) \<and> sc_top s1 = sc_top s - 1 \<and>
     sc_n_chars s1 = yb_n_chars buf \<and> sc_c_buf_p s1 = yb_buf_pos buf \<and> sc_hold s1 = yb_ch_buf buf ! yb_buf_pos buf \<and>
     sc_last s1 = sc_last s \<and> sc_start s1 = sc_start s \<and> sc_init s1 = sc_init s \<and> sc_lineno s1 = sc_lineno s"
  using assms
  by (auto simp: yypop_buffer_state_def yy_delete_buffer_def YY_CURRENT_BUFFER_def load_buffer_state_def set_current_def
      has_current_def Let_def)

text \<open>Pushing a buffer between two tokens and popping it returns to the interrupted text, at the same place.\<close>

lemma push_pop_resumes:
  assumes "has_current a buf s" and "sc_heap s b = Some new" and "b \<noteq> a" and "ready (flex_of files s) S"
  shows "\<exists>s1 s2. yypush_buffer_state True (Some b) s = Inr s1 \<and> YY_CURRENT_BUFFER s1 = Some b \<and>
     yypop_buffer_state s1 = Inr s2 \<and> YY_CURRENT_BUFFER s2 = Some a \<and> sc_heap s2 b = None \<and> ready (flex_of files s2) S"
proof -
  let ?saved = "buf\<lparr>yb_ch_buf := (yb_ch_buf buf)[sc_c_buf_p s := sc_hold s], yb_buf_pos := sc_c_buf_p s, yb_n_chars := sc_n_chars s\<rparr>"
  obtain s1 xs where push: "yypush_buffer_state True (Some b) s = Inr s1" "has_current b new s1"
    "sc_heap s1 = (sc_heap s)(a := Some ?saved)" "sc_stack s1 = Some xs" "sc_top s1 = sc_top s + 1"
    "\<forall>i \<le> sc_top s. xs ! i = the (sc_stack s) ! i" "sc_start s1 = sc_start s" "sc_init s1 = sc_init s"
    using push_covers [OF assms(1-3)] by blast
  have "xs ! (sc_top s1 - 1) = Some a" using push(5,6) assms(1) by (auto simp: has_current_def)
  moreover have "sc_heap s1 a = Some ?saved" "0 < sc_top s1" "a \<noteq> b" using push(3,5) assms(3) by auto
  ultimately obtain s2 where pop: "yypop_buffer_state s1 = Inr s2" "has_current a ?saved s2" "sc_heap s2 = (sc_heap s1)(b := None)"
    "sc_n_chars s2 = sc_n_chars s" "sc_c_buf_p s2 = sc_c_buf_p s"
    "sc_hold s2 = (yb_ch_buf buf)[sc_c_buf_p s := sc_hold s] ! sc_c_buf_p s" "sc_start s2 = sc_start s1" "sc_init s2 = sc_init s1"
    using pop_uncovers [OF push(2,4), of a ?saved] by auto
  have "ready (flex_of files s2) S"
    using assms(4) has_currentD [OF assms(1)] has_currentD [OF pop(2)] pop(4-8) push(7,8)
    by (simp add: flex_of_def ready_def holds_def)
  then show ?thesis using push(1,2) pop has_currentD by (intro exI [of _ s1] exI [of _ s2]) auto
qed

section \<open>Giving back\<close>

text \<open>\<open>yylex_destroy\<close> always returns, with the variables as before the first call; but it frees the top
  buffer only: \<open>yypop_buffer_state\<close> does nothing once the top is cleared, and the loop ends there. What lies
  below is lost.\<close>

lemma destroy_frees_top:
  assumes "has_current a buf s"
  shows "\<exists>s'. yylex_destroy s = Some (Inr (0, s')) \<and> sc_heap s' = (sc_heap s)(a := None) \<and> sc_stack s' = None \<and>
     \<not> sc_init s' \<and> sc_start s' = 0 \<and> sc_lineno s' = 1"
proof -
  let ?s = "set_current None (yy_delete_buffer (Some a) s)"
  have cur: "YY_CURRENT_BUFFER s = Some a" using has_currentD [OF assms] by blast
  have none: "YY_CURRENT_BUFFER ?s = None"
    using assms by (auto simp: has_current_def YY_CURRENT_BUFFER_def set_current_def yy_delete_buffer_def Let_def)
  then have "yypop_buffer_state ?s = Inr ?s" by (simp add: yypop_buffer_state_def)
  then have "destroy_buffers s = Some (Inr ?s)"
    using cur none by (simp add: destroy_buffers.simps [of s] destroy_buffers.simps [of ?s])
  moreover have "sc_heap ?s = (sc_heap s)(a := None)" by (simp add: set_current_def yy_delete_buffer_def cur Let_def)
  ultimately show ?thesis by (simp add: yylex_destroy_def yy_init_globals_def)
qed

lemma destroy_leaks:
  assumes "has_current a buf s" and "sc_heap s b = Some below" and "b \<noteq> a"
  shows "\<exists>s'. yylex_destroy s = Some (Inr (0, s')) \<and> sc_heap s' b = Some below"
  using destroy_frees_top [OF assms(1)] assms(2,3) by auto

section \<open>Scanning text\<close>

text \<open>After \<open>yy_scan_bytes\<close> the current buffer is a new one, owned, never filled from a file, and holds the
  bytes up to its two end characters.\<close>

lemma scan_bytes_current:
  assumes "sc_heap s a = None" and "case sc_stack s of None \<Rightarrow> True | Some xs \<Rightarrow> sc_top s < length xs \<and> Some a \<notin> set xs"
  shows "\<exists>s1 b. yy_scan_bytes True True (Some a) bytes s = Inr (Some a, s1) \<and> has_current a b s1 \<and>
     yb_ch_buf b = bytes @ [NUL, NUL] \<and> yb_is_our_buffer b \<and> \<not> yb_fill_buffer b \<and>
     sc_n_chars s1 = length bytes \<and> sc_c_buf_p s1 = 0 \<and> sc_hold s1 = (bytes @ [NUL]) ! 0"
proof -
  have ends: "(bytes @ [NUL, NUL]) ! length bytes = NUL" "(bytes @ [NUL, NUL]) ! Suc (length bytes) = NUL"
    "(bytes @ [NUL, NUL]) ! 0 = (bytes @ [NUL]) ! 0" by (simp_all add: nth_append)
  show ?thesis
  proof (cases "sc_stack s")
    case None
    then show ?thesis using assms ends
      by (simp add: yy_scan_bytes_def yy_scan_buffer_def yy_switch_to_buffer_def yyensure_buffer_stack_def YY_CURRENT_BUFFER_def
          flush_old_buffer_def set_current_def load_buffer_state_def has_current_def Let_def)
  next
    case (Some xs)
    have other: "xs ! sc_top s \<noteq> Some a" "sc_top s < length xs" using assms(2) Some nth_mem by fastforce+
    define ys where "ys = (if length xs - 1 \<le> sc_top s then xs @ replicate 8 None else xs)"
    have ys: "ys ! sc_top s \<noteq> Some a" "sc_top s < length ys" using other by (simp_all add: ys_def nth_append)
    have "yyensure_buffer_stack True t = Inr (t\<lparr>sc_stack := Some ys\<rparr>)" if "sc_stack t = Some xs" "sc_top t = sc_top s" for t
      using that by (simp add: yyensure_buffer_stack_def ys_def)
    then show ?thesis using assms(1) Some ends ys
      by (cases "ys ! sc_top s") (simp_all add: yy_scan_bytes_def yy_scan_buffer_def yy_switch_to_buffer_def YY_CURRENT_BUFFER_def
          flush_old_buffer_def set_current_def load_buffer_state_def has_current_def Let_def)
  qed
qed

end
