(* ===== verification/Orbit_Plugin.thy ===== *)
theory Orbit_Plugin
  imports Orbit_Socket Orbit_Sched
begin

text \<open>
  The trunk plugin of \<^verbatim>\<open>src/plugin/dmmr_trunk_plugin.c\<close>: the callbacks of the socket layer that
  enter a connection into the session table, start its session, schedule it, and open the outgoing
  side. They are the place where the socket layer, the sessions and the scheduler meet, so their state
  is a \<open>world\<close> that holds all three. The session table is the one of the \<open>net\<close> (a protocol block may
  point into it), the ring that of the socket layer; \<open>wd_circle\<close> says whether the session module's
  pointer to the ring is set.
\<close>

section \<open>State\<close>

record world =
  wd_layer :: socket_layer
  wd_circle :: bool
  wd_snd_cb :: bool
  wd_sched :: scheduler
  wd_sm :: bool
  wd_cfg :: "cfg_server_server option"
  wd_plugin :: bool

abbreviation wd_net :: "world \<Rightarrow> net" where
  "wd_net w \<equiv> sk_net (wd_layer w)"

definition set_net :: "net \<Rightarrow> world \<Rightarrow> world" where
  "set_net st w = w\<lparr>wd_layer := (wd_layer w)\<lparr>sk_net := st\<rparr>\<rparr>"

text \<open>The state the session module works on, and putting it back.\<close>

definition session_state :: "world \<Rightarrow> session_module" where
  "session_state w =
     \<lparr>sm_recno = nt_tab (wd_net w), sm_circle = (if wd_circle w then sk_circle (wd_layer w) else None),
      sm_snd_cb = wd_snd_cb w\<rparr>"

definition set_session_state :: "session_module \<Rightarrow> world \<Rightarrow> world" where
  "set_session_state sm w =
     (set_net ((wd_net w)\<lparr>nt_tab := sm_recno sm\<rparr>) w)\<lparr>wd_circle := sm_circle sm \<noteq> None, wd_snd_cb := sm_snd_cb sm\<rparr>"

text \<open>What the system answers while one callback runs: to the session's allocation and thread, to the
  growth of the scheduler's slots, and to the socket layer.\<close>

record trunk_answers =
  ta_alloc :: bool
  ta_spawn :: int
  ta_slots :: "(nat \<Rightarrow> scheduler_connection) option"
  ta_socket :: answers

section \<open>Entering a connection\<close>

text \<open>The text common to the six callbacks: the table entry of the node's port becomes a copy of the block,
  linked back to it, and gets the two ports. \<open>link\<close> says whether the block is linked to the entry too.\<close>

definition enter_session ::
    "bool \<Rightarrow> proto_t \<Rightarrow> proto_arr_t \<Rightarrow> cb_ptr \<Rightarrow> world \<Rightarrow> (session_id \<times> world) res" where
  "enter_session link proto arr input w =
     and_then (deref (read_cb (wd_net w)) (Some input)) (\<lambda>c.
     and_then (deref (hp_node (heap_of (wd_net w))) (cb_node c)) (\<lambda>n.
     and_then (get_recno_slot (nd_port n) arr) (\<lambda>s.
     (let entry = Session (fst s) (snd s);
          st1 = write_cb entry c (wd_net w);
          st2 = (if link then write_cb input (c\<lparr>cb_linked := Some entry\<rparr>) st1 else st1);
          st3 = write_cb entry (c\<lparr>cb_linked := Some input, cb_proto := proto\<rparr>) st2
      in and_then (link_session_ports (heap_of st3) (Some (nt_tab st3 s)) (Some (sp_session (nt_tab st3 s)))) (\<lambda>p.
           Inr (s, set_net (st3\<lparr>nt_tab := (nt_tab st3)(s := the p)\<rparr>) w))))))"

text \<open>\<open>insert_session\<close>, and on success \<open>insert_scheduler\<close>; the result is the last return value.\<close>

definition start_and_schedule :: "trunk_answers \<Rightarrow> session_id \<Rightarrow> world \<Rightarrow> (int \<times> world) res" where
  "start_and_schedule ta s w =
     (if \<not> wd_sm w then Inl Null_Deref
      else
        and_then (session_insert_session (ta_alloc ta) (ta_spawn ta) (Some s) (session_state w)) (\<lambda>(ret, sm).
          (let w1 = set_session_state sm w
           in if ret \<noteq> 0 then Inr (ret, w1)
              else and_then (manager_sched_insert (ta_slots ta) (Some s) (nt_tab (wd_net w1)) (wd_sched w1))
                     (\<lambda>(ret2, sd). Inr (ret2, w1\<lparr>wd_sched := sd\<rparr>)))))"

definition register_session ::
    "trunk_answers \<Rightarrow> proto_t \<Rightarrow> proto_arr_t \<Rightarrow> cb_ptr option \<Rightarrow> world \<Rightarrow> world res" where
  "register_session ta proto arr input w =
     (case input of
        None \<Rightarrow> Inr w
      | Some p \<Rightarrow>
         and_then (enter_session True proto arr p w) (\<lambda>(s, w1).
         and_then (start_and_schedule ta s w1) (\<lambda>(_, w2). Inr w2)))"

definition on_dispatch_connection_udp_cb :: "trunk_answers \<Rightarrow> cb_ptr option \<Rightarrow> world \<Rightarrow> world res" where
  "on_dispatch_connection_udp_cb ta input w = register_session ta proto_udp_t proto_arr_udp_t input w"

definition on_dispatch_connection_tcp_cb :: "trunk_answers \<Rightarrow> cb_ptr option \<Rightarrow> world \<Rightarrow> world res" where
  "on_dispatch_connection_tcp_cb ta input w = register_session ta proto_tcp_t proto_arr_tcp_t input w"

definition on_connect_connection_udp_cb :: "trunk_answers \<Rightarrow> cb_ptr option \<Rightarrow> world \<Rightarrow> world res" where
  "on_connect_connection_udp_cb ta input w = register_session ta proto_udp_t proto_arr_udp_t input w"

definition on_connect_connection_tcp_cb :: "trunk_answers \<Rightarrow> cb_ptr option \<Rightarrow> world \<Rightarrow> world res" where
  "on_connect_connection_tcp_cb ta input w = register_session ta proto_tcp_t proto_arr_tcp_t input w"

section \<open>The passive side\<close>

text \<open>The callbacks the plugin hands to the dispatcher and to the listener. The dispatcher gets its
  dispatch callbacks in the accept positions.\<close>

definition dispatch_callbacks :: callbacks where
  "dispatch_callbacks =
     \<lparr>ck_accept_udp = Some on_dispatch_udp, ck_accept_tcp = Some on_dispatch_tcp,
      ck_connect_udp = Some on_connect_udp, ck_connect_tcp = Some on_connect_tcp,
      ck_close_udp = Some on_close_udp, ck_close_tcp = Some on_close_tcp\<rparr>"

definition accept_callbacks :: callbacks where
  "accept_callbacks =
     \<lparr>ck_accept_udp = Some on_acception_udp, ck_accept_tcp = Some on_acception_tcp,
      ck_connect_udp = Some on_connect_udp, ck_connect_tcp = Some on_connect_tcp,
      ck_close_udp = Some on_close_udp, ck_close_tcp = Some on_close_tcp\<rparr>"

text \<open>The text common to the two accept callbacks. The result names the system calls and the callback that
  opening the outgoing side ends with.\<close>

definition accept_session ::
    "trunk_answers \<Rightarrow> proto_t \<Rightarrow> proto_arr_t \<Rightarrow> cb_ptr option \<Rightarrow> world \<Rightarrow> (world \<times> sys list \<times> call) res" where
  "accept_session ta proto arr input w =
     (case input of
        None \<Rightarrow> Inr (w, [], None)
      | Some p \<Rightarrow>
         and_then (enter_session False proto arr p w) (\<lambda>(s, w1).
         and_then (start_and_schedule ta s w1) (\<lambda>(ret, w2).
           (if ret \<noteq> 0 then Inr (w2, [], None)
            else case wd_cfg w2 of
                   None \<Rightarrow> Inl Null_Deref
                 | Some cfg \<Rightarrow>
                    and_then (create_dispatcher_from_uri (ta_socket ta) (Some (cstring (cfg_trunk_dispatch_uri cfg)))
                                dispatch_callbacks (wd_net w2))
                      (\<lambda>(_, st, calls, call). Inr (set_net st w2, calls, call))))))"

definition on_acception_connection_udp_cb ::
    "trunk_answers \<Rightarrow> cb_ptr option \<Rightarrow> world \<Rightarrow> (world \<times> sys list \<times> call) res" where
  "on_acception_connection_udp_cb ta input w = accept_session ta proto_udp_t proto_arr_udp_t input w"

definition on_acception_connection_tcp_cb ::
    "trunk_answers \<Rightarrow> cb_ptr option \<Rightarrow> world \<Rightarrow> (world \<times> sys list \<times> call) res" where
  "on_acception_connection_tcp_cb ta input w = accept_session ta proto_tcp_t proto_arr_tcp_t input w"

declare on_dispatch_connection_udp_cb_def [step_defs] on_dispatch_connection_tcp_cb_def [step_defs]
  on_connect_connection_udp_cb_def [step_defs] on_connect_connection_tcp_cb_def [step_defs]
  on_acception_connection_udp_cb_def [step_defs] on_acception_connection_tcp_cb_def [step_defs]

section \<open>Closing\<close>

definition close_session :: "cb_ptr option \<Rightarrow> world \<Rightarrow> world res" where
  "close_session input w =
     (case input of
        None \<Rightarrow> Inr w
      | Some p \<Rightarrow>
         and_then (deref (read_cb (wd_net w)) (Some p)) (\<lambda>c.
         and_then (sm_delete_session (heap_of (wd_net w)) (Some c) (session_state w) (wd_sched w)) (\<lambda>(sm, sd).
           Inr ((set_session_state sm w)\<lparr>wd_sched := sd\<rparr>))))"

definition on_close_connection_udp_cb :: "cb_ptr option \<Rightarrow> world \<Rightarrow> world res" where
  "on_close_connection_udp_cb input w = (if wd_sm w then close_session input w else Inl Null_Deref)"

definition on_close_connection_tcp_cb :: "cb_ptr option \<Rightarrow> world \<Rightarrow> world res" where
  "on_close_connection_tcp_cb input w = (if wd_sm w then close_session input w else Inr w)"

section \<open>Loading\<close>

definition dmmr_plugin_reload :: "world \<Rightarrow> world" where
  "dmmr_plugin_reload w = w"

definition dmmr_plugin_load :: "answers \<Rightarrow> world \<Rightarrow> (world \<times> sys list) res" where
  "dmmr_plugin_load an w =
     (case wd_cfg w of
        None \<Rightarrow> Inr (w, [])
      | Some cfg \<Rightarrow>
         if \<not> wd_sm w then Inr (w, [])
         else and_then (start_accept_from_uri an (Some (cstring (cfg_trunk_accept_uri cfg))) accept_callbacks (wd_net w))
                (\<lambda>(_, st, calls, _). Inr (set_net st w, calls)))"

text \<open>The result is the pointer of the module, also when it was set before.\<close>

definition new_dmmr_plugin :: "bool \<Rightarrow> cfg_server_server option \<Rightarrow> bool \<Rightarrow> world \<Rightarrow> bool \<times> world" where
  "new_dmmr_plugin has_sm cfg allocated w =
     (if has_sm \<and> cfg \<noteq> None then
        (if allocated then (True, w\<lparr>wd_plugin := True, wd_sm := True, wd_cfg := cfg\<rparr>)
         else (False, w\<lparr>wd_plugin := False\<rparr>))
      else (wd_plugin w, w))"

section \<open>Properties\<close>

lemma read_other_write:
  assumes "\<forall>k arr. input \<noteq> Session k arr"
  shows "read_cb (write_cb (Session k arr) c st) input = read_cb st input"
  using assms by (cases input) (simp_all add: read_cb_def write_cb_def)

lemma heap_write_cb [simp]: "hp_node (heap_of (write_cb p c st)) = hp_node (heap_of st)"
  by (cases p) (simp_all add: heap_of_def write_cb_def)

lemma hp_cb_heap [simp]: "hp_cb (heap_of st) = read_cb st"
  by (simp add: heap_of_def)

lemma read_own_write:
  "read_cb st p = Some c \<Longrightarrow> read_cb (write_cb p c' st) p = Some c'"
  by (cases p) (auto simp: read_cb_def write_cb_def nth_opt_def pool_slots_def set_slot_def split: if_splits option.splits)

lemma table_write [simp]: "sp_session (nt_tab (write_cb (Session k arr) c st) (k, arr)) = c"
  by (simp add: write_cb_def)

lemma get_current_node_None: "get_current_node cb = None"
proof (rule ccontr)
  assume "get_current_node cb \<noteq> None"
  then obtain y where "get_current_node cb = Some y" by blast
  then show False by (rule get_current_node.raw_induct [where P = "\<lambda>_ _. False", rotated]) blast
qed

lemma insert_session_never_returns:
  "sm_circle st = Some cb \<Longrightarrow> insert_session True sp (Some s) st = Inl No_Return"
  by (simp add: insert_session_def Let_def get_current_node_None)

text \<open>What entering a connection needs: a block that is not a table entry, with a node of the pool whose
  port lies inside the table.\<close>

definition enterable :: "cb_ptr \<Rightarrow> world \<Rightarrow> bool" where
  "enterable p w \<longleftrightarrow> (\<forall>k arr. p \<noteq> Session k arr) \<and>
     (\<exists>c n. read_cb (wd_net w) p = Some c \<and> deref (hp_node (heap_of (wd_net w))) (cb_node c) = Inr n \<and> nd_port n \<noteq> 0xFFFF)"

lemma set_net_frame [simp]:
  "sm_circle (session_state (set_net st w)) = sm_circle (session_state w)" "wd_sm (set_net st w) = wd_sm w"
  by (simp_all add: session_state_def set_net_def)

lemma enter_session_Inr:
  assumes "enterable p w" and "proto \<noteq> proto_none_t"
  shows "\<exists>s w'. enter_session link proto arr p w = Inr (s, w') \<and> sm_circle (session_state w') = sm_circle (session_state w) \<and> wd_sm w' = wd_sm w"
proof -
  obtain c n where c: "read_cb (wd_net w) p = Some c" "deref (hp_node (heap_of (wd_net w))) (cb_node c) = Inr n"
    and port: "nd_port n \<noteq> 0xFFFF" and other: "\<forall>k arr. p \<noteq> Session k arr"
    using assms(1) by (auto simp: enterable_def)
  define st where "st = wd_net w"
  have slot: "get_recno_slot (nd_port n) arr = Inr (unat (nd_port n), arr)"
  proof -
    have "unat (nd_port n) \<noteq> 0xFFFF" using port by (simp add: word_unat_eq_iff)
    moreover have "unat (nd_port n) < 0x10000" using unsigned_less [of "nd_port n", where 'a = nat] by simp
    ultimately show ?thesis by (simp add: get_recno_slot_def RECNO_SIZE_def)
  qed
  let ?entry = "Session (unat (nd_port n)) arr"
  let ?st1 = "write_cb ?entry c st"
  let ?st2 = "if link then write_cb p (c\<lparr>cb_linked := Some ?entry\<rparr>) ?st1 else ?st1"
  let ?new = "c\<lparr>cb_linked := Some p, cb_proto := proto\<rparr>"
  let ?st3 = "write_cb ?entry ?new ?st2"
  have heap: "hp_node (heap_of ?st3) = hp_node (heap_of st)" by simp
  have "read_cb ?st1 p = Some c" using c(1) by (simp add: read_other_write [OF other] st_def)
  then obtain lc where lc: "read_cb ?st3 p = Some lc" "cb_node lc = cb_node c"
    using read_own_write [of ?st1 p c] by (cases link) (auto simp: read_other_write [OF other])
  obtain a where a: "cb_node c = Some a" using c(2) by (cases "cb_node c") auto
  have "link_session_ports (heap_of ?st3) (Some (nt_tab ?st3 (unat (nd_port n), arr))) (Some ?new) =
      Inr (Some ((nt_tab ?st3 (unat (nd_port n), arr))\<lparr>sp_port := nd_port n, sp_linked_port := nd_port n\<rparr>))"
    using lc a c(2) assms(2) heap
    by (cases proto) (simp_all add: link_session_ports_def port_of_def st_def)
  then show ?thesis using c slot
    by (auto simp: enter_session_def Let_def st_def)
qed


lemma start_and_schedule_stuck:
  "wd_sm w \<Longrightarrow> sm_circle (session_state w) = Some cb \<Longrightarrow> ta_alloc ta \<Longrightarrow> start_and_schedule ta s w = Inl No_Return"
  by (simp add: start_and_schedule_def session_insert_session_def insert_session_never_returns)

lemma register_session_stuck:
  assumes "enterable p w" "wd_sm w" "sm_circle (session_state w) = Some cb" "ta_alloc ta" "proto \<noteq> proto_none_t"
  shows "register_session ta proto arr (Some p) w = Inl No_Return"
proof -
  obtain s w' where "enter_session True proto arr p w = Inr (s, w')" "sm_circle (session_state w') = Some cb" "wd_sm w'"
    using enter_session_Inr [OF assms(1,5), of True arr] assms(2,3) by auto
  then show ?thesis using assms(4) by (simp add: register_session_def start_and_schedule_stuck)
qed

lemma accept_session_stuck:
  assumes "enterable p w" "wd_sm w" "sm_circle (session_state w) = Some cb" "ta_alloc ta" "proto \<noteq> proto_none_t"
  shows "accept_session ta proto arr (Some p) w = Inl No_Return"
proof -
  obtain s w' where "enter_session False proto arr p w = Inr (s, w')" "sm_circle (session_state w') = Some cb" "wd_sm w'"
    using enter_session_Inr [OF assms(1,5), of False arr] assms(2,3) by auto
  then show ?thesis using assms(4) by (simp add: accept_session_def start_and_schedule_stuck)
qed

text \<open>C33: Once the session module has its ring, no callback of the plugin returns: for every connection it
  could enter, opening the session asks the ring for its current node, which calls itself for ever. So
  no connection is ever scheduled and no outgoing side is ever opened.\<close>

theorem plugin_callbacks_never_return:
  assumes "enterable p w" and "wd_sm w" and "sm_circle (session_state w) = Some cb" and "ta_alloc ta"
  shows "on_acception_connection_udp_cb ta (Some p) w = Inl No_Return \<and>
     on_acception_connection_tcp_cb ta (Some p) w = Inl No_Return \<and>
     on_dispatch_connection_udp_cb ta (Some p) w = Inl No_Return \<and>
     on_dispatch_connection_tcp_cb ta (Some p) w = Inl No_Return \<and>
     on_connect_connection_udp_cb ta (Some p) w = Inl No_Return \<and>
     on_connect_connection_tcp_cb ta (Some p) w = Inl No_Return"
  using register_session_stuck [OF assms] accept_session_stuck [OF assms]
  by (simp add: step_defs)

text \<open>A world with one accepted connection.\<close>

definition demo_world :: world where
  "demo_world =
     \<lparr>wd_layer = zero_layer\<lparr>sk_net := zero_net
        \<lparr>nt_node := \<lparr>pl_items = Some [zero_node\<lparr>nd_fd := 7, nd_port := 4000\<rparr>], pl_size = 1, pl_count = 0\<rparr>,
         nt_tcp := \<lparr>pl_items = Some [zero_cb\<lparr>cb_run := True, cb_node := Some 0\<rparr>], pl_size = 1, pl_count = 0\<rparr>\<rparr>,
        sk_circle := Some zero_circle\<rparr>,
      wd_circle = True, wd_snd_cb = True,
      wd_sched = \<lparr>sd_slots = zero_pool, sd_run = True, sd_this = True, sd_deadline = 0, sd_cfg = None\<rparr>,
      wd_sm = True, wd_cfg = None, wd_plugin = True\<rparr>"

theorem plugin_callbacks_never_return_witness:
  "on_acception_connection_tcp_cb \<lparr>ta_alloc = True, ta_spawn = 0, ta_slots = None, ta_socket = loopback\<rparr>
     (Some (Tcp_Pool 0)) demo_world = Inl No_Return"
proof -
  have "enterable (Tcp_Pool 0) demo_world"
    by (simp add: enterable_def demo_world_def read_cb_def nth_opt_def pool_slots_def heap_of_def zero_cb_def zero_node_def)
  then show ?thesis
    using plugin_callbacks_never_return [of "Tcp_Pool 0" demo_world zero_circle
        "\<lparr>ta_alloc = True, ta_spawn = 0, ta_slots = None, ta_socket = loopback\<rparr>"]
    by (simp add: demo_world_def session_state_def)
qed

end
