(* ===== verification/Orbit_Server.thy ===== *)
theory Orbit_Server
  imports Orbit_Plugin Orbit_Config Orbit_Log
begin

text \<open>
  The server of \<^verbatim>\<open>src/server/dmmr_server.c\<close>: the start sequence that creates every component in
  order, its rollback, the run step, the stop sequence and the signal handler. Each step of the start
  runs the model of the component it creates. The configuration the pointers of the components share
  is entry 0 of the parser's memory; the components' models hold copies, which \<open>refresh\<close> renews
  whenever the parser has written it.
\<close>

section \<open>State\<close>

text \<open>The objects the server's pointers point to. A pointer of \<open>server\<close> is whether it is not null; an object is
  in \<open>sv_freed\<close> when its pointer is left over from a \<open>free\<close>.\<close>

datatype server_object = Obj_Parser | Obj_Ring | Obj_Sock | Obj_Scheduler | Obj_Manager | Obj_Plugin

record server =
  sv_this :: bool
  sv_cfg_daemon :: "cfg_daemon_server option"
  sv_parser :: bool
  sv_circle_buffer :: bool
  sv_sock :: bool
  sv_scheduler :: bool
  sv_session_manager :: bool
  sv_plugin :: bool
  sv_run :: u8
  sv_reload :: u8
  sv_ps :: parser
  sv_ring :: circle
  sv_mg :: manager
  sv_world :: world
  sv_log :: log_state
  sv_log_cfg :: bool
  sv_freed :: "server_object list"

definition there :: "server \<Rightarrow> server_object \<Rightarrow> bool" where
  "there s ob = (case ob of Obj_Parser \<Rightarrow> sv_parser s | Obj_Ring \<Rightarrow> sv_circle_buffer s | Obj_Sock \<Rightarrow> sv_sock s
     | Obj_Scheduler \<Rightarrow> sv_scheduler s | Obj_Manager \<Rightarrow> sv_session_manager s | Obj_Plugin \<Rightarrow> sv_plugin s)"

definition all_objects :: "server_object list" where
  "all_objects = [Obj_Plugin, Obj_Manager, Obj_Scheduler, Obj_Sock, Obj_Ring, Obj_Parser]"

definition uses_freed :: "server \<Rightarrow> bool" where
  "uses_freed s \<longleftrightarrow> (\<exists>ob \<in> set (sv_freed s). there s ob)"

text \<open>A pointer is assigned what a constructor returned.\<close>

definition assigned :: "server_object \<Rightarrow> server \<Rightarrow> server" where
  "assigned ob s = s\<lparr>sv_freed := removeAll ob (sv_freed s)\<rparr>"

definition server_cfg :: "server \<Rightarrow> cfg_server_server" where
  "server_cfg s = ps_configs (sv_ps s) 0"

definition set_ring :: "circle \<Rightarrow> server \<Rightarrow> server" where
  "set_ring rb s =
     s\<lparr>sv_ring := rb,
       sv_world := (sv_world s)\<lparr>wd_layer := (wd_layer (sv_world s))
         \<lparr>sk_circle := map_option (\<lambda>_. rb) (sk_circle (wd_layer (sv_world s)))\<rparr>\<rparr>\<rparr>"

definition set_sched :: "scheduler \<Rightarrow> server \<Rightarrow> server" where
  "set_sched sd s = s\<lparr>sv_world := (sv_world s)\<lparr>wd_sched := sd\<rparr>\<rparr>"

definition refresh :: "server \<Rightarrow> server" where
  "refresh s =
     (let cfg = server_cfg s; sd = wd_sched (sv_world s);
          s1 = set_ring ((sv_ring s)\<lparr>ci_cfg := map_option (\<lambda>_. cfg) (ci_cfg (sv_ring s))\<rparr>) s;
          s2 = set_sched (sd\<lparr>sd_cfg := map_option (\<lambda>_. cfg) (sd_cfg sd)\<rparr>) s1
      in s2\<lparr>sv_mg := (sv_mg s2)\<lparr>mg_cfg := map_option (\<lambda>_. cfg) (mg_cfg (sv_mg s2))\<rparr>,
            sv_world := (sv_world s2)\<lparr>wd_cfg := map_option (\<lambda>_. cfg) (wd_cfg (sv_world s2))\<rparr>\<rparr>)"

text \<open>\<open>rb_log_push\<close> with the level of the configuration, once the log knows it. The levels are those of
  \<^verbatim>\<open>syslog.h\<close>.\<close>

definition LOG_CRIT :: u32 where "LOG_CRIT = 2"
definition LOG_ERR :: u32 where "LOG_ERR = 3"
definition LOG_INFO :: u32 where "LOG_INFO = 6"

definition push :: "u32 \<Rightarrow> string \<Rightarrow> string \<Rightarrow> int \<Rightarrow> server \<Rightarrow> server" where
  "push level msg func line s =
     s\<lparr>sv_log := rb_log_push (if sv_log_cfg s then Some (cfg_log_level (server_cfg s)) else None) level msg func line (sv_log s)\<rparr>"

text \<open>A failed step of the start: its message, and the message of \<open>RB_THROW\<close> on the next line.\<close>

definition start_fails :: "string \<Rightarrow> int \<Rightarrow> server \<Rightarrow> server" where
  "start_fails msg line s =
     push LOG_ERR (rb_exc_message (exception_value RB_EXC_SERVER_INIT)) ''server_start'' (line + 1)
       (push LOG_ERR msg ''server_start'' line s)"

section \<open>Signals\<close>

text \<open>\<open>SIGUSR1\<close>, \<open>SIGINT\<close> and \<open>SIGTERM\<close> as numbered on Linux.\<close>

definition handle_signal :: "int \<Rightarrow> server \<Rightarrow> server" where
  "handle_signal sig s =
     (if sig = 10 then s\<lparr>sv_reload := 1\<rparr>
      else if sig = 2 \<or> sig = 15 then s\<lparr>sv_reload := 0, sv_run := 0\<rparr>
      else s)"

section \<open>Running\<close>

definition server_proc :: "u8 list list option \<Rightarrow> string option \<Rightarrow> server \<Rightarrow> (int \<times> server) res" where
  "server_proc chunks opened s =
     (if \<not> sv_parser s then Inl Null_Deref
      else if Obj_Parser \<in> set (sv_freed s) then Inl Use_After_Free
      else and_then (parser_reload_config chunks opened (sv_ps s)) (\<lambda>ps. Inr (0, refresh (s\<lparr>sv_ps := ps\<rparr>))))"

definition server_run :: "u8 list list option \<Rightarrow> string option \<Rightarrow> server \<Rightarrow> (int \<times> server) res" where
  "server_run chunks opened s = (if sv_this s then server_proc chunks opened s else Inl Indeterminate)"

section \<open>Starting\<close>

text \<open>What the system answers during one start: the allocations of the objects, the configuration file as
  \<open>fopen\<close> and \<open>fread\<close> find it, and the socket calls of the plugin.\<close>

record start_answers =
  sa_parser :: bool
  sa_opened :: "string option"
  sa_chunks :: "u8 list list option"
  sa_ring :: bool
  sa_ring_slots :: bool
  sa_sock :: bool
  sa_sock_cap :: bool
  sa_sock_nbuff :: bool
  sa_sched :: bool
  sa_sched_slots :: bool
  sa_sched_spawn :: int
  sa_manager :: bool
  sa_plugin :: bool
  sa_socket :: answers

type_synonym start_step = "server \<Rightarrow> (bool \<times> server) res"

definition parser_step :: "start_answers \<Rightarrow> start_step" where
  "parser_step a s =
     (case new_dmmr_parser (sa_parser a) (sv_cfg_daemon s) (Some 0) (sv_ps s) of (ok, ps) \<Rightarrow>
        let s1 = assigned Obj_Parser (s\<lparr>sv_parser := ok, sv_ps := ps\<rparr>)
        in if \<not> ok then Inr (False, start_fails ''Falha ao criar parser'' 99 s1)
           else (case parser_load_config (sa_opened a) (sa_chunks a) ps of (ret, ps2) \<Rightarrow>
                   let s2 = refresh (s1\<lparr>sv_ps := ps2\<rparr>)
                   in if ret \<noteq> 0 then Inr (False, start_fails ''Falha ao carregar parser'' 104 s2)
                      else Inr (True, s2)))"

definition log_step :: start_step where
  "log_step s = Inr (True, s\<lparr>sv_log := rb_log_init (sv_log s), sv_log_cfg := True\<rparr>)"

definition ring_step :: "start_answers \<Rightarrow> start_step" where
  "ring_step a s =
     (case new_circle_buffer (Some (server_cfg s)) (sa_ring a) (sv_ring s) of (ok, rb) \<Rightarrow>
        let s1 = set_ring rb (assigned Obj_Ring (s\<lparr>sv_circle_buffer := ok\<rparr>))
        in if \<not> ok then Inr (False, start_fails ''Falha ao criar circle buffer'' 114 s1)
           else and_then (start_circle (sa_ring_slots a) rb) (\<lambda>(ret, rb2).
                  let s2 = set_ring rb2 s1
                  in if ret \<noteq> 0 then Inr (False, start_fails ''Falha ao iniciar circle buffer'' 119 s2)
                     else Inr (True, s2)))"

definition socket_step :: "start_answers \<Rightarrow> start_step" where
  "socket_step a s =
     (case new_dmmr_socket (sa_sock a) (sa_sock_cap a) (sa_sock_nbuff a) (Some (sv_ring s)) (wd_layer (sv_world s)) of
        (ok, layer) \<Rightarrow>
          let s1 = assigned Obj_Sock (s\<lparr>sv_sock := ok, sv_world := (sv_world s)\<lparr>wd_layer := layer\<rparr>\<rparr>)
          in if \<not> ok then Inr (False, start_fails ''Falha ao criar socket'' 126 s1) else Inr (True, s1))"

definition scheduler_step :: "start_answers \<Rightarrow> start_step" where
  "scheduler_step a s =
     (case new_dmmr_scheduler (sv_sock s) (Some (server_cfg s)) (sa_sched a) (wd_sched (sv_world s)) of (ok, sd) \<Rightarrow>
        let s1 = set_sched sd (assigned Obj_Scheduler (s\<lparr>sv_scheduler := ok\<rparr>))
        in if \<not> ok then Inr (False, start_fails ''Falha ao criar scheduler'' 133 s1)
           else (case sched_start (sa_sched_slots a) (sa_sched_spawn a) sd of (ret, sd2) \<Rightarrow>
                   let s2 = set_sched sd2 s1
                   in if ret \<noteq> 0 then Inr (False, start_fails ''Falha ao iniciar scheduler'' 138 s2)
                      else Inr (True, s2)))"

definition manager_step :: "start_answers \<Rightarrow> start_step" where
  "manager_step a s =
     and_then (new_session_connection_manager (Some (sv_ring s)) (sv_scheduler s) (sv_sock s) (Some (server_cfg s))
                 (sa_manager a) (sv_mg s) (session_state (sv_world s)))
       (\<lambda>(ok, mg, sm).
          let s1 = assigned Obj_Manager (s\<lparr>sv_session_manager := ok, sv_mg := mg, sv_world := set_session_state sm (sv_world s)\<rparr>)
          in if \<not> ok then
               Inr (False, start_fails (''Falha ao criar gerenciador de sess'' @ [CHR 0xF5] @ ''es'') 145 s1)
             else Inr (True, s1))"

definition plugin_step :: "start_answers \<Rightarrow> start_step" where
  "plugin_step a s =
     (case new_dmmr_plugin (sv_session_manager s) (Some (server_cfg s)) (sa_plugin a) (sv_world s) of (ok, w) \<Rightarrow>
        let s1 = assigned Obj_Plugin (s\<lparr>sv_plugin := ok, sv_world := w\<rparr>)
        in if \<not> ok then Inr (False, start_fails ''Falha ao carregar plugin'' 152 s1)
           else and_then (dmmr_plugin_load (sa_socket a) w) (\<lambda>(w2, _).
                  Inr (True, s1\<lparr>sv_world := w2\<rparr>)))"

declare parser_step_def [step_defs] log_step_def [step_defs] ring_step_def [step_defs] socket_step_def [step_defs]
  scheduler_step_def [step_defs] manager_step_def [step_defs] plugin_step_def [step_defs]

text \<open>The steps in order, up to the first that fails: the exit of \<open>RB_THROW\<close>.\<close>

fun run_steps :: "start_step list \<Rightarrow> start_step" where
  "run_steps [] s = Inr (True, s)"
| "run_steps (f # fs) s = and_then (f s) (\<lambda>(ok, s1). if ok then run_steps fs s1 else Inr (False, s1))"

definition start_steps :: "start_answers \<Rightarrow> start_step list" where
  "start_steps a =
     [parser_step a, log_step, ring_step a, socket_step a, scheduler_step a, manager_step a, plugin_step a]"

text \<open>The handler: what exists is stopped and freed in reverse order, and its pointer cleared. It uses every
  pointer that is not null, so a pointer left over from an earlier stop is a fault.\<close>

definition rollback :: "server \<Rightarrow> server res" where
  "rollback s =
     (if uses_freed s then Inl Use_After_Free
      else
       (let s1 = s\<lparr>sv_plugin := False, sv_session_manager := False\<rparr>;
            s2 = (if sv_scheduler s1 then set_sched (sched_stop (wd_sched (sv_world s1))) (s1\<lparr>sv_scheduler := False\<rparr>) else s1);
            s3 = s2\<lparr>sv_sock := False\<rparr>;
            s4 = (if sv_circle_buffer s3 then set_ring (stop_circle (sv_ring s3)) (s3\<lparr>sv_circle_buffer := False\<rparr>) else s3)
        in Inr (push LOG_CRIT (''Falha cr'' @ [CHR 0xED] @ ''tica ao iniciar servidor'') ''server_start'' 193
             (s4\<lparr>sv_parser := False\<rparr>))))"

definition server_start :: "start_answers \<Rightarrow> server \<Rightarrow> (int \<times> server) res" where
  "server_start a s =
     (if \<not> sv_this s then Inr (EOF, push LOG_ERR ''Ponteiro 'this' nulo'' ''server_start'' 90 s)
      else and_then (run_steps (start_steps a) s) (\<lambda>(ok, s1).
             if ok then Inr (0, push LOG_INFO ''Servidor iniciado com sucesso'' ''server_start'' 159 s1)
             else and_then (rollback s1) (\<lambda>s2. Inr (EOF, s2))))"

section \<open>Stopping, construction\<close>

text \<open>\<open>server_stop\<close> frees what exists and keeps the pointers, so a second one is a fault; joining a log thread
  that was never created is one too. The last argument of the log's shutdown says whether its thread runs.\<close>

definition server_stop :: "bool \<Rightarrow> server \<Rightarrow> (log_output list \<times> server) res" where
  "server_stop thread_runs s =
     (let s0 = s\<lparr>sv_freed := filter (there s) all_objects\<rparr>;
          s1 = (if sv_scheduler s0 then set_sched (sched_stop (wd_sched (sv_world s0))) s0 else s0);
          s2 = (if sv_circle_buffer s1 then set_ring (stop_circle (sv_ring s1)) s1 else s1)
      in if uses_freed s then Inl Use_After_Free else
         if \<not> sv_log_cfg s2 then Inl Null_Deref
         else case rb_log_shutdown thread_runs (sv_log s2) of
                None \<Rightarrow> Inl No_Return
              | Some (out, lg) \<Rightarrow> Inr (out, s2\<lparr>sv_log := lg\<rparr>))"

definition new_dmmr_server :: "cfg_daemon_server option \<Rightarrow> bool \<Rightarrow> server \<Rightarrow> bool \<times> server" where
  "new_dmmr_server cfg allocated s =
     (if cfg = None then
        (False, push LOG_ERR (rb_exc_message 2) ''new_dmmr_server'' 218 (push LOG_ERR (rb_exc_message 2) ''new_dmmr_server'' 202 s))
      else if \<not> allocated then
        (False, push LOG_ERR (rb_exc_message 1) ''new_dmmr_server'' 218 (push LOG_ERR (rb_exc_message 1) ''new_dmmr_server'' 206 s))
      else (True, push LOG_INFO ''Servidor DMMR criado'' ''new_dmmr_server'' 214
                    (s\<lparr>sv_cfg_daemon := cfg, sv_this := True\<rparr>)))"

section \<open>What the steps keep\<close>

text \<open>The six pointers, in the order of the start, and the flag of the socket module, which nothing clears.\<close>

definition objects :: "server \<Rightarrow> bool list" where
  "objects s = [sv_parser s, sv_circle_buffer s, sv_sock s, sv_scheduler s, sv_session_manager s, sv_plugin s]"

definition socket_used :: "server \<Rightarrow> bool" where
  "socket_used s \<longleftrightarrow> sk_this (wd_layer (sv_world s))"

lemma push_frame [simp]:
  "objects (push l m f n s) = objects s" "socket_used (push l m f n s) = socket_used s"
  "sv_world (push l m f n s) = sv_world s" "sv_this (push l m f n s) = sv_this s" "sv_ring (push l m f n s) = sv_ring s"
  "sv_parser (push l m f n s) = sv_parser s" "sv_scheduler (push l m f n s) = sv_scheduler s" "sv_cfg_daemon (push l m f n s) = sv_cfg_daemon s"
  by (simp_all add: push_def objects_def socket_used_def)

lemma set_ring_frame [simp]:
  "objects (set_ring rb s) = objects s" "socket_used (set_ring rb s) = socket_used s" "sv_ring (set_ring rb s) = rb"
  "sv_this (set_ring rb s) = sv_this s" "wd_sched (sv_world (set_ring rb s)) = wd_sched (sv_world s)"
  "wd_circle (sv_world (set_ring rb s)) = wd_circle (sv_world s)" "wd_sm (sv_world (set_ring rb s)) = wd_sm (sv_world s)"
  "sk_circle (wd_layer (sv_world (set_ring rb s))) = map_option (\<lambda>_. rb) (sk_circle (wd_layer (sv_world s)))"
  by (simp_all add: set_ring_def objects_def socket_used_def)

lemma set_sched_frame [simp]:
  "objects (set_sched sd s) = objects s" "socket_used (set_sched sd s) = socket_used s" "sv_ring (set_sched sd s) = sv_ring s"
  "sv_this (set_sched sd s) = sv_this s" "wd_layer (sv_world (set_sched sd s)) = wd_layer (sv_world s)"
  "wd_circle (sv_world (set_sched sd s)) = wd_circle (sv_world s)" "wd_sm (sv_world (set_sched sd s)) = wd_sm (sv_world s)"
  by (simp_all add: set_sched_def objects_def socket_used_def)

lemma refresh_frame [simp]:
  "objects (refresh s) = objects s" "socket_used (refresh s) = socket_used s" "sv_this (refresh s) = sv_this s"
proof -
  have "objects (s1\<lparr>sv_mg := mg, sv_world := w\<rparr>) = objects s1" "socket_used (s1\<lparr>sv_mg := mg, sv_world := (sv_world s1)\<lparr>wd_cfg := c\<rparr>\<rparr>) = socket_used s1"
    "sv_this (s1\<lparr>sv_mg := mg, sv_world := w\<rparr>) = sv_this s1" for s1 mg w c
    by (simp_all add: objects_def socket_used_def)
  then show "objects (refresh s) = objects s" "socket_used (refresh s) = socket_used s" "sv_this (refresh s) = sv_this s"
    by (simp_all add: refresh_def Let_def)
qed

lemma objects_update [simp]:
  "objects (s\<lparr>sv_parser := b\<rparr>) = (objects s)[0 := b]" "objects (s\<lparr>sv_circle_buffer := b\<rparr>) = (objects s)[1 := b]"
  "objects (s\<lparr>sv_sock := b\<rparr>) = (objects s)[2 := b]" "objects (s\<lparr>sv_scheduler := b\<rparr>) = (objects s)[3 := b]"
  "objects (s\<lparr>sv_session_manager := b\<rparr>) = (objects s)[4 := b]" "objects (s\<lparr>sv_plugin := b\<rparr>) = (objects s)[5 := b]"
  "objects (s\<lparr>sv_world := w\<rparr>) = objects s" "objects (s\<lparr>sv_ps := ps\<rparr>) = objects s" "objects (s\<lparr>sv_mg := mg\<rparr>) = objects s"
  "objects (s\<lparr>sv_log := lg\<rparr>) = objects s" "objects (s\<lparr>sv_log_cfg := b\<rparr>) = objects s"
  by (simp_all add: objects_def)

lemma used_update [simp]:
  "socket_used (s\<lparr>sv_parser := b\<rparr>) = socket_used s" "socket_used (s\<lparr>sv_circle_buffer := b\<rparr>) = socket_used s"
  "socket_used (s\<lparr>sv_sock := b\<rparr>) = socket_used s" "socket_used (s\<lparr>sv_scheduler := b\<rparr>) = socket_used s"
  "socket_used (s\<lparr>sv_session_manager := b\<rparr>) = socket_used s" "socket_used (s\<lparr>sv_plugin := b\<rparr>) = socket_used s"
  "socket_used (s\<lparr>sv_ps := ps\<rparr>) = socket_used s" "socket_used (s\<lparr>sv_mg := mg\<rparr>) = socket_used s"
  "socket_used (s\<lparr>sv_log := lg\<rparr>) = socket_used s" "socket_used (s\<lparr>sv_log_cfg := b\<rparr>) = socket_used s"
  by (simp_all add: socket_used_def)

lemma assigned_frame [simp]:
  "objects (assigned ob s) = objects s" "socket_used (assigned ob s) = socket_used s" "sv_this (assigned ob s) = sv_this s"
  "sv_world (assigned ob s) = sv_world s" "sv_ring (assigned ob s) = sv_ring s" "sv_ps (assigned ob s) = sv_ps s"
  "sv_log (assigned ob s) = sv_log s" "sv_log_cfg (assigned ob s) = sv_log_cfg s" "sv_mg (assigned ob s) = sv_mg s"
  "sv_parser (assigned ob s) = sv_parser s" "sv_sock (assigned ob s) = sv_sock s" "sv_scheduler (assigned ob s) = sv_scheduler s"
  "sv_session_manager (assigned ob s) = sv_session_manager s" "server_cfg (assigned ob s) = server_cfg s"
  by (simp_all add: assigned_def objects_def socket_used_def server_cfg_def)

lemma start_fails_frame [simp]:
  "objects (start_fails m l s) = objects s" "socket_used (start_fails m l s) = socket_used s" "sv_this (start_fails m l s) = sv_this s"
  by (simp_all add: start_fails_def)

text \<open>Each step sets its own pointer when it succeeds and touches no other.\<close>

lemma parser_step_objects: "parser_step a s = Inr (True, s') \<Longrightarrow> objects s' = (objects s)[0 := True] \<and> socket_used s' = socket_used s"
  by (auto simp: parser_step_def Let_def split: prod.splits if_splits)

lemma log_step_objects: "log_step s = Inr (True, s') \<Longrightarrow> objects s' = objects s \<and> socket_used s' = socket_used s"
  by (auto simp: log_step_def)

lemma ring_step_objects: "ring_step a s = Inr (True, s') \<Longrightarrow> objects s' = (objects s)[1 := True] \<and> socket_used s' = socket_used s"
  by (auto simp: ring_step_def Let_def and_then_Inr_iff split: prod.splits if_splits)

lemma socket_step_objects:
  "socket_step a s = Inr (True, s') \<Longrightarrow> objects s' = (objects s)[2 := True] \<and> socket_used s' \<and> \<not> socket_used s \<and>
     sk_circle (wd_layer (sv_world s')) = Some (sv_ring s')"
  by (auto simp: socket_step_def new_dmmr_socket_def Let_def socket_used_def split: prod.splits if_splits)

lemma scheduler_step_objects:
  "scheduler_step a s = Inr (True, s') \<Longrightarrow> objects s' = (objects s)[3 := True] \<and> socket_used s' = socket_used s \<and>
     wd_layer (sv_world s') = wd_layer (sv_world s) \<and> sv_ring s' = sv_ring s"
  by (auto simp: scheduler_step_def Let_def split: prod.splits if_splits)

lemma set_session_state_layer [simp]:
  "sk_this (wd_layer (set_session_state sm w)) = sk_this (wd_layer w)"
  "sk_circle (wd_layer (set_session_state sm w)) = sk_circle (wd_layer w)"
  "wd_circle (set_session_state sm w) \<longleftrightarrow> sm_circle sm \<noteq> None"
  by (simp_all add: set_session_state_def set_net_def)

lemma manager_step_objects:
  "manager_step a s = Inr (True, s') \<Longrightarrow> objects s' = (objects s)[4 := True] \<and> socket_used s' = socket_used s \<and>
     sk_circle (wd_layer (sv_world s')) = sk_circle (wd_layer (sv_world s)) \<and> sv_ring s' = sv_ring s \<and> wd_circle (sv_world s')"
  by (auto simp: manager_step_def new_session_connection_manager_def start_session_connection_def set_snd_cb_def
      and_then_Inr_iff Let_def socket_used_def split: prod.splits if_splits)

lemma set_net_layer [simp]:
  "sk_this (wd_layer (set_net st w)) = sk_this (wd_layer w)" "sk_circle (wd_layer (set_net st w)) = sk_circle (wd_layer w)"
  "wd_circle (set_net st w) = wd_circle w"
  by (simp_all add: set_net_def)

lemma plugin_load_frame:
  "dmmr_plugin_load an w = Inr (w', calls) \<Longrightarrow> sk_this (wd_layer w') = sk_this (wd_layer w) \<and>
     sk_circle (wd_layer w') = sk_circle (wd_layer w) \<and> wd_circle w' = wd_circle w \<and> wd_sm w' = wd_sm w"
  by (auto simp: dmmr_plugin_load_def and_then_Inr_iff split: option.splits if_splits prod.splits)

lemma plugin_step_objects:
  assumes "plugin_step a s = Inr (True, s')"
  shows "objects s' = (objects s)[5 := True] \<and> socket_used s' = socket_used s \<and>
     sk_circle (wd_layer (sv_world s')) = sk_circle (wd_layer (sv_world s)) \<and> sv_ring s' = sv_ring s \<and>
     wd_circle (sv_world s') = wd_circle (sv_world s) \<and> (sv_session_manager s \<longrightarrow> wd_sm (sv_world s'))"
proof -
  obtain ok w where w: "new_dmmr_plugin (sv_session_manager s) (Some (server_cfg s)) (sa_plugin a) (sv_world s) = (ok, w)" by fastforce
  have keep: "wd_layer w = wd_layer (sv_world s)" "wd_circle w = wd_circle (sv_world s)" "ok \<and> sv_session_manager s \<longrightarrow> wd_sm w"
    using w by (auto simp: new_dmmr_plugin_def split: if_splits)
  have ok: "ok" using assms w by (auto simp: plugin_step_def Let_def split: if_splits)
  obtain w2 calls where load: "dmmr_plugin_load (sa_socket a) w = Inr (w2, calls)" "s' = assigned Obj_Plugin (s\<lparr>sv_plugin := ok, sv_world := w\<rparr>)\<lparr>sv_world := w2\<rparr>"
    using assms w ok by (auto simp: plugin_step_def Let_def and_then_Inr_iff)
  show ?thesis using plugin_load_frame [OF load(1)] keep ok load(2) by (simp add: socket_used_def)
qed

lemmas step_objects = parser_step_objects log_step_objects ring_step_objects socket_step_objects
  scheduler_step_objects manager_step_objects plugin_step_objects

lemma run_steps_Cons:
  "run_steps (f # fs) s = Inr (True, s') \<Longrightarrow> \<exists>s1. f s = Inr (True, s1) \<and> run_steps fs s1 = Inr (True, s')"
  by (auto simp: and_then_Inr_iff split: if_splits)

text \<open>A start that runs every step needs a fresh socket module; in the end everything is there and tied
  together.\<close>

lemma all_steps_run:
  assumes "run_steps (start_steps a) s = Inr (True, s')"
  shows "objects s' = replicate 6 True \<and> socket_used s' \<and> \<not> socket_used s \<and>
     sm_circle (session_state (sv_world s')) = Some (sv_ring s') \<and> wd_sm (sv_world s')"
proof -
  obtain s1 s2 s3 s4 s5 s6 where steps: "parser_step a s = Inr (True, s1)" "log_step s1 = Inr (True, s2)" "ring_step a s2 = Inr (True, s3)"
    "socket_step a s3 = Inr (True, s4)" "scheduler_step a s4 = Inr (True, s5)" "manager_step a s5 = Inr (True, s6)" "plugin_step a s6 = Inr (True, s')"
    using assms unfolding start_steps_def by (auto dest!: run_steps_Cons simp del: run_steps.simps(2))
  note o = step_objects(1) [OF steps(1)] step_objects(2) [OF steps(2)] step_objects(3) [OF steps(3)] step_objects(4) [OF steps(4)]
    step_objects(5) [OF steps(5)] step_objects(6) [OF steps(6)] step_objects(7) [OF steps(7)]
  have "objects s' = ((((((objects s)[0 := True])[1 := True])[2 := True])[3 := True])[4 := True])[5 := True]" using o by simp
  then have all: "objects s' = replicate 6 True" by (simp add: objects_def numeral_eq_Suc)
  have "objects s6 ! 4" using o(6) by (simp add: objects_def)
  then have "sv_session_manager s6" by (simp add: objects_def)
  then show ?thesis using o all by (simp add: session_state_def)
qed

text \<open>What a run of the server needs besides: the server object is there, the log knows its configuration and its buffer is sound, and the
  parser knows where the configuration is.\<close>

definition serviceable :: "server \<Rightarrow> bool" where
  "serviceable s \<longleftrightarrow> sv_this s \<and> sv_log_cfg s \<and> wf_log (lg_buf (sv_log s)) \<and> ps_cfg_daemon (sv_ps s) \<noteq> None"

lemma quiet_frame [simp]:
  "sv_log_cfg (set_ring rb s) = sv_log_cfg s" "sv_log (set_ring rb s) = sv_log s" "sv_ps (set_ring rb s) = sv_ps s"
  "sv_log_cfg (set_sched sd s) = sv_log_cfg s" "sv_log (set_sched sd s) = sv_log s" "sv_ps (set_sched sd s) = sv_ps s"
  "sv_log_cfg (refresh s) = sv_log_cfg s" "sv_log (refresh s) = sv_log s" "sv_ps (refresh s) = sv_ps s"
  by (simp_all add: set_ring_def set_sched_def refresh_def Let_def)

lemma serviceable_push [intro]: "serviceable s \<Longrightarrow> serviceable (push l m f n s)"
  by (auto simp: serviceable_def push_def rb_log_push_def Let_def intro!: store_line_wf format_line_ok)

lemma later_steps_serviceable:
  "f \<in> {ring_step a, socket_step a, scheduler_step a, manager_step a, plugin_step a} \<Longrightarrow>
   f s = Inr (True, s') \<Longrightarrow> serviceable s \<Longrightarrow> serviceable s'"
  by (auto simp: step_defs Let_def and_then_Inr_iff
      serviceable_def split: prod.splits if_splits)

lemma parser_step_serviceable:
  "parser_step a s = Inr (True, s1) \<Longrightarrow> log_step s1 = Inr (True, s2) \<Longrightarrow> sv_this s \<Longrightarrow> serviceable s2"
  by (auto simp: parser_step_def log_step_def Let_def serviceable_def rb_log_init_def wf_zero_log new_dmmr_parser_def
      parser_load_config_def split: prod.splits if_splits option.splits)

lemma all_steps_serviceable:
  assumes "run_steps (start_steps a) s = Inr (True, s')" and "sv_this s"
  shows "serviceable s'"
proof -
  have keep: "serviceable s'" if "run_steps fs s = Inr (True, s')" "serviceable s"
    "set fs \<subseteq> {ring_step a, socket_step a, scheduler_step a, manager_step a, plugin_step a}" for fs s
    using that
  proof (induction fs arbitrary: s)
    case (Cons f fs)
    obtain s1 where s1: "f s = Inr (True, s1)" "run_steps fs s1 = Inr (True, s')"
      using run_steps_Cons [OF Cons.prems(1)] by blast
    then have "serviceable s1" using later_steps_serviceable [of f a s s1] Cons.prems(2,3) by auto
    then show ?case using Cons.IH [OF s1(2)] Cons.prems(3) by simp
  qed simp
  obtain s1 s2 where steps: "parser_step a s = Inr (True, s1)" "log_step s1 = Inr (True, s2)"
    "run_steps [ring_step a, socket_step a, scheduler_step a, manager_step a, plugin_step a] s2 = Inr (True, s')"
    using assms(1) run_steps_Cons unfolding start_steps_def by meson
  show ?thesis using keep [OF steps(3) parser_step_serviceable [OF steps(1,2) assms(2)]] by simp
qed

lemma rollback_clears: "rollback s = Inr s' \<Longrightarrow> objects s' = replicate 6 False \<and> socket_used s' = socket_used s \<and> sv_this s' = sv_this s"
  by (auto simp: rollback_def Let_def objects_def numeral_eq_Suc socket_used_def set_ring_def set_sched_def push_def split: if_splits)

text \<open>A start assigns every pointer, so after it none is left over.\<close>

lemma freed_frame [simp]:
  "sv_freed (push l m f n s) = sv_freed s" "sv_freed (set_ring rb s) = sv_freed s" "sv_freed (set_sched sd s) = sv_freed s"
  "sv_freed (refresh s) = sv_freed s" "sv_freed (assigned ob s) = removeAll ob (sv_freed s)" "sv_freed (start_fails m k s) = sv_freed s"
  by (simp_all add: push_def set_ring_def set_sched_def refresh_def Let_def assigned_def start_fails_def)

lemma steps_freed:
  "parser_step a s = Inr r \<Longrightarrow> sv_freed (snd r) = removeAll Obj_Parser (sv_freed s)"
  "log_step s = Inr r \<Longrightarrow> sv_freed (snd r) = sv_freed s"
  "ring_step a s = Inr r \<Longrightarrow> sv_freed (snd r) = removeAll Obj_Ring (sv_freed s)"
  "socket_step a s = Inr r \<Longrightarrow> sv_freed (snd r) = removeAll Obj_Sock (sv_freed s)"
  "scheduler_step a s = Inr r \<Longrightarrow> sv_freed (snd r) = removeAll Obj_Scheduler (sv_freed s)"
  "manager_step a s = Inr r \<Longrightarrow> sv_freed (snd r) = removeAll Obj_Manager (sv_freed s)"
  "plugin_step a s = Inr r \<Longrightarrow> sv_freed (snd r) = removeAll Obj_Plugin (sv_freed s)"
  by (auto simp: step_defs Let_def and_then_Inr_iff split: prod.splits if_splits)

lemma all_steps_fresh:
  assumes "run_steps (start_steps a) s = Inr (True, s')"
  shows "sv_freed s' = []"
proof -
  obtain s1 s2 s3 s4 s5 s6 where steps: "parser_step a s = Inr (True, s1)" "log_step s1 = Inr (True, s2)" "ring_step a s2 = Inr (True, s3)"
    "socket_step a s3 = Inr (True, s4)" "scheduler_step a s4 = Inr (True, s5)" "manager_step a s5 = Inr (True, s6)" "plugin_step a s6 = Inr (True, s')"
    using assms unfolding start_steps_def by (auto dest!: run_steps_Cons simp del: run_steps.simps(2))
  have "ob \<notin> set (sv_freed s')" for ob
    using steps_freed(1) [OF steps(1)] steps_freed(2) [OF steps(2)] steps_freed(3) [OF steps(3)] steps_freed(4) [OF steps(4)]
      steps_freed(5) [OF steps(5)] steps_freed(6) [OF steps(6)] steps_freed(7) [OF steps(7)] by (cases ob) simp_all
  then show ?thesis by (metis last_in_set)
qed

section \<open>When every step succeeds\<close>

text \<open>The pool of protocol blocks as the socket module allocates it has a free block, so opening a service
  does not fault unless its thread cannot be created.\<close>

definition free_block :: "net \<Rightarrow> bool" where
  "free_block st \<longleftrightarrow> wf_pool (nt_cap st) \<and> (\<exists>c \<in> set (pool_slots (nt_cap st)). cb_proto c = proto_none_t)"

lemma get_union_free:
  assumes "free_block st"
  shows "\<exists>i c. get_union_protocol_base_cb grown st = Inr (Some (Cap i), st) \<and> read_cb st (Cap i) = Some c"
proof -
  obtain i where "pool_get (\<lambda>c. cb_proto c = proto_none_t) (unat (pl_size (nt_cap st))) grown (nt_cap st) = Inr (Some i, nt_cap st)"
    "i < length (pool_slots (nt_cap st))"
    using assms pool_get_free [of "nt_cap st" "\<lambda>c. cb_proto c = proto_none_t" grown] by (auto simp: free_block_def)
  then show ?thesis by (simp add: get_union_protocol_base_cb_def read_cb_def nth_opt_def)
qed

lemma acception_returns:
  assumes "free_block st" and "an_spawn an = 0" and "proto \<noteq> proto_none_t"
  shows "\<exists>r. start_acception an proto port ip cbs st = Inr r"
proof -
  obtain i c where "get_union_protocol_base_cb (an_cap an) st = Inr (Some (Cap i), st)" "read_cb st (Cap i) = Some c"
    using get_union_free [OF assms(1)] by blast
  then have "\<exists>r. acception_seen an proto ip st = Inr r" using assms(2)
    by (cases "dns2ipaddr (an_resolve an) ip") (simp add: acception_seen_def service_calls_def Let_def)
  then show ?thesis using seen_acception [OF assms(3), of an port ip cbs st]
    by (cases "start_acception an proto port ip cbs st") (auto simp: seen_def)
qed

lemma plugin_load_returns:
  assumes "free_block (wd_net w)" and "an_spawn an = 0"
  shows "\<exists>r. dmmr_plugin_load an w = Inr r"
proof (cases "wd_cfg w")
  case (Some cfg)
  obtain proto host port where parse: "parse_protocol_host_port (Some (cstring (cfg_trunk_accept_uri cfg)))
      (Some (replicate 0x100 NUL)) 0x100 (Some 0) = (proto, host, port)" by (metis prod_cases3)
  have "\<exists>r. start_accept_from_uri an (Some (cstring (cfg_trunk_accept_uri cfg))) accept_callbacks (wd_net w) = Inr r"
    using acception_returns [OF assms, of proto "the port" "cstring (the host)" accept_callbacks] parse
    by (simp add: start_accept_from_uri_def)
  then show ?thesis using Some by (auto simp: dmmr_plugin_load_def)
qed (simp add: dmmr_plugin_load_def)

lemma server_cfg_frame [simp]:
  "server_cfg (refresh s) = server_cfg s" "server_cfg (set_ring rb s) = server_cfg s"
  by (simp_all add: refresh_def Let_def server_cfg_def set_ring_def set_sched_def)

lemma ring_step_succeeds:
  assumes "sa_ring a" and "cfg_circle_buffer_size (server_cfg s) \<noteq> 0"
  shows "\<exists>s'. ring_step a s = Inr (True, s')"
proof -
  have "unat (cfg_circle_buffer_size (server_cfg s)) \<noteq> 0" using assms(2) by (simp add: unat_eq_0)
  then show ?thesis using assms(1)
    by (simp add: ring_step_def new_circle_buffer_def start_circle_def Let_def)
qed

lemma socket_step_succeeds:
  assumes "sa_sock a" "sa_sock_cap a" "sa_sock_nbuff a" and "\<not> socket_used s"
  shows "\<exists>s'. socket_step a s = Inr (True, s') \<and> free_block (wd_net (sv_world s'))"
  using assms by (auto simp: socket_step_def new_dmmr_socket_def socket_used_def Let_def free_block_def wf_pool_def
      pool_slots_def zero_cb_def)

lemma scheduler_step_succeeds:
  assumes "sa_sched a" "sa_sched_slots a" "sa_sched_spawn a = 0" and "sv_sock s"
  shows "\<exists>s'. scheduler_step a s = Inr (True, s')"
  using assms by (simp add: scheduler_step_def new_dmmr_scheduler_def sched_start_def Let_def)

lemma manager_step_succeeds:
  assumes "sa_manager a" and "sv_sock s" and "sv_scheduler s"
  shows "\<exists>s'. manager_step a s = Inr (True, s') \<and> nt_cap (wd_net (sv_world s')) = nt_cap (wd_net (sv_world s))"
  using assms by (simp add: manager_step_def new_session_connection_manager_def start_session_connection_def Let_def
      set_session_state_def set_net_def)

lemma plugin_step_succeeds:
  assumes "sa_plugin a" "sv_session_manager s" "free_block (wd_net (sv_world s))" "an_spawn (sa_socket a) = 0"
  shows "\<exists>s'. plugin_step a s = Inr (True, s')"
proof -
  let ?w = "(sv_world s)\<lparr>wd_plugin := True, wd_sm := True, wd_cfg := Some (server_cfg s)\<rparr>"
  have new: "new_dmmr_plugin (sv_session_manager s) (Some (server_cfg s)) (sa_plugin a) (sv_world s) = (True, ?w)"
    using assms(1,2) by (simp add: new_dmmr_plugin_def)
  obtain w2 calls where "dmmr_plugin_load (sa_socket a) ?w = Inr (w2, calls)"
    using plugin_load_returns [of ?w "sa_socket a"] assms(3,4) by auto
  then show ?thesis by (simp add: plugin_step_def new Let_def)
qed

text \<open>The answers with which a start goes through, for the parser state and the configuration it loads.\<close>

definition good_answers :: "start_answers \<Rightarrow> server \<Rightarrow> bool" where
  "good_answers a s \<longleftrightarrow> sa_parser a \<and> sa_ring a \<and> sa_sock a \<and> sa_sock_cap a \<and> sa_sock_nbuff a \<and> sa_sched a \<and>
     sa_sched_slots a \<and> sa_sched_spawn a = 0 \<and> sa_manager a \<and> sa_plugin a \<and> an_spawn (sa_socket a) = 0 \<and>
     (\<exists>ps. parser_load_config (sa_opened a) (sa_chunks a)
              (snd (new_dmmr_parser True (sv_cfg_daemon s) (Some 0) (sv_ps s))) = (0, ps) \<and>
           cfg_circle_buffer_size (ps_configs ps 0) \<noteq> 0)"

lemma steps_succeed:
  assumes "good_answers a s" and "sv_cfg_daemon s \<noteq> None" and "\<not> socket_used s"
  shows "\<exists>s'. run_steps (start_steps a) s = Inr (True, s')"
proof -
  note good = assms(1) [unfolded good_answers_def]
  obtain ps where ps: "parser_load_config (sa_opened a) (sa_chunks a)
      (snd (new_dmmr_parser True (sv_cfg_daemon s) (Some 0) (sv_ps s))) = (0, ps)" "cfg_circle_buffer_size (ps_configs ps 0) \<noteq> 0"
    using good by blast
  obtain s1 where s1: "parser_step a s = Inr (True, s1)" "cfg_circle_buffer_size (server_cfg s1) \<noteq> 0"
  proof
    let ?p = "snd (new_dmmr_parser True (sv_cfg_daemon s) (Some 0) (sv_ps s))"
    have "new_dmmr_parser (sa_parser a) (sv_cfg_daemon s) (Some 0) (sv_ps s) =
        (True, snd (new_dmmr_parser True (sv_cfg_daemon s) (Some 0) (sv_ps s)))"
      using assms(2) good by (simp add: new_dmmr_parser_def)
    then show "parser_step a s = Inr (True, refresh (assigned Obj_Parser (s\<lparr>sv_parser := True, sv_ps := ?p\<rparr>)\<lparr>sv_ps := ps\<rparr>))"
      using ps(1) by (simp add: parser_step_def Let_def)
    show "cfg_circle_buffer_size (server_cfg (refresh (assigned Obj_Parser (s\<lparr>sv_parser := True, sv_ps := ?p\<rparr>)\<lparr>sv_ps := ps\<rparr>))) \<noteq> 0"
      using ps(2) by (simp add: server_cfg_def [of "assigned Obj_Parser (s\<lparr>sv_parser := True, sv_ps := ?p\<rparr>)\<lparr>sv_ps := ps\<rparr>"])
  qed
  obtain s2 where s2: "log_step s1 = Inr (True, s2)" "server_cfg s2 = server_cfg s1" by (simp add: log_step_def server_cfg_def)
  obtain s3 where s3: "ring_step a s2 = Inr (True, s3)" using ring_step_succeeds [of a s2] s1(2) s2(2) good by auto
  note o1 = parser_step_objects [OF s1(1)] log_step_objects [OF s2(1)] ring_step_objects [OF s3]
  obtain s4 where s4: "socket_step a s3 = Inr (True, s4)" "free_block (wd_net (sv_world s4))"
    using socket_step_succeeds [of a s3] o1 assms(3) good by auto
  have o4: "sv_sock s4" using socket_step_objects [OF s4(1)] by (auto simp: objects_def)
  obtain s5 where s5: "scheduler_step a s4 = Inr (True, s5)" using scheduler_step_succeeds [of a s4] o4 good by auto
  have o5: "sv_sock s5" "sv_scheduler s5" "wd_layer (sv_world s5) = wd_layer (sv_world s4)"
    using scheduler_step_objects [OF s5] o4 by (auto simp: objects_def)
  obtain s6 where s6: "manager_step a s5 = Inr (True, s6)" "nt_cap (wd_net (sv_world s6)) = nt_cap (wd_net (sv_world s5))"
    using manager_step_succeeds [of a s5] o5 good by auto
  have o6: "sv_session_manager s6" "free_block (wd_net (sv_world s6))"
    using manager_step_objects [OF s6(1)] s6(2) o5(3) s4(2) by (auto simp: objects_def free_block_def)
  obtain s7 where "plugin_step a s6 = Inr (True, s7)" using plugin_step_succeeds [of a s6] o6 good by auto
  then show ?thesis by (simp add: start_steps_def s1 s2 s3 s4 s5 s6)
qed

text \<open>A server object as \<open>new_dmmr_server\<close> leaves it, with a ring size already in the configuration, and the
  answers of a system where everything succeeds and the configuration file is empty.\<close>

definition idle_server :: server where
  "idle_server =
     \<lparr>sv_this = True, sv_cfg_daemon = Some \<lparr>cfg_file = ''dmmr.conf'', cfg_daemonize = 0\<rparr>,
      sv_parser = False, sv_circle_buffer = False, sv_sock = False, sv_scheduler = False, sv_session_manager = False,
      sv_plugin = False, sv_run = 0, sv_reload = 0,
      sv_ps = \<lparr>ps_run = 0, ps_last_crc = 0, ps_this = False, ps_cfg_daemon = None, ps_cfg_server = None,
        ps_table = [], ps_console = zero_console, ps_configs = (\<lambda>_. small_config 4)\<rparr>,
      sv_ring = zero_circle, sv_mg = \<lparr>mg_cfg = None, mg_this = False\<rparr>,
      sv_world = \<lparr>wd_layer = zero_layer, wd_circle = False, wd_snd_cb = False,
        wd_sched = \<lparr>sd_slots = zero_pool, sd_run = False, sd_this = False, sd_deadline = 0, sd_cfg = None\<rparr>,
        wd_sm = False, wd_cfg = None, wd_plugin = False\<rparr>,
      sv_log = \<lparr>lg_buf = zero_log_buffer, lg_fd = -1, lg_run = False\<rparr>, sv_log_cfg = False, sv_freed = []\<rparr>"

definition all_well :: start_answers where
  "all_well = \<lparr>sa_parser = True, sa_opened = Some [], sa_chunks = Some [[]], sa_ring = True, sa_ring_slots = True,
     sa_sock = True, sa_sock_cap = True, sa_sock_nbuff = True, sa_sched = True, sa_sched_slots = True, sa_sched_spawn = 0,
     sa_manager = True, sa_plugin = True, sa_socket = loopback\<rparr>"

lemma idle_start_good: "good_answers all_well idle_server" "\<not> socket_used idle_server" "sv_this idle_server" "sv_cfg_daemon idle_server \<noteq> None"
proof -
  have "run_loop [] st = st" for st :: "console_state \<times> configs"
    by (simp add: run_loop.simps [of "[]"] yylex.simps [of "[]"] longest_nil)
  then show "good_answers all_well idle_server"
    by (simp add: good_answers_def all_well_def idle_server_def loopback_def new_dmmr_parser_def parser_load_config_def
        console_setup_def console_run_def zero_console_def small_config_def)
qed (simp_all add: idle_server_def socket_used_def zero_layer_def)

lemma idle_start_runs: "\<exists>s'. server_start all_well idle_server = Inr (0, s')"
  using steps_succeed [OF idle_start_good(1,4,2)] idle_start_good(3) by (auto simp: server_start_def)

section \<open>Properties\<close>

text \<open>C1: A start that returns is all or nothing. With value 0 all six components exist, the session module
  works on the ring the socket layer has, and the plugin has its session manager; with -1 none of the
  six is left, whichever step failed, and whatever existed before.\<close>

theorem server_start_all_or_nothing:
  assumes "sv_this s" and "server_start a s = Inr (ret, s')"
  shows "ret = 0 \<and> objects s' = replicate 6 True \<and> sm_circle (session_state (sv_world s')) = Some (sv_ring s') \<and>
       wd_sm (sv_world s') \<or>
     ret = EOF \<and> objects s' = replicate 6 False"
proof -
  obtain ok s1 where run: "run_steps (start_steps a) s = Inr (ok, s1)"
    and res: "if ok then ret = 0 \<and> s' = push LOG_INFO ''Servidor iniciado com sucesso'' ''server_start'' 159 s1
       else ret = EOF \<and> rollback s1 = Inr s'"
    using assms by (auto simp: server_start_def and_then_Inr_iff split: if_splits)
  show ?thesis
  proof (cases ok)
    case True
    then show ?thesis using all_steps_run [of a s s1] run res by simp
  qed (use rollback_clears [of s1 s'] res in simp)
qed

lemma used_start_fails:
  assumes "socket_used s" and "server_start a s = Inr (ret, s')"
  shows "ret = EOF"
proof (cases "sv_this s")
  case True
  obtain ok s1 where run: "run_steps (start_steps a) s = Inr (ok, s1)" and ret: "ret = (if ok then 0 else EOF)"
    using assms True by (auto simp: server_start_def and_then_Inr_iff split: if_splits)
  then show ?thesis using all_steps_run [of a s s1] assms(1) by (cases ok) auto
qed (use assms in \<open>simp add: server_start_def\<close>)

lemma start_ran:
  "sv_this s \<Longrightarrow> server_start a s = Inr (0, s1) \<Longrightarrow> \<exists>s0. run_steps (start_steps a) s = Inr (True, s0) \<and>
     s1 = push LOG_INFO ''Servidor iniciado com sucesso'' ''server_start'' 159 s0"
  by (auto simp: server_start_def and_then_Inr_iff split: if_splits)

lemma start_serviceable: "sv_this s \<Longrightarrow> server_start a s = Inr (0, s1) \<Longrightarrow> serviceable s1"
  using start_ran all_steps_serviceable by blast

lemma stop_returns:
  assumes "serviceable s" and "\<not> uses_freed s"
  shows "\<exists>out s'. server_stop t s = Inr (out, s') \<and> serviceable s'"
proof -
  obtain out b where "drain_log (lg_buf (sv_log s)) = Some (out, b)" "wf_log b"
    using drain_log_total [of "lg_buf (sv_log s)"] assms by (auto simp: serviceable_def)
  then show ?thesis using assms
    by (auto simp: server_stop_def Let_def rb_log_shutdown_def log_thread_turn_def serviceable_def)
qed

lemma start_fresh: "sv_this s \<Longrightarrow> server_start a s = Inr (0, s1) \<Longrightarrow> sv_freed s1 = []"
  using start_ran all_steps_fresh by fastforce

lemma fresh_uses_none [simp]: "sv_freed s = [] \<Longrightarrow> \<not> uses_freed s"
  by (simp add: uses_freed_def)


text \<open>After a stop every object that was there has been freed, with its pointer kept.\<close>

lemma stop_leaves:
  assumes "server_stop t s = Inr (out, s')"
  shows "objects s' = objects s \<and> sv_freed s' = filter (there s) all_objects \<and> socket_used s' = socket_used s \<and> sv_this s' = sv_this s"
proof -
  have frame: "objects (s\<lparr>sv_freed := f\<rparr>) = objects s" "socket_used (s\<lparr>sv_freed := f\<rparr>) = socket_used s"
    "sv_freed (s2\<lparr>sv_log := lg\<rparr>) = sv_freed s2" for f s2 lg by (simp_all add: objects_def socket_used_def)
  show ?thesis using assms
    by (auto simp: server_stop_def Let_def frame split: if_splits option.splits prod.splits)
qed

lemma there_objects: "there s ob \<longleftrightarrow> objects s ! (case ob of Obj_Parser \<Rightarrow> 0 | Obj_Ring \<Rightarrow> 1 | Obj_Sock \<Rightarrow> 2
     | Obj_Scheduler \<Rightarrow> 3 | Obj_Manager \<Rightarrow> 4 | Obj_Plugin \<Rightarrow> 5)"
  by (cases ob) (simp_all add: there_def objects_def)

lemma stopped_leftovers:
  assumes "sv_this s" "server_start a s = Inr (0, s1)" "server_stop t s1 = Inr (out, s2)"
  shows "there s2 ob \<and> ob \<in> set (sv_freed s2)" and "socket_used s2" and "sv_this s2"
proof -
  obtain s0 where run: "run_steps (start_steps a) s = Inr (True, s0)"
    "s1 = push LOG_INFO ''Servidor iniciado com sucesso'' ''server_start'' 159 s0" using start_ran [OF assms(1,2)] by blast
  have o: "objects s1 = replicate 6 True" "socket_used s1" using all_steps_run [OF run(1)] run(2) by simp_all
  have "sv_this s1" using start_serviceable [OF assms(1,2)] by (simp add: serviceable_def)
  moreover note after = stop_leaves [OF assms(3)]
  ultimately show "socket_used s2" and "sv_this s2" using o(2) by simp_all
  have all: "there s1 ob" by (cases ob) (simp_all add: there_objects o(1))
  moreover have "there s2 ob" using all after by (simp add: there_objects)
  moreover have "ob \<in> set all_objects" by (cases ob) (simp_all add: all_objects_def)
  ultimately show "there s2 ob \<and> ob \<in> set (sv_freed s2)" using after by simp
qed

text \<open>With the socket module in use a start gets no further than the socket, or than a ring of no slots; it
  assigns neither the session manager nor the plugin.\<close>

lemma plugin_frame [simp]:
  "sv_plugin (push l m f n s) = sv_plugin s" "sv_plugin (set_ring rb s) = sv_plugin s" "sv_plugin (set_sched sd s) = sv_plugin s"
  "sv_plugin (assigned ob s) = sv_plugin s" "sv_plugin (start_fails m k s) = sv_plugin s" "sv_plugin (refresh s) = sv_plugin s"
  by (simp_all add: push_def set_ring_def set_sched_def assigned_def start_fails_def refresh_def Let_def)

lemma parser_step_keeps: "\<exists>ok s'. parser_step a s = Inr (ok, s') \<and> socket_used s' = socket_used s \<and> sv_plugin s' = sv_plugin s"
  by (cases "new_dmmr_parser (sa_parser a) (sv_cfg_daemon s) (Some 0) (sv_ps s)")
    (auto simp: parser_step_def Let_def split: prod.splits)

lemma ring_step_keeps:
  "(\<exists>ok s'. ring_step a s = Inr (ok, s') \<and> socket_used s' = socket_used s \<and> sv_plugin s' = sv_plugin s) \<or>
   ring_step a s = Inl Out_Of_Bounds \<and> cfg_circle_buffer_size (server_cfg s) = 0"
  by (auto simp: ring_step_def Let_def start_fails_def push_def set_ring_def assigned_def socket_used_def new_circle_buffer_def
      start_circle_def server_cfg_def unat_eq_0 split: prod.splits if_splits)

lemma socket_step_fails: "socket_used s \<Longrightarrow> \<exists>s'. socket_step a s = Inr (False, s') \<and> sv_plugin s' = sv_plugin s"
  by (simp add: socket_step_def new_dmmr_socket_def socket_used_def Let_def start_fails_def push_def assigned_def)

lemma used_steps_fail:
  assumes "socket_used s"
  shows "(\<exists>s'. run_steps (start_steps a) s = Inr (False, s') \<and> sv_plugin s' = sv_plugin s \<and>
      (Obj_Plugin \<in> set (sv_freed s') \<longleftrightarrow> Obj_Plugin \<in> set (sv_freed s))) \<or>
    run_steps (start_steps a) s = Inl Out_Of_Bounds \<and>
      (\<exists>s1. parser_step a s = Inr (True, s1) \<and> cfg_circle_buffer_size (server_cfg s1) = 0)"
proof -
  obtain ok1 s1 where s1: "parser_step a s = Inr (ok1, s1)" "socket_used s1" "sv_plugin s1 = sv_plugin s"
    using parser_step_keeps [of a s] assms by auto
  obtain s2 where s2: "log_step s1 = Inr (True, s2)" "socket_used s2" "sv_plugin s2 = sv_plugin s" "server_cfg s2 = server_cfg s1"
    using s1(2,3) by (simp add: log_step_def socket_used_def server_cfg_def)
  note freed = steps_freed(1) [OF s1(1)] steps_freed(2) [OF s2(1)]
  show ?thesis
  proof (cases ok1)
    case False
    then show ?thesis using s1 freed(1) by (simp add: start_steps_def)
  next
    case True
    then have begun: "parser_step a s = Inr (True, s1)" "log_step s1 = Inr (True, s2)" using s1(1) s2(1) by simp_all
    show ?thesis
    proof (cases "ring_step a s2")
      case (Inl e)
      then show ?thesis using begun s2(4) ring_step_keeps [of a s2] True by (simp add: start_steps_def)
    next
      case (Inr r)
      obtain ok3 s3 where r: "r = (ok3, s3)" by fastforce
      have s3: "socket_used s3" "sv_plugin s3 = sv_plugin s" using ring_step_keeps [of a s2] Inr r s2(2,3) by auto
      obtain s4 where s4: "socket_step a s3 = Inr (False, s4)" "sv_plugin s4 = sv_plugin s3"
        using socket_step_fails [OF s3(1)] by blast
      show ?thesis using begun True Inr r s4 s3(2) freed steps_freed(3) [OF Inr] steps_freed(4) [OF s4(1)]
        by (cases ok3) (simp_all add: start_steps_def)
    qed
  qed
qed

text \<open>C18: A first start goes through: when every allocation and thread succeeds, the configuration loads with
  a ring size other than 0, and the socket module is unused, the start returns, with value 0. No
  condition on the trunk URIs is needed, since a listener that cannot be opened is not an error.\<close>

theorem server_start_succeeds:
  assumes "sv_this s" and "sv_cfg_daemon s \<noteq> None" and "\<not> socket_used s" and "good_answers a s"
  shows "\<exists>s'. server_start a s = Inr (0, s')"
  using steps_succeed [OF assms(4,2,3)] assms(1) by (auto simp: server_start_def)

text \<open>C31: A server that was started and stopped cannot be used again. \<open>server_stop\<close> frees the six objects and keeps the
  pointers, and the socket module never forgets that it was created; so whatever the system answers, the next
  turn and the next stop use freed memory, and the next start fails at the socket at the latest and its
  rollback then frees the plugin a second time. The one start that does not get that far faults
  earlier, in a ring configured with no slots.\<close>

theorem restart_uses_freed_memory:
  assumes "sv_this s" and "server_start a s = Inr (0, s1)" and "server_stop t s1 = Inr (out, s2)"
  shows "server_run chunks opened s2 = Inl Use_After_Free \<and> server_stop t' s2 = Inl Use_After_Free \<and>
    (server_start a' s2 = Inl Use_After_Free \<or>
     server_start a' s2 = Inl Out_Of_Bounds \<and>
       (\<exists>s3. parser_step a' s2 = Inr (True, s3) \<and> cfg_circle_buffer_size (server_cfg s3) = 0))"
proof -
  note left = stopped_leftovers [OF assms]
  have used: "uses_freed s2" using left(1) [of Obj_Plugin] by (auto simp: uses_freed_def)
  have run: "server_run chunks opened s2 = Inl Use_After_Free" using left(1) [of Obj_Parser] left(3)
    by (simp add: server_run_def server_proc_def there_def)
  have stop: "server_stop t' s2 = Inl Use_After_Free" using used by (simp add: server_stop_def Let_def)
  have again: "rollback s3 = Inl Use_After_Free" if "sv_plugin s3 = sv_plugin s2" "Obj_Plugin \<in> set (sv_freed s3)" for s3
    using that left(1) [of Obj_Plugin] by (force simp: rollback_def uses_freed_def there_def)
  have "server_start a' s2 = Inl Use_After_Free \<or>
      server_start a' s2 = Inl Out_Of_Bounds \<and>
        (\<exists>s3. parser_step a' s2 = Inr (True, s3) \<and> cfg_circle_buffer_size (server_cfg s3) = 0)"
    using used_steps_fail [OF left(2), of a'] left(3) left(1) [of Obj_Plugin] again
    by (auto simp: server_start_def)
  then show ?thesis using run stop by blast
qed

text \<open>The concrete runs.\<close>

theorem server_start_all_or_nothing_witness:
  "\<exists>s'. server_start (all_well\<lparr>sa_parser := False\<rparr>) idle_server = Inr (EOF, s') \<and> objects s' = replicate 6 False"
proof -
  obtain s' where s': "server_start (all_well\<lparr>sa_parser := False\<rparr>) idle_server = Inr (EOF, s')"
    by (auto simp: server_start_def start_steps_def parser_step_def new_dmmr_parser_def Let_def all_well_def idle_server_def
        rollback_def uses_freed_def)
  then show ?thesis using server_start_all_or_nothing [OF idle_start_good(3) s'] by simp
qed

theorem server_start_succeeds_witness: "\<exists>s'. server_start all_well idle_server = Inr (0, s')"
  by (rule server_start_succeeds [OF idle_start_good(3,4,2,1)])

theorem restart_uses_freed_memory_witness:
  "\<exists>s1 out s2. server_start all_well idle_server = Inr (0, s1) \<and> server_stop False s1 = Inr (out, s2) \<and>
     server_run None None s2 = Inl Use_After_Free \<and> server_stop False s2 = Inl Use_After_Free \<and>
     server_start (all_well\<lparr>sa_parser := False\<rparr>) s2 = Inl Use_After_Free"
proof -
  obtain s1 where s1: "server_start all_well idle_server = Inr (0, s1)" using idle_start_runs by blast
  obtain s2 out where s2: "server_stop False s1 = Inr (out, s2)"
    using stop_returns [OF start_serviceable [OF idle_start_good(3) s1] fresh_uses_none [OF start_fresh [OF idle_start_good(3) s1]]] by blast
  have "\<not> (\<exists>s3. parser_step (all_well\<lparr>sa_parser := False\<rparr>) s2 = Inr (True, s3))"
    by (auto simp: parser_step_def all_well_def new_dmmr_parser_def Let_def split: if_splits)
  then show ?thesis
    using restart_uses_freed_memory [OF idle_start_good(3) s1 s2, of None None False "all_well\<lparr>sa_parser := False\<rparr>"] s1 s2 by blast
qed

end
