(* ===== verification/Orbit_Main.thy ===== *)
theory Orbit_Main
  imports Orbit_Server
begin

text \<open>
  The processes: \<^verbatim>\<open>src/daemon/dmmr_daemon.c\<close> and \<^verbatim>\<open>src/main.c\<close>. \<open>main\<close> reads the options, then
  either runs the server in the foreground or makes a daemon. A process that calls \<open>exit\<close> is \<open>Exit\<close>
  of its status. What the system answers is given as arguments; what happens in one turn of the
  foreground loop, and whether a signal has cleared \<open>run\<close> after it, is one element of a list, so a run
  that has not ended is the value \<open>None\<close>.
\<close>

section \<open>Processes\<close>

datatype 'a process = Exit int | Cont 'a

datatype daemonize_result = Parent_Exits | Detached | Throws

record daemon =
  dm_this :: bool
  dm_srv :: bool
  dm_cfg :: "cfg_daemon_server option"
  dm_server :: server

section \<open>The daemon\<close>

text \<open>\<open>daemonize\<close>: the results of the first \<open>fork\<close>, of \<open>setsid\<close> and of the second \<open>fork\<close>; \<open>errtext\<close> is the
  text of the error, which \<open>RB_THROW_ERRNO\<close> logs. The standard streams are not modelled.\<close>

definition daemonize :: "string \<Rightarrow> int \<Rightarrow> int \<Rightarrow> int \<Rightarrow> server \<Rightarrow> daemonize_result \<times> server" where
  "daemonize errtext fork1 sid fork2 s =
     (if fork1 = EOF then (Throws, push LOG_ERR errtext ''daemonize'' 29 s)
      else if fork1 \<noteq> 0 then (Parent_Exits, s)
      else if sid = EOF then (Throws, push LOG_ERR errtext ''daemonize'' 36 s)
      else if fork2 = 0 then (Detached, s)
      else if fork2 = EOF then (Throws, push LOG_ERR errtext ''daemonize'' 55 s)
      else (Parent_Exits, s))"

definition daemon_run :: "u8 list list option \<Rightarrow> string option \<Rightarrow> daemon \<Rightarrow> (int \<times> daemon) res" where
  "daemon_run chunks opened d =
     (if dm_this d \<and> dm_srv d then
        and_then (server_run chunks opened (dm_server d)) (\<lambda>(ret, s). Inr (ret, d\<lparr>dm_server := s\<rparr>))
      else Inr (EOF, d))"

text \<open>Both ends of \<open>daemon_start\<close>, the handler's too, return 0.\<close>

definition daemon_start :: "string \<Rightarrow> int \<Rightarrow> int \<Rightarrow> int \<Rightarrow> bool \<Rightarrow> daemon \<Rightarrow> (int \<times> daemon) process" where
  "daemon_start errtext fork1 sid fork2 allocated d =
     (if \<not> dm_this d then Cont (EOF, d)
      else case daemonize errtext fork1 sid fork2 (dm_server d) of
             (Parent_Exits, _) \<Rightarrow> Exit 0
           | (Throws, s) \<Rightarrow> Cont (0, d\<lparr>dm_server := s\<rparr>)
           | (Detached, s) \<Rightarrow>
              (case new_dmmr_server (dm_cfg d) allocated s of
                 (False, s1) \<Rightarrow>
                   Cont (0, d\<lparr>dm_srv := False,
                     dm_server := push LOG_ERR (rb_exc_message (exception_value RB_EXC_SERVER_INIT)) ''daemon_start'' 74 s1\<rparr>)
               | (True, s1) \<Rightarrow>
                   Cont (0, d\<lparr>dm_srv := True, dm_server := push LOG_INFO ''DMMR orbiting.'' ''daemon_start'' 75 s1\<rparr>)))"

definition reload_config :: int where
  "reload_config = 0"

definition new_dmmr_daemon :: "cfg_daemon_server option \<Rightarrow> bool \<Rightarrow> daemon \<Rightarrow> bool \<times> daemon" where
  "new_dmmr_daemon cfg allocated d =
     (if cfg = None then
        (False, d\<lparr>dm_server := push LOG_ERR (rb_exc_message 2) ''new_dmmr_daemon'' 112
                    (push LOG_ERR (rb_exc_message 2) ''new_dmmr_daemon'' 95 (dm_server d))\<rparr>)
      else if \<not> allocated then
        (False, d\<lparr>dm_server := push LOG_ERR (rb_exc_message 1) ''new_dmmr_daemon'' 112
                    (push LOG_ERR (rb_exc_message 1) ''new_dmmr_daemon'' 99 (dm_server d))\<rparr>)
      else (True, d\<lparr>dm_this := True, dm_cfg := cfg,
                    dm_server := push LOG_INFO ''Daemon configurado'' ''new_dmmr_daemon'' 108 (dm_server d)\<rparr>))"

definition free_dmmr_daemon :: "bool \<Rightarrow> daemon \<Rightarrow> (log_output list \<times> daemon) res" where
  "free_dmmr_daemon thread_runs d =
     (if dm_this d \<and> dm_srv d then
        and_then (server_stop thread_runs (dm_server d)) (\<lambda>(out, s). Inr (out, d\<lparr>dm_server := s\<rparr>))
      else Inr ([], d))"

section \<open>The command line\<close>

text \<open>\<open>getopt\<close> with the option string \<open>d:f:\<close>: the options it returns, in order, each with its argument; an
  unknown option or a missing argument gives \<open>?\<close>, after which \<open>main\<close> reads no further. Other arguments
  are skipped, and \<open>--\<close> ends the options.\<close>

definition option_letter :: "char \<Rightarrow> bool" where
  "option_letter c \<longleftrightarrow> c = CHR ''d'' \<or> c = CHR ''f''"

fun getopt :: "string list \<Rightarrow> (char \<times> string) list" where
  "getopt [] = []"
| "getopt (a # rest) =
     (if a = ''--'' then []
      else if take 1 a = ''-'' \<and> 1 < length a then
        (let c = a ! 1; more = drop 2 a
         in if \<not> option_letter c then [(CHR ''?'', [])]
            else if more \<noteq> [] then (c, more) # getopt rest
            else (case rest of [] \<Rightarrow> [(CHR ''?'', [])] | arg # rest' \<Rightarrow> (c, arg) # getopt rest'))
      else getopt rest)"

definition FILE_SIZE :: nat where "FILE_SIZE = 0x400"

text \<open>The \<open>strlcpy\<close> of the file name, with \<open>sizeof(cfg.cfg_file) - 1\<close> as the size.\<close>

definition set_file :: "string \<Rightarrow> cfg_daemon_server \<Rightarrow> cfg_daemon_server" where
  "set_file arg cfg = cfg\<lparr>cfg_file := store_chars (cfg_file cfg) (take (FILE_SIZE - 2) arg @ [NUL])\<rparr>"

text \<open>\<open>exists\<close> tells for which names \<open>stat\<close> succeeds.\<close>

fun process_args :: "(string \<Rightarrow> bool) \<Rightarrow> (char \<times> string) list \<Rightarrow> cfg_daemon_server \<Rightarrow> cfg_daemon_server process" where
  "process_args exists [] cfg = Cont cfg"
| "process_args exists ((opt, arg) # rest) cfg =
     (if opt = CHR ''f'' then
        (if exists (cstring (cfg_file (set_file arg cfg))) then process_args exists rest (set_file arg cfg) else Exit 1)
      else if opt = CHR ''d'' then process_args exists rest (cfg\<lparr>cfg_daemonize := ucast (atoi arg AND 0xFF)\<rparr>)
      else Exit 1)"

section \<open>The foreground\<close>

text \<open>One turn of the loop: what the reload finds, and whether \<open>run\<close> is still set after it.\<close>

record turn =
  tn_chunks :: "u8 list list option"
  tn_opened :: "string option"
  tn_run :: bool

text \<open>The second component says whether the loop has ended.\<close>

fun foreground_loop :: "turn list \<Rightarrow> server \<Rightarrow> (server \<times> bool) res" where
  "foreground_loop [] s = Inr (s, False)"
| "foreground_loop (t # ts) s =
     and_then (server_run (tn_chunks t) (tn_opened t) s) (\<lambda>(status, s1).
       if status \<noteq> 0 then Inr (s1, True)
       else if tn_run t then foreground_loop ts s1
       else Inr (s1, True))"

record main_answers =
  ma_exists :: "string \<Rightarrow> bool"
  ma_signals :: bool
  ma_server :: bool
  ma_start :: start_answers
  ma_turns :: "turn list"
  ma_thread :: bool
  ma_daemon :: bool
  ma_fork1 :: int
  ma_setsid :: int
  ma_fork2 :: int
  ma_errtext :: string
  ma_chunks :: "u8 list list option"
  ma_opened :: "string option"

definition run_foreground :: "main_answers \<Rightarrow> cfg_daemon_server \<Rightarrow> server \<Rightarrow> (int option \<times> server) res" where
  "run_foreground a cfg s =
     (if \<not> ma_signals a then Inr (Some EOF, s)
      else case new_dmmr_server (Some cfg) (ma_server a) s of
             (False, s1) \<Rightarrow> Inr (Some EOF, s1)
           | (True, s1) \<Rightarrow>
              and_then (server_start (ma_start a) s1) (\<lambda>(_, s2).
              and_then (foreground_loop (ma_turns a)
                  (push (level_value rb_log_level_info)
                     ''[INFO] Servidor rodando em foreground. Pressione Ctrl+C para sair...'' ''run_foreground'' 58 s2))
                (\<lambda>(s3, ended).
                  if \<not> ended then Inr (None, s3)
                  else and_then (server_stop (ma_thread a) s3) (\<lambda>(_, s4).
                    (case rb_log_flush (sv_log s4) of
                       None \<Rightarrow> Inl No_Return
                     | Some (_, lg) \<Rightarrow> Inr (Some 0, s4\<lparr>sv_log := lg\<rparr>))))))"

definition zero_cfg :: cfg_daemon_server where
  "zero_cfg = \<lparr>cfg_file = replicate FILE_SIZE NUL, cfg_daemonize = 0\<rparr>"

text \<open>\<open>main\<close>, with the arguments after the program name: the exit status or the return value, \<open>None\<close> while it
  runs.\<close>

definition main_program :: "main_answers \<Rightarrow> string list \<Rightarrow> daemon \<Rightarrow> (int option \<times> daemon) res" where
  "main_program a args d =
     (case process_args (ma_exists a) (getopt args) zero_cfg of
        Exit status \<Rightarrow> Inr (Some status, d)
      | Cont cfg \<Rightarrow>
         if cfg_daemonize cfg = 0 then
           and_then (run_foreground a cfg (dm_server d)) (\<lambda>(ret, s). Inr (ret, d\<lparr>dm_server := s\<rparr>))
         else
           (case new_dmmr_daemon (Some cfg) (ma_daemon a) d of
              (False, d1) \<Rightarrow> Inr (Some 1, d1)
            | (True, d1) \<Rightarrow>
               (case daemon_start (ma_errtext a) (ma_fork1 a) (ma_setsid a) (ma_fork2 a) (ma_server a) d1 of
                  Exit status \<Rightarrow> Inr (Some status, d1)
                | Cont (ret, d2) \<Rightarrow>
                   if ret \<noteq> 0 then Inr (Some 1, d2)
                   else and_then (daemon_run (ma_chunks a) (ma_opened a) d2) (\<lambda>(ret2, d3).
                     (case rb_log_flush (sv_log (dm_server d3)) of
                        None \<Rightarrow> Inl No_Return
                      | Some (_, lg) \<Rightarrow> Inr (Some ret2, d3\<lparr>dm_server := (dm_server d3)\<lparr>sv_log := lg\<rparr>\<rparr>))))))"

section \<open>The foreground loop\<close>

text \<open>A server the loop can run: it has a parser, none of its pointers is left over, and it is serviceable.\<close>

definition running :: "server \<Rightarrow> bool" where
  "running s \<longleftrightarrow> sv_parser s \<and> sv_freed s = [] \<and> serviceable s"

lemma reload_keeps_daemon:
  assumes "ps_cfg_daemon p \<noteq> None"
  shows "\<exists>p'. parser_reload_config chunks opened p = Inr p' \<and> ps_cfg_daemon p' \<noteq> None"
  using assms by (auto simp: parser_reload_config_def Let_def split: prod.split)

lemma refresh_running [simp]: "running (refresh s) = running s"
proof -
  have "sv_parser (refresh s) = sv_parser s" by (simp add: refresh_def Let_def set_ring_def set_sched_def)
  then show ?thesis by (simp add: running_def serviceable_def)
qed

lemma server_run_running:
  assumes "running s"
  shows "\<exists>s'. server_run chunks opened s = Inr (0, s') \<and> running s'"
proof -
  have daemon: "ps_cfg_daemon (sv_ps s) \<noteq> None" using assms by (simp add: running_def serviceable_def)
  obtain p' where "parser_reload_config chunks opened (sv_ps s) = Inr p'" "ps_cfg_daemon p' \<noteq> None"
    using reload_keeps_daemon [OF daemon] by blast
  moreover from this have "running (s\<lparr>sv_ps := p'\<rparr>)" using assms by (simp add: running_def serviceable_def)
  ultimately show ?thesis using assms by (simp add: server_run_def server_proc_def running_def [of s] serviceable_def [of s])
qed

lemma foreground_loop_running:
  "running s \<Longrightarrow> \<exists>s'. foreground_loop ts s = Inr (s', \<exists>t \<in> set ts. \<not> tn_run t) \<and> running s'"
proof (induction ts arbitrary: s)
  case (Cons t ts)
  obtain s1 where "server_run (tn_chunks t) (tn_opened t) s = Inr (0, s1)" "running s1"
    using server_run_running [OF Cons.prems] by blast
  then show ?case using Cons.IH [of s1] by auto
qed simp

lemma flush_returns: "serviceable s \<Longrightarrow> \<exists>out lg. rb_log_flush (sv_log s) = Some (out, lg)"
  using drain_log_total [of "lg_buf (sv_log s)"] by (auto simp: serviceable_def rb_log_flush_def)

lemma started_running:
  assumes "sv_this s" and "server_start a s = Inr (0, s')"
  shows "running s'"
proof -
  obtain s0 where "run_steps (start_steps a) s = Inr (True, s0)" 
    "s' = push LOG_INFO ''Servidor iniciado com sucesso'' ''server_start'' 159 s0" using start_ran [OF assms] by blast
  then show ?thesis using all_steps_run [of a s s0] start_serviceable [OF assms] start_fresh [OF assms] by (simp add: running_def objects_def numeral_eq_Suc)
qed


lemma steps_keep_this:
  "f \<in> set (start_steps a) \<Longrightarrow> f s = Inr (ok, s') \<Longrightarrow> sv_this s' = sv_this s"
  by (auto simp: start_steps_def step_defs Let_def and_then_Inr_iff split: prod.splits if_splits)

lemma run_steps_keep_this:
  "run_steps fs s = Inr (ok, s') \<Longrightarrow> set fs \<subseteq> set (start_steps a) \<Longrightarrow> sv_this s' = sv_this s"
proof (induction fs arbitrary: s)
  case (Cons f fs)
  then obtain ok1 s1 where s1: "f s = Inr (ok1, s1)" "(if ok1 then run_steps fs s1 else Inr (False, s1)) = Inr (ok, s')"
    by (auto simp: and_then_Inr_iff)
  then have "sv_this s1 = sv_this s" using steps_keep_this [of f a] Cons.prems(2) by simp
  then show ?case using Cons.IH [of s1] s1(2) Cons.prems(2) by (auto split: if_splits)
qed simp

lemma failed_start:
  assumes "sv_this s" and "server_start a s = Inr (EOF, s')"
  shows "sv_this s' \<and> \<not> sv_parser s'"
proof -
  obtain s1 where s1: "run_steps (start_steps a) s = Inr (False, s1)" "rollback s1 = Inr s'"
    using assms by (auto simp: server_start_def and_then_Inr_iff split: if_splits)
  have "sv_this s1" using run_steps_keep_this [OF s1(1), of a] assms(1) by simp
  then have "sv_this s'" "\<not> objects s' ! 0" using rollback_clears [OF s1(2)] by simp_all
  then show ?thesis by (simp add: objects_def)
qed

section \<open>Properties\<close>

text \<open>A server that starts keeps serving: as long as \<open>run\<close> is set the program runs, whatever the reloads found,
  and once it is cleared the program stops and returns 0. It neither faults nor blocks, whether or not
  the log thread runs.\<close>

lemma foreground_runs:
  assumes "process_args (ma_exists a) (getopt args) zero_cfg = Cont cfg" and "cfg_daemonize cfg = 0"
    and "ma_signals a" and "ma_server a"
    and "good_answers (ma_start a) (snd (new_dmmr_server (Some cfg) True (dm_server d)))"
    and "\<not> socket_used (dm_server d)"
  shows "\<exists>d'. main_program a args d = Inr (if \<forall>t \<in> set (ma_turns a). tn_run t then None else Some 0, d')"
proof -
  let ?s1 = "snd (new_dmmr_server (Some cfg) True (dm_server d))"
  have new: "new_dmmr_server (Some cfg) (ma_server a) (dm_server d) = (True, ?s1)" and s1: "sv_this ?s1"
    "sv_cfg_daemon ?s1 \<noteq> None" "\<not> socket_used ?s1"
    using assms(4,6) by (simp_all add: new_dmmr_server_def socket_used_def)
  obtain s0 where "run_steps (start_steps (ma_start a)) ?s1 = Inr (True, s0)"
    using steps_succeed [OF assms(5) s1(2,3)] by blast
  then obtain s2 where s2: "server_start (ma_start a) ?s1 = Inr (0, s2)" using s1(1) by (simp add: server_start_def)
  let ?p = "push (level_value rb_log_level_info)
      ''[INFO] Servidor rodando em foreground. Pressione Ctrl+C para sair...'' ''run_foreground'' 58 s2"
  have "running ?p" using started_running [OF s1(1) s2] by (auto simp: running_def)
  then obtain s3 where s3: "foreground_loop (ma_turns a) ?p = Inr (s3, \<exists>t \<in> set (ma_turns a). \<not> tn_run t)" "running s3"
    using foreground_loop_running by blast
  have "serviceable s3" "\<not> uses_freed s3" using s3(2) by (simp_all add: running_def)
  then obtain out s4 where s4: "server_stop (ma_thread a) s3 = Inr (out, s4)" "serviceable s4"
    using stop_returns by blast
  obtain out2 lg where lg: "rb_log_flush (sv_log s4) = Some (out2, lg)" using flush_returns [OF s4(2)] by blast
  have "\<exists>s'. run_foreground a cfg (dm_server d) = Inr (if \<forall>t \<in> set (ma_turns a). tn_run t then None else Some 0, s')"
    using new s2 s3(1) s4(1) lg assms(3) by (auto simp: run_foreground_def)
  then show ?thesis using assms(1,2) by (auto simp: main_program_def)
qed

text \<open>C32: Without a started server the program ends in a null parser. The daemon, once detached, runs a server
  that nothing starts; and the foreground ignores a failed start, so the first turn of the loop
  dereferences the parser that the rollback has cleared.\<close>

theorem unstarted_server_faults:
  assumes "process_args (ma_exists a) (getopt args) zero_cfg = Cont cfg" and "ma_server a"
    and "if cfg_daemonize cfg = 0
         then ma_signals a \<and> ma_turns a \<noteq> [] \<and>
              (\<exists>s'. server_start (ma_start a) (snd (new_dmmr_server (Some cfg) True (dm_server d))) = Inr (EOF, s'))
         else ma_daemon a \<and> ma_fork1 a = 0 \<and> ma_setsid a \<noteq> EOF \<and> ma_fork2 a = 0 \<and> \<not> sv_parser (dm_server d)"
  shows "main_program a args d = Inl Null_Deref"
proof (cases "cfg_daemonize cfg = 0")
  case True
  let ?s1 = "snd (new_dmmr_server (Some cfg) True (dm_server d))"
  have new: "new_dmmr_server (Some cfg) (ma_server a) (dm_server d) = (True, ?s1)" and s1: "sv_this ?s1"
    using assms(2) by (simp_all add: new_dmmr_server_def)
  obtain s' where s': "server_start (ma_start a) ?s1 = Inr (EOF, s')" using assms(3) True by auto
  obtain t ts where "ma_turns a = t # ts" using assms(3) True by (cases "ma_turns a") auto
  then show ?thesis using failed_start [OF s1 s'] s' new assms(1,3) True
    by (simp add: main_program_def run_foreground_def server_run_def server_proc_def)
next
  case False
  then show ?thesis using assms
    by (auto simp: main_program_def new_dmmr_daemon_def daemon_start_def daemonize_def new_dmmr_server_def daemon_run_def
        server_run_def server_proc_def)
qed

text \<open>A process as it starts, and the answers of a system where everything succeeds.\<close>

definition idle_daemon :: daemon where
  "idle_daemon = \<lparr>dm_this = False, dm_srv = False, dm_cfg = None, dm_server = idle_server\<lparr>sv_this := False, sv_cfg_daemon := None\<rparr>\<rparr>"

definition calm :: "turn list \<Rightarrow> main_answers" where
  "calm turns = \<lparr>ma_exists = (\<lambda>_. True), ma_signals = True, ma_server = True, ma_start = all_well, ma_turns = turns, ma_thread = False,
     ma_daemon = True, ma_fork1 = 0, ma_setsid = 7, ma_fork2 = 0, ma_errtext = [], ma_chunks = None, ma_opened = None\<rparr>"

lemma calm_is_good:
  "good_answers (ma_start (calm ts)) (snd (new_dmmr_server (Some zero_cfg) True (dm_server idle_daemon)))"
  "\<not> socket_used (dm_server idle_daemon)"
  "process_args (ma_exists (calm ts)) (getopt []) zero_cfg = Cont zero_cfg" "cfg_daemonize zero_cfg = 0"
  "ma_signals (calm ts)" "ma_server (calm ts)" "ma_turns (calm ts) = ts"
proof -
  have "run_loop [] st = st" for st :: "console_state \<times> configs"
    by (simp add: run_loop.simps [of "[]"] yylex.simps [of "[]"] longest_nil)
  then show "good_answers (ma_start (calm ts)) (snd (new_dmmr_server (Some zero_cfg) True (dm_server idle_daemon)))"
    "\<not> socket_used (dm_server idle_daemon)"
    by (simp_all add: good_answers_def calm_def all_well_def idle_daemon_def idle_server_def loopback_def new_dmmr_parser_def
        parser_load_config_def console_setup_def console_run_def zero_console_def small_config_def new_dmmr_server_def push_def
        socket_used_def zero_layer_def)
qed (simp_all add: calm_def zero_cfg_def)

theorem unstarted_server_faults_witness:
  "main_program (calm []) [''-d'', ''1''] idle_daemon = Inl Null_Deref"
proof -
  have "atoi ''1'' = 1" by code_simp
  then show ?thesis
    by (intro unstarted_server_faults [where cfg = "zero_cfg\<lparr>cfg_daemonize := 1\<rparr>"])
      (simp_all add: calm_def option_letter_def idle_daemon_def idle_server_def)
qed

end
