(* ===== verification/Orbit_Threads.thy ===== *)
theory Orbit_Threads
  imports Orbit_Sched
begin

text \<open>
  The threads around the scheduler of \<^verbatim>\<open>src/scheduler/dmmr_scheduler.c\<close>, interleaved: the reorder
  thread, the send thread, and any number of threads that insert and delete sessions, while others change
  the session table. A pass and a deletion hold the slots' mutex for their whole work and are one step. An
  insertion does not: it reads \<open>slots\<close> and the count before it locks, holds the mutex while it takes a
  slot, and writes the fields of the slot after it unlocked, so it is six steps.
\<close>

section \<open>Insertion in parts\<close>

text \<open>Where an insertion is: it has read the array's address and the count; it has the address of slot \<open>i\<close> and
  has written \<open>k\<close> fields; it is done. An address is known by the number of moves of the array before it
  was read: it dangles once \<open>realloc\<close> has moved the array again.\<close>

datatype insertion = Started session_id nat nat | Writing session_id nat nat nat | Finished

record sched_world =
  sw_sched :: scheduler
  sw_tab :: recno
  sw_moves :: nat
  sw_inserts :: "insertion list"

definition insert_start :: "session_id \<Rightarrow> sched_world \<Rightarrow> insertion" where
  "insert_start s w = Started s (sw_moves w) (unat (pl_count (sd_slots (sw_sched w))))"

text \<open>\<open>get_scheduler_connection\<close> from the lock on, with the slots it scans given by what was read before; a null
  result is dereferenced at once. \<open>moved\<close> tells whether \<open>realloc\<close>, if it is called, moves the array. The last
  component is the number of moves from then on.\<close>

definition insert_take ::
    "(nat \<Rightarrow> scheduler_connection) option \<Rightarrow> bool \<Rightarrow> nat \<Rightarrow> nat \<Rightarrow> sched_world \<Rightarrow> (nat \<times> scheduler \<times> nat) res" where
  "insert_take grown moved g c w =
     (let sd = sw_sched w
      in if g \<noteq> sw_moves w \<and> 0 < c then Inl Use_After_Free
         else and_then (pool_get (\<lambda>x. \<not> session_runs (sw_tab w) (sc_session x)) c grown (sd_slots sd)) (\<lambda>(slot, p).
                case slot of
                  None \<Rightarrow> Inl Null_Deref
                | Some i \<Rightarrow> Inr (i, sd\<lparr>sd_slots := p\<rparr>, sw_moves w + of_bool (moved \<and> pl_size p \<noteq> pl_size (sd_slots sd)))))"

text \<open>The four assignments of \<open>sched_insert\<close>, the \<open>k\<close>-th of them. The mutex of the slot, which is set up last,
  is not modelled.\<close>

definition insert_field :: "session_id \<Rightarrow> recno \<Rightarrow> u64 \<Rightarrow> nat \<Rightarrow> scheduler_connection \<Rightarrow> scheduler_connection res" where
  "insert_field s tab deadline k x =
     (if k = 0 then Inr (x\<lparr>sc_session := Some s\<rparr>)
      else if k = 3 then Inr (x\<lparr>sc_deadline_us := deadline\<rparr>)
      else case sp_pool (tab s) of
             None \<Rightarrow> Inl Null_Deref
           | Some [] \<Rightarrow> Inl Out_Of_Bounds
           | Some (n # _) \<Rightarrow>
              Inr (if k = 1 then x\<lparr>sc_last_active_time_us := nd_arrival n\<rparr> else x\<lparr>sc_realtime_deadline_us := nd_deadline n\<rparr>))"

definition insert_write :: "session_id \<Rightarrow> nat \<Rightarrow> nat \<Rightarrow> nat \<Rightarrow> sched_world \<Rightarrow> scheduler res" where
  "insert_write s g i k w =
     (let sd = sw_sched w; xs = pool_slots (sd_slots sd)
      in if g \<noteq> sw_moves w then Inl Use_After_Free
         else if length xs \<le> i then Inl Out_Of_Bounds
         else if k = 3 \<and> \<not> sd_this sd then Inl Null_Deref
         else and_then (insert_field s (sw_tab w) (sd_deadline sd) k (xs ! i)) (\<lambda>x.
                Inr (sd\<lparr>sd_slots := (sd_slots sd)\<lparr>pl_items := Some (xs[i := x])\<rparr>\<rparr>)))"

section \<open>Runs\<close>

text \<open>\<open>Take j\<close> and \<open>Write j\<close> are steps of the \<open>j\<close>-th insertion.\<close>

datatype sched_event = Start session_id | Take nat | Write nat | Delete session_id | Reorder | Send u64 | Table_Changes

inductive sched_step :: "sched_event \<Rightarrow> sched_world \<Rightarrow> sched_world \<Rightarrow> bool" where
  starts: "sched_step (Start s) w (w\<lparr>sw_inserts := sw_inserts w @ [insert_start s w]\<rparr>)"
| takes: "j < length (sw_inserts w) \<Longrightarrow> sw_inserts w ! j = Started s g c \<Longrightarrow>
    insert_take grown moved g c w = Inr (i, sd, g') \<Longrightarrow>
    sched_step (Take j) w (w\<lparr>sw_sched := sd, sw_moves := g', sw_inserts := (sw_inserts w)[j := Writing s g' i 0]\<rparr>)"
| writes: "j < length (sw_inserts w) \<Longrightarrow> sw_inserts w ! j = Writing s g i k \<Longrightarrow> insert_write s g i k w = Inr sd \<Longrightarrow>
    sched_step (Write j) w (w\<lparr>sw_sched := sd,
      sw_inserts := (sw_inserts w)[j := if k < 3 then Writing s g i (Suc k) else Finished]\<rparr>)"
| deletes: "sched_delete (Some s) (sw_sched w) = Inr sd \<Longrightarrow> sched_step (Delete s) w (w\<lparr>sw_sched := sd\<rparr>)"
| reorders: "reorder_pass (sw_sched w) = Inr sd \<Longrightarrow> sched_step Reorder w (w\<lparr>sw_sched := sd\<rparr>)"
| sends: "check_and_send_pass now (sw_sched w) (sw_tab w) = Inr (sd, tab, sent) \<Longrightarrow>
    sched_step (Send now) w (w\<lparr>sw_sched := sd, sw_tab := tab\<rparr>)"
| changes: "sched_step Table_Changes w (w\<lparr>sw_tab := tab\<rparr>)"

inductive_cases sched_stepE: "sched_step e w w'"

text \<open>The states a started scheduler can be in after \<open>n\<close> steps.\<close>

definition sched_begins :: "scheduler \<Rightarrow> recno \<Rightarrow> sched_world" where
  "sched_begins sd tab = \<lparr>sw_sched = sd, sw_tab = tab, sw_moves = 0, sw_inserts = []\<rparr>"

inductive sched_reach :: "nat \<Rightarrow> sched_world \<Rightarrow> bool" where
  begin_at: "pl_count (sd_slots sd0) = 0 \<Longrightarrow> sched_start True spawn sd0 = (0, sd) \<Longrightarrow> sched_reach 0 (sched_begins sd tab)"
| step: "sched_reach n w \<Longrightarrow> sched_step e w w' \<Longrightarrow> sched_reach (Suc n) w'"

section \<open>The invariant\<close>

text \<open>The array is there and has as many slots as its size says, the used slots are among them, and neither
  number grows faster than the steps. An insertion has read a count that was reached, and the slot it took
  lies in the array as long as its address is good.\<close>

definition sched_inv :: "nat \<Rightarrow> scheduler \<Rightarrow> bool" where
  "sched_inv n sd \<longleftrightarrow> sd_this sd \<and> pl_items (sd_slots sd) \<noteq> None \<and> wf_pool (sd_slots sd) \<and>
     unat (pl_count (sd_slots sd)) \<le> unat (pl_size (sd_slots sd)) \<and> unat (pl_count (sd_slots sd)) \<le> n \<and>
     0 < unat (pl_size (sd_slots sd)) \<and> unat (pl_size (sd_slots sd)) \<le> max 0x400 (2 * n)"

lemma sched_inv_items:
  assumes "sched_inv n sd" and "length ys = length (pool_slots (sd_slots sd))"
    and "sd' = sd\<lparr>sd_slots := (sd_slots sd)\<lparr>pl_items := Some ys\<rparr>\<rparr>"
  shows "sched_inv n sd'"
  using assms by (auto simp: sched_inv_def wf_pool_def pool_slots_def)

lemma sched_inv_weaken: "sched_inv n sd \<Longrightarrow> sched_inv (Suc n) sd"
  by (auto simp: sched_inv_def)

lemma sched_inv_start:
  "pl_count (sd_slots sd0) = 0 \<Longrightarrow> sched_start True spawn sd0 = (0, sd) \<Longrightarrow> sched_inv 0 sd"
  by (auto simp: sched_start_def sched_inv_def wf_pool_def pool_slots_def Let_def split: if_splits)

definition insertion_ok :: "sched_world \<Rightarrow> insertion \<Rightarrow> bool" where
  "insertion_ok w x \<longleftrightarrow> (case x of
     Started s g c \<Rightarrow> c \<le> unat (pl_count (sd_slots (sw_sched w)))
   | Writing s g i k \<Rightarrow> g \<le> sw_moves w \<and> (g = sw_moves w \<longrightarrow> i < length (pool_slots (sd_slots (sw_sched w))))
   | Finished \<Rightarrow> True)"

definition world_inv :: "nat \<Rightarrow> sched_world \<Rightarrow> bool" where
  "world_inv n w \<longleftrightarrow> sched_inv n (sw_sched w) \<and> (\<forall>x \<in> set (sw_inserts w). insertion_ok w x)"

lemma insertion_ok_mono:
  assumes "insertion_ok w x" and "unat (pl_count (sd_slots (sw_sched w))) \<le> unat (pl_count (sd_slots (sw_sched w')))"
    and "sw_moves w \<le> sw_moves w'"
    and "length (pool_slots (sd_slots (sw_sched w))) \<le> length (pool_slots (sd_slots (sw_sched w')))"
  shows "insertion_ok w' x"
  using assms by (auto simp: insertion_ok_def split: insertion.splits)

text \<open>Taking a slot: whatever is free, the pool stays well-formed and the slot lies in it.\<close>

lemma pool_take_inv:
  assumes wf: "wf_pool p" "pl_items p \<noteq> None" "unat (pl_count p) \<le> unat (pl_size p)" "unat (pl_count p) \<le> n"
      "0 < unat (pl_size p)" "unat (pl_size p) \<le> max 0x400 (2 * n)" and n: "n < 2 ^ 31 - 1"
    and found: "\<forall>i. found = Some i \<longrightarrow> i < unat (pl_count p)"
    and take: "pool_take found grown p = (Some i, p')"
  shows "i < length (pool_slots p') \<and> wf_pool p' \<and> pl_items p' \<noteq> None \<and> unat (pl_count p') \<le> unat (pl_size p') \<and>
     unat (pl_count p') \<le> Suc n \<and> 0 < unat (pl_size p') \<and> unat (pl_size p') \<le> max 0x400 (2 * Suc n) \<and>
     unat (pl_count p) \<le> unat (pl_count p') \<and> unat (pl_size p) \<le> unat (pl_size p')"
proof (cases found)
  case None
  let ?k = "unat (pl_count p)" and ?m = "unat (pl_size p)"
  have k: "unat (pl_count p + 1) = Suc ?k"
  proof -
    have "Suc ?k < 2 ^ LENGTH(32)" using assms(4) n by simp
    then show ?thesis by (simp add: unat_word_ariths)
  qed
  have len: "length (pool_slots p) = ?m" using wf(1) by (simp add: wf_pool_def)
  show ?thesis
  proof (cases "pl_size p \<le> pl_count p")
    case True
    then have eq: "?m = ?k" using wf(3) by (simp add: word_le_nat_alt)
    have "2 * ?m < 2 ^ LENGTH(32)" using eq wf(4) n by simp
    then have dbl: "unat (pl_size p * 2) = 2 * ?m" by (simp add: unat_word_ariths)
    obtain junk where junk: "grown = Some junk"
      using take None True by (cases grown) (auto simp: pool_take_def realloc_items_def Let_def)
    then have p': "p' = p\<lparr>pl_size := pl_size p * 2, pl_items := Some (List.take (2 * ?m) (pool_slots p) @ map junk [?m..<2 * ?m]),
        pl_count := pl_count p + 1\<rparr>" and i: "i = ?k"
      using take None True dbl len by (auto simp: pool_take_def realloc_items_def Let_def pool_slots_def split: option.splits)
    show ?thesis unfolding p' i wf_pool_def using dbl k eq len wf(4,5)
      by (simp add: pool_slots_def [of "_\<lparr>pl_count := _\<rparr>"] min_def)
  next
    case False
    then have less: "?k < ?m" by (simp add: word_le_nat_alt not_le)
    have p': "p' = p\<lparr>pl_count := pl_count p + 1\<rparr>" and i: "i = ?k"
      using take None False by (auto simp: pool_take_def Let_def)
    show ?thesis unfolding p' i using less k len wf by (simp add: wf_pool_def pool_slots_def)
  qed
next
  case (Some j)
  then show ?thesis using take found wf by (auto simp: pool_take_def wf_pool_def)
qed

lemma scan_free_bound: "scan_free free n i xs = Inr (Some j) \<Longrightarrow> j < i + n"
  by (induction free n i xs rule: scan_free.induct) (auto split: if_splits)

lemma insert_take_cases:
  assumes "insert_take grown moved g c w = Inr (i, sd, g')"
  shows "\<exists>found p'. scan_free (\<lambda>x. \<not> session_runs (sw_tab w) (sc_session x)) c 0 (pool_slots (sd_slots (sw_sched w))) = Inr found \<and>
     pool_take found grown (sd_slots (sw_sched w)) = (Some i, p') \<and> sd = (sw_sched w)\<lparr>sd_slots := p'\<rparr> \<and> sw_moves w \<le> g'"
  using assms
  by (auto simp: insert_take_def Let_def pool_get_def pool_slots_def and_then_Inr_iff split: if_splits prod.splits option.splits)

lemma insert_take_inv:
  assumes inv: "sched_inv n (sw_sched w)" and n: "n < 2 ^ 31 - 1" and c: "c \<le> unat (pl_count (sd_slots (sw_sched w)))"
    and take: "insert_take grown moved g c w = Inr (i, sd, g')"
  shows "sched_inv (Suc n) sd \<and> i < length (pool_slots (sd_slots sd)) \<and> sw_moves w \<le> g' \<and>
    unat (pl_count (sd_slots (sw_sched w))) \<le> unat (pl_count (sd_slots sd)) \<and>
    length (pool_slots (sd_slots (sw_sched w))) \<le> length (pool_slots (sd_slots sd))"
proof -
  let ?p = "sd_slots (sw_sched w)"
  obtain found p' where p': "scan_free (\<lambda>x. \<not> session_runs (sw_tab w) (sc_session x)) c 0 (pool_slots ?p) = Inr found"
    "pool_take found grown ?p = (Some i, p')" "sd = (sw_sched w)\<lparr>sd_slots := p'\<rparr>" "sw_moves w \<le> g'"
    using insert_take_cases [OF take] by blast
  have "\<forall>j. found = Some j \<longrightarrow> j < unat (pl_count ?p)" using scan_free_bound p'(1) c by fastforce
  then show ?thesis using pool_take_inv [of ?p n found grown i p'] inv n p' by (auto simp: sched_inv_def wf_pool_def)
qed

lemma insert_take_returns:
  assumes inv: "sched_inv n (sw_sched w)" and c: "c \<le> unat (pl_count (sd_slots (sw_sched w)))" and good: "g = sw_moves w \<or> c = 0"
  shows "\<exists>r. insert_take (Some junk) moved g c w = Inr r"
proof -
  let ?p = "sd_slots (sw_sched w)"
  have "c \<le> length (pool_slots ?p)" using inv c by (simp add: sched_inv_def wf_pool_def)
  then obtain found where "scan_free (\<lambda>x. \<not> session_runs (sw_tab w) (sc_session x)) c 0 (pool_slots ?p) = Inr found"
    by (simp add: scan_free_take)
  moreover have "fst (pool_take found (Some junk) ?p) \<noteq> None"
    by (auto simp: pool_take_def realloc_items_def Let_def split: option.split)
  ultimately show ?thesis using good
    by (cases "pool_take found (Some junk) ?p") (auto simp: insert_take_def Let_def pool_get_def pool_slots_def)
qed

section \<open>Every step keeps the invariant\<close>

definition same_array :: "scheduler \<Rightarrow> scheduler \<Rightarrow> bool" where
  "same_array sd sd' \<longleftrightarrow> pl_count (sd_slots sd') = pl_count (sd_slots sd) \<and>
     length (pool_slots (sd_slots sd')) = length (pool_slots (sd_slots sd))"

lemma length_clear_slot [simp]: "length (clear_slot s n xs) = length xs"
  by (induction s n xs rule: clear_slot.induct) auto

lemma check_slots_length:
  "check_slots due n i xs tab = Inr (ys, tab', sent) \<Longrightarrow> length ys = length xs"
  by (induction due n i xs tab arbitrary: ys tab' sent rule: check_slots.induct)
    (fastforce simp: and_then_Inr_iff split: if_splits prod.splits)+

lemma new_items:
  assumes "sched_inv n sd" and "length ys = length (pool_slots (sd_slots sd))"
    and "sd' = sd\<lparr>sd_slots := (sd_slots sd)\<lparr>pl_items := Some ys\<rparr>\<rparr>"
  shows "sched_inv n sd' \<and> same_array sd sd'"
  using sched_inv_items [OF assms] assms by (simp add: same_array_def pool_slots_def)

lemma write_inv:
  assumes "sched_inv n (sw_sched w)" and "insert_write s g i k w = Inr sd"
  shows "sched_inv n sd \<and> same_array (sw_sched w) sd"
proof -
  obtain x where "sd = (sw_sched w)\<lparr>sd_slots := (sd_slots (sw_sched w))\<lparr>pl_items := Some ((pool_slots (sd_slots (sw_sched w)))[i := x])\<rparr>\<rparr>"
    using assms(2) by (auto simp: insert_write_def Let_def and_then_Inr_iff split: if_splits)
  then show ?thesis using new_items [OF assms(1)] by simp
qed

lemma delete_inv:
  assumes "sched_inv n sd"
  shows "\<exists>sd'. sched_delete (Some s) sd = Inr sd' \<and> sched_inv n sd' \<and> same_array sd sd'"
proof -
  obtain xs where xs: "pl_items (sd_slots sd) = Some xs" "\<not> length xs < unat (pl_count (sd_slots sd))"
    using assms by (auto simp: sched_inv_def wf_pool_def pool_slots_def)
  let ?sd = "sd\<lparr>sd_slots := (sd_slots sd)\<lparr>pl_items := Some (clear_slot (Some s) (unat (pl_count (sd_slots sd))) xs)\<rparr>\<rparr>"
  have "sched_inv n ?sd \<and> same_array sd ?sd" using new_items [OF assms] xs(1) by (simp add: pool_slots_def)
  then show ?thesis using xs assms by (simp add: sched_delete_def Let_def same_array_def)
qed

lemma reorder_inv:
  assumes "sched_inv n sd"
  shows "\<exists>sd'. reorder_pass sd = Inr sd' \<and> sched_inv n sd' \<and> same_array sd sd'"
proof -
  let ?c = "unat (pl_count (sd_slots sd))"
  obtain xs where xs: "pl_items (sd_slots sd) = Some xs" "?c \<le> length xs"
    using assms by (auto simp: sched_inv_def wf_pool_def pool_slots_def)
  let ?sd = "sd\<lparr>sd_slots := (sd_slots sd)\<lparr>pl_items := Some (sort_key sc_realtime_deadline_us (take ?c xs) @ drop ?c xs)\<rparr>\<rparr>"
  have "sched_inv n ?sd \<and> same_array sd ?sd" using new_items [OF assms] xs by (simp add: pool_slots_def)
  then show ?thesis using reorder_pass_sorts [OF xs] by blast
qed

lemma send_inv:
  assumes "sched_inv n sd" and "check_and_send_pass now sd tab = Inr (sd', tab', sent)"
  shows "sched_inv n sd' \<and> same_array sd sd'"
proof (cases "pl_count (sd_slots sd) = 0")
  case True
  then show ?thesis using assms by (simp add: check_and_send_pass_def Let_def same_array_def)
next
  case False
  obtain xs ys where xs: "pl_items (sd_slots sd) = Some xs" "length ys = length xs"
    "sd' = sd\<lparr>sd_slots := (sd_slots sd)\<lparr>pl_items := Some ys\<rparr>\<rparr>"
    using assms(2) False check_slots_length
    by (fastforce simp: check_and_send_pass_def Let_def and_then_Inr_iff split: option.splits prod.splits)
  then show ?thesis using new_items [OF assms(1)] by (simp add: pool_slots_def)
qed

lemma world_inv_same:
  assumes "world_inv n w" and "sched_inv n sd \<and> same_array (sw_sched w) sd"
  shows "world_inv (Suc n) (w\<lparr>sw_sched := sd, sw_tab := tab\<rparr>)"
  using assms insertion_ok_mono [of w _ "w\<lparr>sw_sched := sd, sw_tab := tab\<rparr>"] sched_inv_weaken
  by (auto simp: world_inv_def same_array_def)

lemma sched_step_inv:
  assumes "sched_step e w w'" and "world_inv n w" and "n < 2 ^ 31 - 1"
  shows "world_inv (Suc n) w'"
  using assms(1)
proof (cases rule: sched_step.cases)
  case (starts s)
  then show ?thesis using assms(2) sched_inv_weaken by (auto simp: world_inv_def insertion_ok_def insert_start_def split: insertion.splits)
next
  case (takes j s g c grown moved i sd g')
  have "insertion_ok w (Started s g c)" using takes(3,4) assms(2) nth_mem by (fastforce simp: world_inv_def)
  then have c: "c \<le> unat (pl_count (sd_slots (sw_sched w)))" by (simp add: insertion_ok_def)
  have inv: "sched_inv n (sw_sched w)" using assms(2) by (simp add: world_inv_def)
  note took = insert_take_inv [OF inv assms(3) c takes(5)]
  have "insertion_ok w' x" if "x \<in> set (sw_inserts w)" for x
    using insertion_ok_mono [of w x w'] assms(2) that took takes(2) by (simp add: world_inv_def)
  moreover have "insertion_ok w' (Writing s g' i 0)" using took takes(2) by (simp add: insertion_ok_def)
  ultimately show ?thesis using took takes(2) by (auto simp: world_inv_def dest!: set_update_subset_insert [THEN subsetD])
next
  case (writes j s g i k sd)
  have ok: "insertion_ok w (Writing s g i k)" using writes(3,4) assms(2) nth_mem by (fastforce simp: world_inv_def)
  have inv: "sched_inv n (sw_sched w)" using assms(2) by (simp add: world_inv_def)
  note wrote = write_inv [OF inv writes(5)]
  have "insertion_ok w' x" if "x \<in> set (sw_inserts w)" for x
    using insertion_ok_mono [of w x w'] assms(2) that wrote writes(2) by (simp add: world_inv_def same_array_def)
  moreover have "insertion_ok w' (if k < 3 then Writing s g i (Suc k) else Finished)"
    using ok wrote writes(2) by (simp add: insertion_ok_def same_array_def)
  ultimately show ?thesis using wrote sched_inv_weaken writes(2)
    by (auto simp: world_inv_def dest!: set_update_subset_insert [THEN subsetD])
next
  case (deletes s sd)
  then show ?thesis using delete_inv [of n "sw_sched w" s] world_inv_same [OF assms(2), of sd "sw_tab w"] assms(2)
    by (auto simp: world_inv_def)
next
  case (reorders sd)
  then show ?thesis using reorder_inv [of n "sw_sched w"] world_inv_same [OF assms(2), of sd "sw_tab w"] assms(2)
    by (auto simp: world_inv_def)
next
  case (sends now sd tab sent)
  then show ?thesis using send_inv [of n "sw_sched w"] world_inv_same [OF assms(2), of sd tab] assms(2)
    by (auto simp: world_inv_def)
next
  case (changes tab)
  then show ?thesis using world_inv_same [OF assms(2), of "sw_sched w" tab] assms(2) by (auto simp: world_inv_def same_array_def)
qed

lemma sched_reach_inv: "sched_reach n w \<Longrightarrow> n < 2 ^ 31 \<Longrightarrow> world_inv n w"
proof (induction rule: sched_reach.induct)
  case (begin_at sd0 spawn sd tab)
  then show ?case using sched_inv_start by (simp add: world_inv_def sched_begins_def)
next
  case (step n w e w')
  then show ?case using sched_step_inv [of e w w' n] by simp
qed

section \<open>An insertion by itself\<close>

text \<open>With no other step between its parts an insertion is \<open>sched_insert\<close>.\<close>

fun insert_writes :: "nat list \<Rightarrow> session_id \<Rightarrow> nat \<Rightarrow> nat \<Rightarrow> sched_world \<Rightarrow> scheduler res" where
  "insert_writes [] s g i w = Inr (sw_sched w)"
| "insert_writes (k # ks) s g i w = and_then (insert_write s g i k w) (\<lambda>sd. insert_writes ks s g i (w\<lparr>sw_sched := sd\<rparr>))"

lemma insert_alone:
  "(case insert_start s w of Started s g c \<Rightarrow>
      and_then (insert_take grown moved g c w) (\<lambda>(i, sd, g'). insert_writes [0, 1, 2, 3] s g' i (w\<lparr>sw_sched := sd, sw_moves := g'\<rparr>))
    | x \<Rightarrow> Inl Indeterminate) = Inr sd' \<longleftrightarrow>
   sched_insert grown (Some s) (sw_tab w) (sw_sched w) = Inr (0, sd')"
proof -
  let ?sd = "sw_sched w" and ?free = "\<lambda>x. \<not> session_runs (sw_tab w) (sc_session x)"
  show ?thesis
  proof (cases "pool_get ?free (unat (pl_count (sd_slots ?sd))) grown (sd_slots ?sd)")
    case (Inl f)
    then show ?thesis by (simp add: insert_start_def insert_take_def sched_insert_def get_scheduler_connection_def Let_def)
  next
    case (Inr r)
    obtain slot p where r: "r = (slot, p)" by fastforce
    show ?thesis
    proof (cases slot)
      case None
      then show ?thesis using Inr r by (simp add: insert_start_def insert_take_def sched_insert_def get_scheduler_connection_def Let_def)
    next
      case (Some i)
      show ?thesis
      proof (cases "pl_items p")
        case None
        then show ?thesis using Inr r Some
          by (auto simp: insert_start_def insert_take_def sched_insert_def get_scheduler_connection_def Let_def insert_write_def pool_slots_def
              split: option.splits)
      next
        case (Some xs)
        then show ?thesis using Inr r \<open>slot = Some i\<close>
          by (cases "length xs \<le> i"; cases "sd_this ?sd"; cases "sp_pool (sw_tab w s)"; cases "the (sp_pool (sw_tab w s))")
            (simp_all add: insert_start_def insert_take_def sched_insert_def get_scheduler_connection_def Let_def insert_write_def
              insert_field_def pool_slots_def)
      qed
    qed
  qed
qed

section \<open>An insertion that a reorder pass overtakes\<close>

definition late_table :: "node \<Rightarrow> recno" where
  "late_table nd = (\<lambda>_. zero_session\<lparr>sp_run := True, sp_pool := Some [nd], sp_pool_size := 1, sp_pool_count := 1,
     sp_session := zero_cb\<lparr>cb_proto := proto_tcp_t, cb_linked := Some (Tcp_Pool 0)\<rparr>\<rparr>)"

definition idle_scheduler :: scheduler where
  "idle_scheduler = \<lparr>sd_slots = zero_pool, sd_run = False, sd_this = True, sd_deadline = 0, sd_cfg = Some (small_config 4)\<rparr>"

text \<open>A scheduler with at most two used slots, and two running sessions whose packets have the deadline 5.\<close>

definition race :: "scheduler_connection \<Rightarrow> scheduler_connection \<Rightarrow> u32 \<Rightarrow> insertion list \<Rightarrow> sched_world" where
  "race x y c ins =
     \<lparr>sw_sched = idle_scheduler\<lparr>sd_run := True, sd_slots := \<lparr>pl_items = Some (x # y # replicate 1022 zero_slot), pl_size = 0x400, pl_count = c\<rparr>\<rparr>,
      sw_tab = late_table (zero_node\<lparr>nd_deadline := 5\<rparr>), sw_moves = 0, sw_inserts = ins\<rparr>"

abbreviation session_a :: session_id where "session_a \<equiv> (2, proto_arr_tcp_t)"
abbreviation session_b :: session_id where "session_b \<equiv> (3, proto_arr_tcp_t)"

abbreviation slot_of :: "session_id \<Rightarrow> scheduler_connection" where
  "slot_of s \<equiv> zero_slot\<lparr>sc_session := Some s, sc_realtime_deadline_us := 5\<rparr>"

lemma race_begins: "sched_reach 0 (race zero_slot zero_slot 0 [])"
proof -
  have "replicate 0x400 zero_slot = zero_slot # zero_slot # replicate 1022 zero_slot"
    using replicate_Suc [of 1023 zero_slot] replicate_Suc [of 1022 zero_slot] by simp
  then have "race zero_slot zero_slot 0 [] =
      sched_begins (snd (sched_start True 0 idle_scheduler)) (late_table (zero_node\<lparr>nd_deadline := 5\<rparr>))"
    by (simp add: race_def sched_begins_def sched_start_def idle_scheduler_def zero_pool_def Let_def)
  moreover have "sched_start True 0 idle_scheduler = (0, snd (sched_start True 0 idle_scheduler))"
    by (simp add: sched_start_def idle_scheduler_def Let_def)
  ultimately show ?thesis using sched_reach.begin_at [of idle_scheduler 0] by (simp add: idle_scheduler_def zero_pool_def)
qed

lemma race_first:
  assumes "sched_reach 0 (race zero_slot zero_slot 0 [])"
  shows "sched_reach 6 (race (slot_of session_a) zero_slot 1 [Finished])"
proof -
  let ?w = "\<lambda>x k. race x zero_slot 1 [Writing session_a 0 0 k]"
  have "sched_reach 1 (race zero_slot zero_slot 0 [Started session_a 0 0])"
    using sched_reach.step [OF assms sched_step.starts [of session_a]] by (simp add: race_def insert_start_def)
  moreover have "insert_take None False 0 0 (race zero_slot zero_slot 0 [Started session_a 0 0]) =
      Inr (0, sw_sched (?w zero_slot 0), 0)"
    by (simp add: insert_take_def race_def pool_get_def pool_take_def Let_def)
  ultimately have r2: "sched_reach 2 (?w zero_slot 0)"
    using sched_reach.step [OF _ sched_step.takes [of 0 _ session_a 0 0 None False], of 1 "race zero_slot zero_slot 0 [Started session_a 0 0]"]
    by (simp add: race_def numeral_2_eq_2)
  have wr: "sched_reach (Suc n) (race y zero_slot 1 [if k < 3 then Writing session_a 0 0 (Suc k) else Finished])"
    if "sched_reach n (?w x k)" "insert_field session_a (late_table (zero_node\<lparr>nd_deadline := 5\<rparr>)) 0 k x = Inr y" for n x y k
    using sched_reach.step [OF that(1) sched_step.writes [of 0 _ session_a 0 0 k "sw_sched (?w y k)"]] that(2)
    by (simp add: race_def insert_write_def pool_slots_def idle_scheduler_def split: if_splits)
  note step = insert_field_def late_table_def zero_node_def
  have "sched_reach 3 (?w (zero_slot\<lparr>sc_session := Some session_a\<rparr>) 1)"
    using wr [OF r2] by (simp add: step)
  from wr [OF this] have "sched_reach 4 (?w (zero_slot\<lparr>sc_session := Some session_a\<rparr>) 2)"
    by (simp add: step zero_slot_def numeral_2_eq_2)
  from wr [OF this] have "sched_reach 5 (?w (slot_of session_a) 3)" by (simp add: step)
  from wr [OF this] show ?thesis by (simp add: step zero_slot_def)
qed

lemma sc_realtime_zero: "sc_realtime_deadline_us zero_slot = 0"
  by (simp add: zero_slot_def)

lemma take_two: "take 2 (x # y # zs) = [x, y]"
  by (simp add: numeral_2_eq_2)

lemma race_overtaken: "sched_reach 9 (race zero_slot (slot_of session_a) 2 [Finished, Writing session_b 0 1 0])"
proof -
  let ?w6 = "race (slot_of session_a) zero_slot 1 [Finished]" and ?w7 = "race (slot_of session_a) zero_slot 1 [Finished, Started session_b 0 1]"
  let ?w8 = "race (slot_of session_a) zero_slot 2 [Finished, Writing session_b 0 1 0]"
  let ?w9 = "race zero_slot (slot_of session_a) 2 [Finished, Writing session_b 0 1 0]"
  have r7: "sched_reach 7 ?w7"
    using sched_reach.step [OF race_first [OF race_begins] sched_step.starts [of session_b]] by (simp add: race_def insert_start_def)
  have "insert_take None False 0 1 ?w7 = Inr (1, sw_sched ?w8, 0)"
    by (simp add: insert_take_def race_def pool_get_def pool_take_def Let_def session_runs_def late_table_def word_le_nat_alt)
  then have r8: "sched_reach 8 ?w8"
    using sched_reach.step [OF r7 sched_step.takes [of 1 _ session_b 0 1 None False]] by (simp add: race_def)
  have "sort_key sc_realtime_deadline_us (take 2 (slot_of session_a # zero_slot # replicate 1022 zero_slot)) = [zero_slot, slot_of session_a]"
    by (simp add: take_two sc_realtime_zero)
  then have "reorder_pass (sw_sched ?w8) = Inr (sw_sched ?w9)"
    using reorder_pass_sorts [of "sw_sched ?w8" "slot_of session_a # zero_slot # replicate 1022 zero_slot"]
    by (simp add: race_def take_two)
  from sched_reach.step [OF r8 sched_step.reorders [OF this]] show ?thesis by (simp add: race_def)
qed

section \<open>Properties\<close>

text \<open>C9: However its threads interleave, a started scheduler never leaves its slot array: in every state
  reached in fewer than 2^31 - 1 steps of the parts of insertions, of deletions, passes and changes of the
  sessions, the used slots lie in the array, and a reorder pass and a deletion complete. An insertion under
  way takes a slot, when memory is there, and writes each field, when its session has a node, as long as
  the array is where it was when the insertion read its address; once another insertion has grown and moved
  the array, it uses freed memory, in its scan unless it read the count 0, and in every write. Apart from such an insertion, one without memory and one of a session
  without a node, only the send pass can fault.\<close>

theorem scheduler_stays_in_bounds:
  assumes "sched_reach n w" and "n < 2 ^ 31 - 1"
  shows "unat (pl_count (sd_slots (sw_sched w))) \<le> length (pool_slots (sd_slots (sw_sched w))) \<and>
     (\<exists>sd. reorder_pass (sw_sched w) = Inr sd) \<and> (\<exists>sd. sched_delete (Some d) (sw_sched w) = Inr sd) \<and>
     (\<forall>x \<in> set (sw_inserts w). case x of
        Started s g c \<Rightarrow>
          if g = sw_moves w \<or> c = 0 then \<forall>junk moved. \<exists>r. insert_take (Some junk) moved g c w = Inr r
          else \<forall>grown moved. insert_take grown moved g c w = Inl Use_After_Free
      | Writing s g i k \<Rightarrow>
          if g = sw_moves w then (\<exists>nd ns. sp_pool (sw_tab w s) = Some (nd # ns)) \<longrightarrow> (\<exists>sd. insert_write s g i k w = Inr sd)
          else insert_write s g i k w = Inl Use_After_Free
      | Finished \<Rightarrow> True)"
proof -
  have inv: "sched_inv n (sw_sched w)" and ok: "\<And>x. x \<in> set (sw_inserts w) \<Longrightarrow> insertion_ok w x"
    using sched_reach_inv [OF assms(1)] assms(2) by (simp_all add: world_inv_def)
  have used: "unat (pl_count (sd_slots (sw_sched w))) \<le> length (pool_slots (sd_slots (sw_sched w)))"
    using inv by (simp add: sched_inv_def wf_pool_def)
  have take_ok: "if g = sw_moves w \<or> c = 0 then \<forall>junk moved. \<exists>r. insert_take (Some junk) moved g c w = Inr r
      else \<forall>grown moved. insert_take grown moved g c w = Inl Use_After_Free" if "Started s g c \<in> set (sw_inserts w)" for s g c
    using ok [OF that] insert_take_returns [OF inv, of c g] by (auto simp: insertion_ok_def insert_take_def Let_def)
  have write_ok: "if g = sw_moves w then (\<exists>nd ns. sp_pool (sw_tab w s) = Some (nd # ns)) \<longrightarrow> (\<exists>sd. insert_write s g i k w = Inr sd)
      else insert_write s g i k w = Inl Use_After_Free" if "Writing s g i k \<in> set (sw_inserts w)" for s g i k
    using ok [OF that] inv by (auto simp: insertion_ok_def insert_write_def insert_field_def Let_def sched_inv_def)
  show ?thesis
  proof (intro conjI ballI)
    fix x
    assume x: "x \<in> set (sw_inserts w)"
    show "case x of
        Started s g c \<Rightarrow>
          if g = sw_moves w \<or> c = 0 then \<forall>junk moved. \<exists>r. insert_take (Some junk) moved g c w = Inr r
          else \<forall>grown moved. insert_take grown moved g c w = Inl Use_After_Free
      | Writing s g i k \<Rightarrow>
          if g = sw_moves w then (\<exists>nd ns. sp_pool (sw_tab w s) = Some (nd # ns)) \<longrightarrow> (\<exists>sd. insert_write s g i k w = Inr sd)
          else insert_write s g i k w = Inl Use_After_Free
      | Finished \<Rightarrow> True"
    proof (cases x)
      case (Started s g c)
      show ?thesis unfolding Started insertion.case by (rule take_ok [OF x [unfolded Started]])
    next
      case (Writing s g i k)
      show ?thesis unfolding Writing insertion.case by (rule write_ok [OF x [unfolded Writing]])
    qed simp
  qed (use used reorder_inv [OF inv] delete_inv [OF inv, of d] in blast)+
qed

text \<open>The session \<open>a\<close> is inserted; the insertion of \<open>b\<close> takes slot 1, which has the deadline 0 until it is
  written; a reorder pass moves it to the front and \<open>a\<close> to slot 1. The insertion then writes its session over
  \<open>a\<close>, which is in no used slot any more.\<close>

theorem scheduler_stays_in_bounds_witness:
  "\<exists>w sd. sched_reach 9 w \<and> Writing session_b 0 1 0 \<in> set (sw_inserts w) \<and>
     sc_session (pool_slots (sd_slots (sw_sched w)) ! 1) = Some session_a \<and> insert_write session_b 0 1 0 w = Inr sd \<and>
     map sc_session (take (unat (pl_count (sd_slots sd))) (pool_slots (sd_slots sd))) = [None, Some session_b]"
proof -
  let ?w = "race zero_slot (slot_of session_a) 2 [Finished, Writing session_b 0 1 0]"
  have "sw_moves ?w = 0" "\<exists>nd ns. sp_pool (sw_tab ?w session_b) = Some (nd # ns)" "Writing session_b 0 1 0 \<in> set (sw_inserts ?w)"
    by (simp_all add: race_def late_table_def)
  then obtain sd where sd: "insert_write session_b 0 1 0 ?w = Inr sd"
    using scheduler_stays_in_bounds [OF race_overtaken, of session_a] by fastforce
  then have "map sc_session (take (unat (pl_count (sd_slots sd))) (pool_slots (sd_slots sd))) = [None, Some session_b]"
    by (auto simp: insert_write_def insert_field_def race_def pool_slots_def zero_slot_def take_two)
  then show ?thesis using race_overtaken sd
    by (intro exI [of _ ?w] exI [of _ sd] conjI) (simp_all add: race_def pool_slots_def)
qed

end
