(* ===== verification/Orbit_Deadlines.thy ===== *)
theory Orbit_Deadlines
  imports Orbit_Threads
begin

text \<open>
  Rounds of the scheduler of \<^verbatim>\<open>src/scheduler/dmmr_scheduler.c\<close>: a pass of the reorder thread followed by
  one of the send thread. A round needs no sorted array, the reorder pass makes it so. What a round
  leaves behind for the next is shown here: a slot that was sent keeps the deadline 0 that
  \<open>sched_trigger_snd\<close> writes, through every interleaving in which no reorder pass comes between the parts of
  an insertion, so its session is due in each later round whatever the clock and the deadlines of its
  packets say.
\<close>

section \<open>Rounds\<close>



definition due_slot :: "u64 \<Rightarrow> scheduler \<Rightarrow> scheduler_connection \<Rightarrow> bool" where
  "due_slot now sd x \<longleftrightarrow> (\<exists>cfg. sd_cfg sd = Some cfg \<and>
     sc_realtime_deadline_us x \<le> now + cfg_scheduler_preemptive_deadline cfg)"



section \<open>The deadline 0\<close>






















section \<open>Two clocks\<close>

text \<open>The deadline a received packet carries is the real time in nanoseconds (\<open>udp_receiver_turn\<close>), and the one
  of its session's slot is the same number (\<open>sched_insert\<close>), but the send thread compares it with the time
  since boot in microseconds. As long as the machine has not been up for longer than the real time since
  1970, a slot with such a deadline is not due; the first five seconds of 1970 apart.\<close>

lemma monotonic_time:
  assumes "sec < 2 ^ 33" and "nsec < 10 ^ 9"
  shows "unat (get_monotonic_time_us (of_nat sec) (of_nat nsec)) = sec * 1000000 + nsec div 1000"
proof -
  have s: "unat (of_nat sec :: u64) = sec" and n: "unat (of_nat nsec :: u64) = nsec"
    using assms by (simp_all add: unat_of_nat_less)
  have "unat (of_nat nsec div 1000 :: u64) = nsec div 1000" by (simp add: unat_div n)
  then show ?thesis using assms s by (simp add: get_monotonic_time_us_def unat_word_ariths)
qed

lemma packet_deadline_not_due:
  assumes "sc_realtime_deadline_us x = of_nat (rsec * 10 ^ 9 + rnsec)" and "rnsec < 10 ^ 9" and "rsec < 2 ^ 33"
    and "sec \<le> rsec" and "nsec < 10 ^ 9" and "5 \<le> rsec"
    and "sd_cfg sd = Some cfg" and "unat (cfg_scheduler_preemptive_deadline cfg) < 2 ^ 32"
  shows "\<not> due_slot (get_monotonic_time_us (of_nat sec) (of_nat nsec)) sd x"
proof -
  let ?pre = "cfg_scheduler_preemptive_deadline cfg" and ?now = "get_monotonic_time_us (of_nat sec) (of_nat nsec)"
  have now: "unat ?now = sec * 1000000 + nsec div 1000" using monotonic_time assms(3-5) by simp
  have "unat (?now + ?pre) = sec * 1000000 + nsec div 1000 + unat ?pre"
    using now assms(3-5,8) by (simp add: unat_word_ariths)
  also have "\<dots> < rsec * 10 ^ 9 + rnsec"
  proof -
    have "sec * 1000000 + nsec div 1000 + unat ?pre < rsec * 1000000 + 1000000 + 2 ^ 32" using assms(4,5,8) by simp
    also have "\<dots> \<le> rsec * 10 ^ 9" using assms(6) by simp
    finally show ?thesis by simp
  qed
  also have "\<dots> = unat (sc_realtime_deadline_us x)" unfolding assms(1)
    by (rule unat_of_nat_less [symmetric]) (use assms(2,3) in simp)
  finally show ?thesis by (simp add: due_slot_def assms(7) word_le_nat_alt)
qed

section \<open>Properties\<close>




end
