(* ===== verification/Orbit_Connection.thy ===== *)
theory Orbit_Connection
  imports Orbit_Receivers Orbit_Plugin
begin

text \<open>
  The whole \<open>tcp_receiver_thread\<close> of \<^verbatim>\<open>src/socket/socket_tcp.c\<close>, from the manager that
  \<open>init_node_recv_manager\<close> prepares to the close callback, over the state of the socket layer. What each
  \<open>readv\<close> returns is one event. The receive callback is the program's own, \<open>on_receive_connection_cb\<close>,
  where the block has one; every service and every connection the program opens registers it.
\<close>

section \<open>The thread\<close>

record tcp_event =
  te_ret :: int
  te_bytes :: "u8 list"

type_synonym layer_callback = "cb_ptr \<Rightarrow> socket_layer \<Rightarrow> socket_layer res"

definition program_receive :: "(nat \<Rightarrow> node_ptr option) option \<Rightarrow> layer_callback" where
  "program_receive grown p st =
     (case on_receive_connection_cb grown (Some p) st of None \<Rightarrow> Inl No_Return | Some r \<Rightarrow> r)"

text \<open>The loop over as many turns as there are events: whether it goes on, and the state. A \<open>continue\<close>
  cannot happen, the stored size is unsigned (\<open>tcp_receiver_turn\<close>).\<close>

fun tcp_receiver_loop :: "layer_callback \<Rightarrow> cb_ptr \<Rightarrow> tcp_event list \<Rightarrow> socket_layer \<Rightarrow> (bool \<times> socket_layer) res" where
  "tcp_receiver_loop on_receive p [] st = Inr (True, st)"
| "tcp_receiver_loop on_receive p (e # es) st =
     and_then (deref (read_cb (sk_net st)) (Some p)) (\<lambda>tn.
     and_then (tcp_receiver_turn (te_ret e) (te_bytes e) tn) (\<lambda>(more, tn1).
       (let st1 = st\<lparr>sk_net := write_cb p tn1 (sk_net st)\<rparr>
        in if \<not> more then Inr (False, st1)
           else and_then (if cb_on_receive tn1 \<noteq> None then on_receive p st1 else Inr st1) (\<lambda>st2.
                and_then (deref (read_cb (sk_net st2)) (Some p)) (\<lambda>tn2.
                  if tcp_receiver_runs tn2 then tcp_receiver_loop on_receive p es st2 else Inr (False, st2))))))"

definition tcp_receiver_thread ::
    "layer_callback \<Rightarrow> (cb_ptr \<Rightarrow> net \<Rightarrow> net res) \<Rightarrow> cb_ptr option \<Rightarrow> tcp_event list \<Rightarrow> socket_layer \<Rightarrow> (bool \<times> socket_layer) res" where
  "tcp_receiver_thread on_receive on_close arg es st =
     (case arg of
        None \<Rightarrow> Inl Null_Deref
      | Some p \<Rightarrow>
          and_then (tcp_receiver_loop on_receive p es st) (\<lambda>(going, st1).
            if going then Inr (True, st1)
            else and_then (tcp_receiver_done on_close p (sk_net st1)) (\<lambda>n. Inr (False, st1\<lparr>sk_net := n\<rparr>))))"

section \<open>Turns\<close>

text \<open>What \<open>readv\<close> can return, other than the end of the stream.\<close>

definition read_result :: "tcp_event \<Rightarrow> bool" where
  "read_result e \<longleftrightarrow> -1 \<le> te_ret e \<and> te_ret e \<noteq> 0 \<and> te_ret e \<le> int VALUE_BUFFER_SIZE"

lemma read_result_nonzero: "read_result e \<Longrightarrow> (word_of_int (te_ret e) :: u32) \<noteq> 0"
proof
  assume r: "read_result e" and "(word_of_int (te_ret e) :: u32) = 0"
  then have "(word_of_int (te_ret e) :: u32) = word_of_int 0" by simp
  then have "take_bit 32 (te_ret e) = 0" by (simp only: word_of_int_eq_iff) simp
  then show False using r
    by (cases "te_ret e = -1") (auto simp: read_result_def take_bit_int_eq_self VALUE_BUFFER_SIZE_def DEFAULT_MTU_def MAX_HEADER_OVERHEAD_def)
qed

lemma read_turn:
  assumes "taken k (cb_recv tn)" and "k < 256" and "cb_node tn \<noteq> None" and "read_result e"
  shows "\<exists>m. tcp_receiver_turn (te_ret e) (te_bytes e) tn = Inr (True, tn\<lparr>cb_recv := m\<rparr>) \<and> taken (Suc k) m \<and>
     rm_nodes m = (rm_nodes (cb_recv tn))[k := store_received (te_ret e) (te_bytes e) (rm_nodes (cb_recv tn) ! k)]"
proof -
  obtain m where m: "get_free_node (Some (cb_recv tn)) (Some 0) = (Some (of_nat k), Some m, Some (of_nat k))"
    "taken (Suc k) m" "rm_nodes m = rm_nodes (cb_recv tn)"
    using take_next [OF assms(1,2)] by blast
  have "unat (of_nat k :: u8) = k" using assms(2) by (simp add: unat_of_nat_less)
  moreover have "tcp_receiver_turn (te_ret e) (te_bytes e) tn =
      Inr (True, tn\<lparr>cb_recv := m\<lparr>rm_nodes := (rm_nodes m)[k := store_received (te_ret e) (te_bytes e) (rm_nodes m ! k)]\<rparr>\<rparr>)"
    using m(1) assms(3) read_result_nonzero [OF assms(4)] calculation
    by (auto simp: tcp_receiver_turn_def Let_def store_received_def)
  moreover have "taken (Suc k) (m\<lparr>rm_nodes := ns\<rparr>)" for ns using m(2) by (simp add: taken_def)
  ultimately show ?thesis using m(3) by (intro exI conjI) auto
qed

lemma full_turn: "taken 256 (cb_recv tn) \<Longrightarrow> tcp_receiver_turn ret bytes tn = Inl Null_Deref"
  using take_none [of "cb_recv tn"] by (simp add: tcp_receiver_turn_def)

lemma no_node_turn: "cb_node tn = None \<Longrightarrow> tcp_receiver_turn ret bytes tn = Inl Null_Deref"
  by (cases "get_free_node (Some (cb_recv tn)) (Some 0)") (auto simp: tcp_receiver_turn_def split: option.splits)

lemma program_receive_keeps_net:
  "(\<exists>f. program_receive grown p st = Inl f) \<or> (\<exists>st'. program_receive grown p st = Inr st' \<and> sk_net st' = sk_net st)"
proof (cases "get_struct_node_buffer grown st")
  case (Inr r)
  then obtain nb st1 where r: "get_struct_node_buffer grown st = Inr (nb, st1)" by (cases r) simp
  show ?thesis using get_struct_node_buffer_frame [OF r] r
    by (cases nb; cases "deref (read_cb (sk_net st1)) (Some p)")
      (auto simp: program_receive_def on_receive_connection_cb_def receive_loop.simps [of True grown p 0 st] receive_turn_held)
qed (auto simp: program_receive_def on_receive_connection_cb_def receive_loop.simps [of True grown p 0 st] receive_turn_held)

section \<open>Runs\<close>

lemma loop_turn:
  assumes "read_cb (sk_net st) p = Some tn" and "tcp_receiver_turn (te_ret e) (te_bytes e) tn = Inr (True, tn1)" and "cb_run tn1"
    and st1_def: "st1 = st\<lparr>sk_net := write_cb p tn1 (sk_net st)\<rparr>"
    and r: "(if cb_on_receive tn1 \<noteq> None then on_receive p st1 else Inr st1) = r"
  shows "r = Inl f \<Longrightarrow> tcp_receiver_loop on_receive p (e # es) st = Inl f"
    and "r = Inr st2 \<Longrightarrow> sk_net st2 = sk_net st1 \<Longrightarrow> tcp_receiver_loop on_receive p (e # es) st = tcp_receiver_loop on_receive p es st2"
    and "read_cb (sk_net st1) p = Some tn1"
proof -
  show read: "read_cb (sk_net st1) p = Some tn1" using read_own_write [OF assms(1)] by (simp add: st1_def)
  have loop: "tcp_receiver_loop on_receive p (e # es) st = and_then r (\<lambda>st2.
      and_then (deref (read_cb (sk_net st2)) (Some p)) (\<lambda>tn2.
        if tcp_receiver_runs tn2 then tcp_receiver_loop on_receive p es st2 else Inr (False, st2)))"
    unfolding tcp_receiver_loop.simps r [symmetric] st1_def
    by (simp only: deref_def assms(1,2) and_then_simps Let_def prod.case option.case not_True_eq_False if_False)
  show "r = Inl f \<Longrightarrow> tcp_receiver_loop on_receive p (e # es) st = Inl f" by (simp only: loop and_then_simps)
  show "r = Inr st2 \<Longrightarrow> sk_net st2 = sk_net st1 \<Longrightarrow> tcp_receiver_loop on_receive p (e # es) st = tcp_receiver_loop on_receive p es st2"
    using assms(3) by (simp add: loop deref_def read tcp_receiver_runs_def del: tcp_receiver_loop.simps)
qed

lemma loop_fault:
  "read_cb (sk_net st) p = Some tn \<Longrightarrow> tcp_receiver_turn (te_ret e) (te_bytes e) tn = Inl f \<Longrightarrow>
   tcp_receiver_loop on_receive p (e # es) st = Inl f"
  by (simp add: deref_def)

text \<open>With a callback that faults or leaves the blocks alone, no run gets past the last slot.\<close>

lemma reads_end:
  assumes keeps: "\<And>st. (\<exists>f. on_receive p st = Inl f) \<or> (\<exists>st'. on_receive p st = Inr st' \<and> sk_net st' = sk_net st)"
  shows "read_cb (sk_net st) p = Some tn \<Longrightarrow> taken k (cb_recv tn) \<Longrightarrow> cb_run tn \<Longrightarrow> \<forall>e \<in> set es. read_result e \<Longrightarrow>
     256 < k + length es \<Longrightarrow> \<exists>f. tcp_receiver_loop on_receive p es st = Inl f"
proof (induction es arbitrary: k tn st)
  case Nil
  then show ?case by (simp add: taken_def)
next
  case (Cons e es)
  show ?case
  proof (cases "k < 256 \<and> cb_node tn \<noteq> None")
    case True
    then obtain m where m: "tcp_receiver_turn (te_ret e) (te_bytes e) tn = Inr (True, tn\<lparr>cb_recv := m\<rparr>)" "taken (Suc k) m"
      using read_turn [OF Cons.prems(2)] Cons.prems(4) by (metis list.set_intros(1))
    have "cb_run (tn\<lparr>cb_recv := m\<rparr>)" using Cons.prems(3) by simp
    note turn = loop_turn [where on_receive = on_receive, OF Cons.prems(1) m(1) this refl refl]
    define st1 where "st1 = st\<lparr>sk_net := write_cb p (tn\<lparr>cb_recv := m\<rparr>) (sk_net st)\<rparr>"
    show ?thesis
    proof (cases "if cb_on_receive (tn\<lparr>cb_recv := m\<rparr>) \<noteq> None then on_receive p st1 else Inr st1")
      case (Inl f)
      then show ?thesis using turn(1) unfolding st1_def by blast
    next
      case (Inr st2)
      then have net: "sk_net st2 = sk_net st1" using keeps [of st1] by (auto split: if_splits)
      then have "\<exists>f. tcp_receiver_loop on_receive p es st2 = Inl f"
        using Cons.IH [of st2 "tn\<lparr>cb_recv := m\<rparr>" "Suc k"] turn(3) m(2) Cons.prems by (simp add: st1_def)
      then show ?thesis using turn(2) [OF Inr [unfolded st1_def] net [unfolded st1_def]] by simp
    qed
  next
    case False
    moreover have "k = 256" if "\<not> k < 256" using that Cons.prems(2) by (simp add: taken_def)
    ultimately have "\<exists>f. tcp_receiver_turn (te_ret e) (te_bytes e) tn = Inl f"
      using full_turn no_node_turn Cons.prems(2) by blast
    then show ?thesis using loop_fault [of st p tn e] Cons.prems(1) by blast
  qed
qed

text \<open>Without a callback the reads fill the manager one slot after the other.\<close>

lemma reads_fill:
  "read_cb (sk_net st) p = Some tn \<Longrightarrow> taken k (cb_recv tn) \<Longrightarrow> cb_run tn \<Longrightarrow> cb_node tn \<noteq> None \<Longrightarrow> cb_on_receive tn = None \<Longrightarrow>
   length (rm_nodes (cb_recv tn)) = 256 \<Longrightarrow> \<forall>e \<in> set es. read_result e \<Longrightarrow> k + length es \<le> 256 \<Longrightarrow>
   \<exists>st' m. tcp_receiver_loop on_receive p es st = Inr (True, st') \<and> read_cb (sk_net st') p = Some (tn\<lparr>cb_recv := m\<rparr>) \<and>
     taken (k + length es) m \<and> (\<forall>i. i < k \<or> k + length es \<le> i \<longrightarrow> rm_nodes m ! i = rm_nodes (cb_recv tn) ! i) \<and>
     (\<forall>i < length es. nd_value_size (rm_nodes m ! (k + i)) = word_of_int (te_ret (es ! i)))"
proof (induction es arbitrary: k tn st)
  case Nil
  then show ?case by (intro exI [of _ st] exI [of _ "cb_recv tn"]) simp
next
  case (Cons e es)
  let ?nd = "store_received (te_ret e) (te_bytes e) (rm_nodes (cb_recv tn) ! k)"
  obtain m where m: "tcp_receiver_turn (te_ret e) (te_bytes e) tn = Inr (True, tn\<lparr>cb_recv := m\<rparr>)" "taken (Suc k) m"
    "rm_nodes m = (rm_nodes (cb_recv tn))[k := ?nd]"
    using read_turn [OF Cons.prems(2) _ Cons.prems(4), of e] Cons.prems(7,8) by auto
  have "cb_run (tn\<lparr>cb_recv := m\<rparr>)" using Cons.prems(3) by simp
  note turn = loop_turn [where on_receive = on_receive, OF Cons.prems(1) m(1) this refl refl]
  define st1 where "st1 = st\<lparr>sk_net := write_cb p (tn\<lparr>cb_recv := m\<rparr>) (sk_net st)\<rparr>"
  have step: "tcp_receiver_loop on_receive p (e # es) st = tcp_receiver_loop on_receive p es st1"
    unfolding st1_def by (rule turn(2)) (simp_all add: Cons.prems(5))
  obtain st' m' where ih: "tcp_receiver_loop on_receive p es st1 = Inr (True, st')"
    "read_cb (sk_net st') p = Some (tn\<lparr>cb_recv := m'\<rparr>)" "taken (Suc k + length es) m'"
    "\<forall>i. i < Suc k \<or> Suc k + length es \<le> i \<longrightarrow> rm_nodes m' ! i = rm_nodes m ! i"
    "\<forall>i < length es. nd_value_size (rm_nodes m' ! (Suc k + i)) = word_of_int (te_ret (es ! i))"
    using Cons.IH [of st1 "tn\<lparr>cb_recv := m\<rparr>" "Suc k"] turn(3) m(2,3) Cons.prems by (auto simp: st1_def)
  have "rm_nodes m' ! i = rm_nodes (cb_recv tn) ! i" if "i < k \<or> k + length (e # es) \<le> i" for i
    using ih(4) [rule_format, of i] that m(3) by auto
  moreover have "nd_value_size (rm_nodes m' ! (k + i)) = word_of_int (te_ret ((e # es) ! i))" if "i < length (e # es)" for i
    using ih(4) [rule_format, of k] ih(5) [rule_format, of "i - 1"] that m(3) Cons.prems(6,8)
    by (cases i) (auto simp: store_received_def)
  moreover have "taken (k + length (e # es)) m'" using ih(3) by simp
  ultimately show ?case using step ih(1,2) by metis
qed

section \<open>Properties\<close>

text \<open>C23: No TCP connection survives 257 reads. Each read, of data or failed, takes a slot of the receive manager
  that neither the thread nor the program's receive callback gives back; a failed read is not told from
  data, its size is stored unsigned as 4294967295, and the thread goes on with the broken connection. The
  read after the last slot is made through the null pointer that \<open>get_free_node\<close> returned. The thread
  faults then at the latest, whatever the results of the reads and the close callback are, unless the peer
  closes the stream first; without a receive callback exactly then.\<close>

theorem connection_faults_after_256_reads:
  assumes "read_cb (sk_net st) p = Some tn" and "init_node_recv_manager (Some m0) = (0, Some (cb_recv tn))" and "cb_run tn"
    and "\<forall>e \<in> set es. read_result e"
  shows "(256 < length es \<longrightarrow> (\<exists>f. tcp_receiver_thread (program_receive grown) on_close (Some p) es st = Inl f)) \<and>
     (length es \<le> 256 \<and> wf_recv (cb_recv tn) \<and> cb_node tn \<noteq> None \<and> cb_on_receive tn = None \<longrightarrow>
       (\<exists>st' tn'. tcp_receiver_thread (program_receive grown) on_close (Some p) es st = Inr (True, st') \<and>
          read_cb (sk_net st') p = Some tn' \<and> cb_run tn' \<and>
          (\<forall>i < length es. slot_busy (cb_recv tn') (of_nat i) \<and>
             nd_value_size (rm_nodes (cb_recv tn') ! i) = word_of_int (te_ret (es ! i)))))"
proof (intro conjI impI)
  have start: "taken 0 (cb_recv tn)" using assms(2) [symmetric] by (simp add: init_node_recv_manager_def taken_def)
  show "\<exists>f. tcp_receiver_thread (program_receive grown) on_close (Some p) es st = Inl f" if "256 < length es"
  proof -
    have "\<exists>f. tcp_receiver_loop (program_receive grown) p es st = Inl f"
      by (rule reads_end [OF program_receive_keeps_net assms(1) start assms(3,4)]) (use that in simp)
    then show ?thesis by (auto simp: tcp_receiver_thread_def)
  qed
  assume len: "length es \<le> 256 \<and> wf_recv (cb_recv tn) \<and> cb_node tn \<noteq> None \<and> cb_on_receive tn = None"
  obtain st' m where run: "tcp_receiver_loop (program_receive grown) p es st = Inr (True, st')"
    "read_cb (sk_net st') p = Some (tn\<lparr>cb_recv := m\<rparr>)" "taken (length es) m"
    "\<forall>i < length es. nd_value_size (rm_nodes m ! i) = word_of_int (te_ret (es ! i))"
    using reads_fill [OF assms(1) start assms(3) _ _ _ assms(4), of "program_receive grown"] len by (auto simp: wf_recv_def)
  have "slot_busy m (of_nat i)" if "i < length es" for i
    using taken_busy [OF run(3), of "of_nat i"] that len by (simp add: unat_of_nat_less)
  then show "\<exists>st' tn'. tcp_receiver_thread (program_receive grown) on_close (Some p) es st = Inr (True, st') \<and>
      read_cb (sk_net st') p = Some tn' \<and> cb_run tn' \<and>
      (\<forall>i < length es. slot_busy (cb_recv tn') (of_nat i) \<and>
         nd_value_size (rm_nodes (cb_recv tn') ! i) = word_of_int (te_ret (es ! i)))"
    using run assms(3) by (intro exI [of _ st'] exI [of _ "tn\<lparr>cb_recv := m\<rparr>"]) (simp add: tcp_receiver_thread_def)
qed

text \<open>A connection of the pool whose peer is gone: every read fails.\<close>

definition reset_layer :: socket_layer where
  "reset_layer = zero_layer\<lparr>sk_net := zero_net\<lparr>nt_tcp := \<lparr>pl_items = Some [zero_cb\<lparr>cb_node := Some 0, cb_run := True\<rparr>], pl_size = 1, pl_count = 1\<rparr>\<rparr>\<rparr>"

theorem connection_faults_after_256_reads_witness:
  "(\<exists>f. tcp_receiver_thread (program_receive None) (\<lambda>_. Inr) (Some (Tcp_Pool 0)) (replicate 257 \<lparr>te_ret = -1, te_bytes = []\<rparr>) reset_layer = Inl f) \<and>
   (\<exists>st' tn'. tcp_receiver_thread (program_receive None) (\<lambda>_. Inr) (Some (Tcp_Pool 0)) [\<lparr>te_ret = -1, te_bytes = []\<rparr>] reset_layer = Inr (True, st') \<and>
     read_cb (sk_net st') (Tcp_Pool 0) = Some tn' \<and> nd_value_size (rm_nodes (cb_recv tn') ! 0) = 0xFFFFFFFF)"
proof -
  let ?tn = "zero_cb\<lparr>cb_node := Some 0, cb_run := True\<rparr>" and ?e = "\<lparr>te_ret = -1, te_bytes = []\<rparr>"
  have tn: "read_cb (sk_net reset_layer) (Tcp_Pool 0) = Some ?tn" "cb_run ?tn"
    "init_node_recv_manager (Some zero_recv) = (0, Some (cb_recv ?tn))"
    by (simp_all add: reset_layer_def read_cb_def nth_opt_def pool_slots_def init_node_recv_manager_def zero_cb_def zero_recv_def)
  have one: "\<forall>e \<in> set [?e]. read_result e" and many: "\<forall>e \<in> set (replicate 257 ?e). read_result e"
    by (simp_all add: read_result_def)
  have "wf_recv (cb_recv ?tn)" "cb_node ?tn \<noteq> None" "cb_on_receive ?tn = None" using wf_zero_recv by (simp_all add: zero_cb_def)
  then show ?thesis
    using connection_faults_after_256_reads [OF tn(1,3,2) many, of None "\<lambda>_. Inr"]
      connection_faults_after_256_reads [OF tn(1,3,2) one, of None "\<lambda>_. Inr"] by auto
qed

end
