(* ===== verification/Orbit_Fields.thy ===== *)
theory Orbit_Fields
  imports Orbit_Types
begin

text \<open>
  \<open>pop_struct_node\<close> of \<^verbatim>\<open>src/include/maps/map_node_to_node.h\<close>, which fills a node from an array of
  tagged fields. \<open>struct node_field_arr\<close> and its enumeration are declared nowhere in the repository: an
  element is a parameter, with its tag and the members of its \<open>value\<close> union read by the functions
  of a view.
\<close>

section \<open>The code\<close>

text \<open>The labels of the \<open>switch\<close>, and any other tag.\<close>

datatype node_field_t =
    node_arrival_t | node_deadline_t | node_value_size_t | node_family_t | node_fd_t | node_port_t
  | node_flags_t | node_ipv6_t | node_ipv4_t | node_value_t | node_other_t

record 'f field_view =
  fv_type :: "'f \<Rightarrow> node_field_t"
  fv_u64 :: "'f \<Rightarrow> u64"
  fv_u32 :: "'f \<Rightarrow> u32"
  fv_u16 :: "'f \<Rightarrow> u16"
  fv_u8 :: "'f \<Rightarrow> u8"
  fv_ipv6 :: "'f \<Rightarrow> u8 list"
  fv_ipv4 :: "'f \<Rightarrow> u8 list"
  fv_value :: "'f \<Rightarrow> u8 list"
  fv_family :: "u32 \<Rightarrow> ezp_addr_type"

text \<open>One turn of the loop for the element \<open>x\<close>; \<open>fv_family\<close> is the cast of a number to the enumeration.\<close>

definition set_node_field :: "'f field_view \<Rightarrow> 'f \<Rightarrow> node \<Rightarrow> node" where
  "set_node_field v x dst =
     (case fv_type v x of
        node_arrival_t \<Rightarrow> dst\<lparr>nd_arrival := fv_u64 v x\<rparr>
      | node_deadline_t \<Rightarrow> dst\<lparr>nd_deadline := fv_u64 v x\<rparr>
      | node_value_size_t \<Rightarrow> dst\<lparr>nd_value_size := fv_u32 v x\<rparr>
      | node_family_t \<Rightarrow> dst\<lparr>nd_family := fv_family v (fv_u32 v x)\<rparr>
      | node_fd_t \<Rightarrow> dst\<lparr>nd_fd := sint (fv_u32 v x)\<rparr>
      | node_port_t \<Rightarrow> dst\<lparr>nd_port := fv_u16 v x\<rparr>
      | node_flags_t \<Rightarrow> dst\<lparr>nd_flags := fv_u8 v x\<rparr>
      | node_ipv6_t \<Rightarrow> dst\<lparr>nd_ipv6 := fv_ipv6 v x\<rparr>
      | node_ipv4_t \<Rightarrow> dst\<lparr>nd_ipv4 := fv_ipv4 v x\<rparr>
      | node_value_t \<Rightarrow> dst\<lparr>nd_value := fv_value v x\<rparr>
      | node_other_t \<Rightarrow> dst)"

text \<open>The do-while: \<open>a\<close> walks from \<open>arr\<close> to \<open>a0\<close>, but the \<open>switch\<close> reads \<open>arr\<close>. The number is that of the turns
  left.\<close>

fun pop_fields :: "'f field_view \<Rightarrow> 'f list \<Rightarrow> nat \<Rightarrow> node \<Rightarrow> node res" where
  "pop_fields v arr 0 dst = Inr dst"
| "pop_fields v arr (Suc n) dst =
     (case arr of [] \<Rightarrow> Inl Out_Of_Bounds | x # _ \<Rightarrow> pop_fields v arr n (set_node_field v x dst))"

definition pop_struct_node :: "'f field_view \<Rightarrow> node option \<Rightarrow> 'f list option \<Rightarrow> u32 \<Rightarrow> node option res" where
  "pop_struct_node v dst arr cnt =
     (case (dst, arr) of
        (Some d, Some xs) \<Rightarrow> if cnt \<noteq> 0 then and_then (pop_fields v xs (unat cnt) d) (\<lambda>d'. Inr (Some d')) else Inr dst
      | _ \<Rightarrow> Inr dst)"

section \<open>Only the first field is stored\<close>

lemma set_node_field_idem: "set_node_field v x (set_node_field v x d) = set_node_field v x d"
  by (simp add: set_node_field_def split: node_field_t.split)

lemma pop_fields_first: "pop_fields v (x # xs) (Suc n) d = Inr (set_node_field v x d)"
  by (induction n arbitrary: d) (simp_all add: set_node_field_idem)

text \<open>What the caller means is \<open>fold (set_node_field v)\<close> over the first \<open>cnt\<close> elements. The function
  stores the first element however many there are: it agrees exactly when the others change nothing.\<close>

lemma pop_struct_node_first:
  assumes "cnt \<noteq> 0"
  shows "pop_struct_node v (Some d) (Some (x # xs)) cnt = Inr (Some (set_node_field v x d))"
proof -
  obtain n where "unat cnt = Suc n" using assms by (metis not0_implies_Suc unat_eq_0)
  then show ?thesis using assms pop_fields_first [of v x xs n d] by (simp add: pop_struct_node_def)
qed

lemma pop_struct_node_fields:
  assumes "unat cnt = length (x # xs)"
  shows "pop_struct_node v (Some d) (Some (x # xs)) cnt = Inr (Some (fold (set_node_field v) (x # xs) d)) \<longleftrightarrow>
     fold (set_node_field v) xs (set_node_field v x d) = set_node_field v x d"
proof -
  have "cnt \<noteq> 0" using assms by auto
  then show ?thesis by (auto simp: pop_struct_node_first)
qed

end
