(* ===== verification/Orbit_Manager.thy ===== *)
theory Orbit_Manager
  imports Orbit_Plugin
begin

text \<open>
  The functions of \<^verbatim>\<open>src/session/dmmr_session_connection_manager.c\<close> that the manager's object hands to
  the plugin and that forward to the socket layer and the scheduler through the pointers \<open>_sock\<close> and
  \<open>_sched\<close>, which are null until a manager is made. The plugin's model calls the targets directly; with
  the pointers set that is the same.
\<close>

definition trunk_uris :: "string \<Rightarrow> string \<Rightarrow> 's \<Rightarrow> 's" where
  "trunk_uris accept_uri connect_uri st = st"

definition socket_close :: "string \<Rightarrow> 's \<Rightarrow> 's" where
  "socket_close uri st = st"

definition socket_start_accept_from_uri :: "bool \<Rightarrow> answers \<Rightarrow> string option \<Rightarrow> callbacks \<Rightarrow> net \<Rightarrow> opened res" where
  "socket_start_accept_from_uri sock an uri cbs st =
     (if \<not> sock then Inl Null_Deref else start_accept_from_uri an uri cbs st)"

definition socket_create_dispatcher_from_uri :: "bool \<Rightarrow> answers \<Rightarrow> string option \<Rightarrow> callbacks \<Rightarrow> net \<Rightarrow> opened res" where
  "socket_create_dispatcher_from_uri sock an uri cbs st =
     (if \<not> sock then Inl Null_Deref else create_dispatcher_from_uri an uri cbs st)"

definition manager_sched_delete :: "bool \<Rightarrow> session_id option \<Rightarrow> scheduler \<Rightarrow> scheduler res" where
  "manager_sched_delete sched pool sd = (if \<not> sched then Inl Null_Deref else sched_delete pool sd)"

text \<open>Deleting through the manager, with its own \<open>sched_delete\<close>, is the deletion of \<open>Orbit_Sched\<close>.\<close>

lemma sm_delete_through_manager:
  "sm_delete_session hp u st sd =
     (if u = None then Inr (st, sd)
      else and_then (get_session hp u) (\<lambda>s.
             if s \<noteq> None then and_then (manager_sched_delete True s sd) (\<lambda>sd1. Inr (delete_session s st, sd1))
             else Inr (st, sd)))"
  by (simp add: sm_delete_session_def manager_sched_delete_def cong: if_cong)

text \<open>A URI opened through the manager fails with \<open>EOF\<close>, and without a system call, when it names no protocol.\<close>

lemma forwarded_bad_uri:
  assumes "fst (parse_protocol_host_port (Some uri) (Some (replicate 0x100 NUL)) 0x100 (Some 0)) = proto_none_t"
  shows "socket_start_accept_from_uri True an (Some uri) cbs st = Inr (Some EOF, st, [], None)"
    and "socket_create_dispatcher_from_uri True an (Some uri) cbs st = Inr (Some EOF, st, [], None)"
  using assms by (auto simp: socket_start_accept_from_uri_def socket_create_dispatcher_from_uri_def
      start_accept_from_uri_def create_dispatcher_from_uri_def split: prod.splits)

end
