(* ===== verification/Orbit_Process.thy ===== *)
theory Orbit_Process
  imports Orbit_Main
begin

text \<open>
  The foreground process of \<^verbatim>\<open>src/main.c\<close> with its signals: \<open>handle_signal\<close> and the variable \<open>run\<close>. The
  handler is installed for two signals before the server is made, and \<open>run\<close> is set just before the loop;
  every other signal has its default action. The signals that arrive from the first to the second, and
  those that arrive in the sleep of each turn of the loop, are given as lists of numbers. What is
  modelled is the main thread: a fault in a thread the server has started ends the process too.
\<close>

section \<open>Signals\<close>

text \<open>\<open>SIGINT\<close> and \<open>SIGTERM\<close> as numbered on Linux.\<close>

definition stop_signal :: "int \<Rightarrow> bool" where
  "stop_signal signo \<longleftrightarrow> signo = 2 \<or> signo = 15"

definition main_handle_signal :: "int \<Rightarrow> int \<Rightarrow> int" where
  "main_handle_signal signo run = (if stop_signal signo then 0 else run)"

text \<open>The two calls of \<open>signal\<close>; a signal without a handler leaves the variable alone.\<close>

definition handler :: "int \<Rightarrow> (int \<Rightarrow> int \<Rightarrow> int) option" where
  "handler signo = (if signo = 2 \<or> signo = 15 then Some main_handle_signal else None)"

definition arrives :: "int \<Rightarrow> int \<Rightarrow> int" where
  "arrives signo run = (case handler signo of Some h \<Rightarrow> h signo run | None \<Rightarrow> run)"

text \<open>The default action of a signal, from 1 to 64, ends the process, but for \<open>SIGCHLD\<close>, \<open>SIGCONT\<close>,
  \<open>SIGURG\<close> and \<open>SIGWINCH\<close>, which are ignored, and the four from \<open>SIGSTOP\<close> to \<open>SIGTTOU\<close>, which suspend it.\<close>

definition deadly :: "int \<Rightarrow> bool" where
  "deadly signo \<longleftrightarrow> 1 \<le> signo \<and> signo \<le> 64 \<and> handler signo = None \<and> signo \<notin> {17, 18, 23, 28} \<and> signo \<notin> {19, 20, 21, 22}"

text \<open>The statements on \<open>run\<close>, which is 0 at first: the handler while the server is made and started, then
  \<open>run = !0\<close>.\<close>

definition run_at_loop :: "int list \<Rightarrow> int" where
  "run_at_loop early = (let run = fold arrives early 0; run = 1 in run)"

text \<open>What the condition of the loop reads after each turn.\<close>

fun run_flags :: "int \<Rightarrow> int list list \<Rightarrow> bool list" where
  "run_flags run [] = []"
| "run_flags run (sigs # rest) = (let run1 = fold arrives sigs run in (run1 \<noteq> 0) # run_flags run1 rest)"

text \<open>\<open>main\<close> under signals that do not end the process; the turns of the answers say what each reload finds.\<close>

definition signalled :: "int list \<Rightarrow> int list list \<Rightarrow> main_answers \<Rightarrow> main_answers" where
  "signalled early late a = a\<lparr>ma_turns := map2 (\<lambda>t r. t\<lparr>tn_run := r\<rparr>) (ma_turns a) (run_flags (run_at_loop early) late)\<rparr>"

text \<open>The turns before the first signal that ends the process. If the program still runs after them, it is
  killed.\<close>

datatype ending = Running | Returned int | Killed int

definition turns_before :: "int list \<Rightarrow> int list list \<Rightarrow> int list list" where
  "turns_before early late =
     (if \<exists>n \<in> set early. deadly n then [] else takeWhile (\<lambda>sigs. \<forall>n \<in> set sigs. \<not> deadly n) late)"

definition main_with_signals ::
    "int list \<Rightarrow> int list list \<Rightarrow> main_answers \<Rightarrow> string list \<Rightarrow> daemon \<Rightarrow> (ending \<times> daemon) res" where
  "main_with_signals early late a args d =
     and_then (main_program (signalled early (turns_before early late) a) args d) (\<lambda>(ret, d').
       Inr (case ret of Some status \<Rightarrow> Returned status
            | None \<Rightarrow> (case find deadly (early @ concat late) of Some n \<Rightarrow> Killed n | None \<Rightarrow> Running), d'))"

lemma arrives_run: "arrives signo run = (if stop_signal signo then 0 else run)"
  by (simp add: arrives_def handler_def main_handle_signal_def stop_signal_def)

lemma handled_signals: "fold arrives sigs run = (if \<exists>n \<in> set sigs. stop_signal n then 0 else run)"
  by (induction sigs arbitrary: run) (auto simp: arrives_run)

lemma run_flags_stop: "run \<noteq> 0 \<Longrightarrow> False \<in> set (run_flags run late) \<longleftrightarrow> (\<exists>sigs \<in> set late. \<exists>n \<in> set sigs. stop_signal n)"
  by (induction late) (auto simp: handled_signals Let_def)

lemma length_run_flags [simp]: "length (run_flags run late) = length late"
  by (induction late arbitrary: run) (simp_all add: Let_def)

lemma map2_run: "length rs \<le> length ts \<Longrightarrow> map tn_run (map2 (\<lambda>t r. t\<lparr>tn_run := r\<rparr>) ts rs) = rs"
proof (induction rs arbitrary: ts)
  case (Cons r rs)
  then show ?case by (cases ts) auto
qed simp

lemma signalled_runs:
  assumes "length late \<le> length (ma_turns a)"
  shows "(\<forall>t \<in> set (ma_turns (signalled early late a)). tn_run t) \<longleftrightarrow> \<not> (\<exists>sigs \<in> set late. \<exists>n \<in> set sigs. stop_signal n)"
proof -
  have "map tn_run (ma_turns (signalled early late a)) = run_flags (run_at_loop early) late"
    using map2_run [of "run_flags (run_at_loop early) late" "ma_turns a"] assms by (simp add: signalled_def)
  then have flags: "tn_run ` set (ma_turns (signalled early late a)) = set (run_flags (run_at_loop early) late)" by (metis list.set_map)
  have "(\<forall>t \<in> set (ma_turns (signalled early late a)). tn_run t) \<longleftrightarrow> False \<notin> tn_run ` set (ma_turns (signalled early late a))"
    by (auto simp: image_iff)
  also have "\<dots> \<longleftrightarrow> \<not> (\<exists>sigs \<in> set late. \<exists>n \<in> set sigs. stop_signal n)"
    unfolding flags using run_flags_stop [of "run_at_loop early" late] by (simp add: run_at_loop_def)
  finally show ?thesis .
qed

text \<open>What the turns come to, turn by turn: the first one in which a signal ends the process, or asks it to
  stop, decides.\<close>

fun fate :: "int list list \<Rightarrow> ending" where
  "fate [] = Running"
| "fate (sigs # rest) =
     (case find deadly sigs of Some n \<Rightarrow> Killed n
      | None \<Rightarrow> if \<exists>n \<in> set sigs. stop_signal n then Returned 0 else fate rest)"

lemma find_append: "find P (xs @ ys) = (case find P xs of Some x \<Rightarrow> Some x | None \<Rightarrow> find P ys)"
  by (induction xs) simp_all

lemma find_none: "find P xs = None \<longleftrightarrow> (\<forall>x \<in> set xs. \<not> P x)"
  by (induction xs) auto

lemma find_hit: "find P xs = Some x \<Longrightarrow> x \<in> set xs \<and> P x"
  by (induction xs) (auto split: if_splits)

lemma fate_of_turns:
  "fate late = (if \<exists>sigs \<in> set (takeWhile (\<lambda>sigs. \<forall>n \<in> set sigs. \<not> deadly n) late). \<exists>n \<in> set sigs. stop_signal n then Returned 0
     else case find deadly (concat late) of Some n \<Rightarrow> Killed n | None \<Rightarrow> Running)"
proof (induction late)
  case (Cons sigs rest)
  show ?case
  proof (cases "find deadly sigs")
    case None
    then have "\<forall>n \<in> set sigs. \<not> deadly n" by (simp add: find_none)
    then show ?thesis using None Cons.IH by (simp add: find_append)
  next
    case (Some n)
    then have "\<not> (\<forall>n \<in> set sigs. \<not> deadly n)" using find_hit by fastforce
    then show ?thesis using Some by (simp add: find_append)
  qed
qed simp

section \<open>Properties\<close>

text \<open>C4: In the foreground, the main thread of a server that starts runs until a signal ends it. After any
  number of turns it still runs if none arrived in them but those that are ignored or suspend the process,
  whatever the reloads found. In the first turn with another one, if it is \<open>SIGINT\<close> or \<open>SIGTERM\<close> the program
  stops and returns 0, and if it is any other, \<open>SIGHUP\<close> among them, the process is killed; the main thread
  neither faults nor blocks. \<open>SIGINT\<close> or \<open>SIGTERM\<close> while the server is made and started is lost,
  since \<open>run\<close> is set after it; one of the others kills the process then too.\<close>

theorem foreground_runs_until_signal:
  assumes "process_args (ma_exists a) (getopt args) zero_cfg = Cont cfg" and "cfg_daemonize cfg = 0"
    and "ma_signals a" and "ma_server a"
    and "good_answers (ma_start a) (snd (new_dmmr_server (Some cfg) True (dm_server d)))"
    and "\<not> socket_used (dm_server d)" and "length late = length (ma_turns a)"
  shows "\<exists>d'. main_with_signals early late a args d =
     Inr (case find deadly early of Some n \<Rightarrow> Killed n | None \<Rightarrow> fate late, d')"
proof -
  let ?late = "turns_before early late" let ?a = "signalled early ?late a"
  have same: "ma_exists ?a = ma_exists a" "ma_signals ?a = ma_signals a" "ma_server ?a = ma_server a" "ma_start ?a = ma_start a"
    by (simp_all add: signalled_def)
  have "length ?late \<le> length (ma_turns a)" using assms(7) length_takeWhile_le [of _ late] by (simp add: turns_before_def)
  note runs = signalled_runs [OF this, of early]
  have "\<exists>d'. main_program ?a args d = Inr (if \<forall>t \<in> set (ma_turns ?a). tn_run t then None else Some 0, d')"
    by (rule foreground_runs [where cfg = cfg]) (simp_all only: same assms not_False_eq_True)
  then obtain d' where d': "main_program ?a args d =
      Inr (if \<exists>sigs \<in> set ?late. \<exists>n \<in> set sigs. stop_signal n then Some 0 else None, d')"
    unfolding runs by (cases "\<exists>sigs \<in> set ?late. \<exists>n \<in> set sigs. stop_signal n") (simp_all only: simp_thms if_True if_False, blast+)
  show ?thesis
  proof (cases "find deadly early")
    case None
    then have "?late = takeWhile (\<lambda>sigs. \<forall>n \<in> set sigs. \<not> deadly n) late" by (auto simp: turns_before_def find_none)
    then show ?thesis using None d' fate_of_turns [of late] by (auto simp: main_with_signals_def find_append)
  next
    case (Some n)
    then have "?late = []" using find_none [of deadly early] by (auto simp: turns_before_def)
    then show ?thesis using Some d' by (simp add: main_with_signals_def find_append)
  qed
qed

text \<open>One turn each: \<open>SIGTERM\<close> before the loop and \<open>SIGCHLD\<close> in it, \<open>SIGWINCH\<close> and \<open>SIGTERM\<close> in it, \<open>SIGHUP\<close> in it.\<close>

theorem foreground_runs_until_signal_witness:
  "(\<exists>d. main_with_signals [15] [[17]] (calm [\<lparr>tn_chunks = None, tn_opened = None, tn_run = True\<rparr>]) [] idle_daemon = Inr (Running, d)) \<and>
   (\<exists>d. main_with_signals [] [[28, 15]] (calm [\<lparr>tn_chunks = None, tn_opened = None, tn_run = True\<rparr>]) [] idle_daemon = Inr (Returned 0, d)) \<and>
   (\<exists>d. main_with_signals [] [[1]] (calm [\<lparr>tn_chunks = None, tn_opened = None, tn_run = True\<rparr>]) [] idle_daemon = Inr (Killed 1, d))"
proof -
  let ?ts = "[\<lparr>tn_chunks = None, tn_opened = None, tn_run = True\<rparr>]"
  have len: "length [sigs] = length (ma_turns (calm ?ts))" for sigs :: "int list" by (simp add: calm_is_good(7))
  note runs = foreground_runs_until_signal [OF calm_is_good(3-6,1,2) len]
  show ?thesis using runs [of "[15]" "[17]"] runs [of "[]" "[28, 15]"] runs [of "[]" "[1]"]
    by (simp add: stop_signal_def deadly_def handler_def)
qed

end
