(* ===== verification/Orbit_Except.thy ===== *)
theory Orbit_Except
  imports Orbit_Main
begin

text \<open>
  The exception macros of \<^verbatim>\<open>src/log/include/rb_trycatch.h\<close>: \<open>setjmp\<close> marks the block, a throw logs and
  jumps back to the mark with its code, and the \<open>else\<close> branch is the handler. The other theories have
  each guarded function as nested conditions; here three of them are written with the macros, and shown
  to be the same functions.
\<close>

section \<open>The macros\<close>

text \<open>Where a piece of a guarded block ends: it falls through to the next with a value, leaves the function with a
  \<open>return\<close>, or jumps.\<close>

datatype ('s, 'a, 'r) flow = Next 'a 's | Return 'r 's | Jump u32 's

definition flow_then :: "('s, 'a, 'r) flow \<Rightarrow> ('a \<Rightarrow> 's \<Rightarrow> ('s, 'b, 'r) flow) \<Rightarrow> ('s, 'b, 'r) flow" where
  "flow_then m f = (case m of Next x s \<Rightarrow> f x s | Return r s \<Rightarrow> Return r s | Jump code s \<Rightarrow> Jump code s)"

text \<open>\<open>longjmp\<close> with 0 makes \<open>setjmp\<close> return 1.\<close>

definition setjmp_value :: "u32 \<Rightarrow> u32" where
  "setjmp_value code = (if code = 0 then 1 else code)"

text \<open>\<open>RB_TRY\<close> with \<open>RB_CATCH\<close>: the handler reads \<open>exception_code\<close>, which \<open>setjmp\<close> has assigned again. Falling
  off the end of the block goes on after the handler.\<close>

definition rb_try :: "('s, 'r, 'r) flow \<Rightarrow> (u32 \<Rightarrow> 's \<Rightarrow> 'r \<times> 's) \<Rightarrow> 'r \<times> 's" where
  "rb_try body handler =
     (case body of
        Next r s \<Rightarrow> (r, s)
      | Return r s \<Rightarrow> (r, s)
      | Jump code s \<Rightarrow> handler (setjmp_value code) s)"

text \<open>The throws; \<open>lg\<close> is \<open>rb_log_push\<close> on the state at hand. \<open>RB_THROW_ERRNO\<close> logs the text \<open>strerror_r\<close> gives, \<open>None\<close>
  when it fails.\<close>

type_synonym 's logger = "u32 \<Rightarrow> string \<Rightarrow> string \<Rightarrow> int \<Rightarrow> 's \<Rightarrow> 's"

definition rb_throw :: "'s logger \<Rightarrow> u32 \<Rightarrow> string \<Rightarrow> int \<Rightarrow> 's \<Rightarrow> ('s, 'a, 'r) flow" where
  "rb_throw lg code func line s = Jump code (lg LOG_ERR (rb_exc_message code) func line s)"

definition errno_text :: "string option \<Rightarrow> string" where
  "errno_text strerror = (case strerror of Some msg \<Rightarrow> msg | None \<Rightarrow> ''Erro POSIX desconhecido'')"

definition rb_throw_errno :: "'s logger \<Rightarrow> string option \<Rightarrow> string \<Rightarrow> int \<Rightarrow> 's \<Rightarrow> ('s, 'a, 'r) flow" where
  "rb_throw_errno lg strerror func line s =
     Jump (exception_value RB_EXC_POSIX_ERROR) (lg LOG_ERR (errno_text strerror) func line s)"

text \<open>\<open>if (c) RB_THROW\<close>.\<close>

definition throw_if :: "bool \<Rightarrow> 's logger \<Rightarrow> u32 \<Rightarrow> string \<Rightarrow> int \<Rightarrow> 's \<Rightarrow> ('s, unit, 'r) flow" where
  "throw_if c lg code func line s = (if c then rb_throw lg code func line s else Next () s)"

lemma flow_then_simps [simp]:
  "flow_then (Next x s) f = f x s" "flow_then (Return r s) f = Return r s" "flow_then (Jump code s) f = Jump code s"
  by (simp_all add: flow_then_def)

lemma flow_then_assoc: "flow_then (flow_then m f) g = flow_then m (\<lambda>x s. flow_then (f x s) g)"
  by (cases m) simp_all

text \<open>What a throw does to a guarded block: the rest of the block is skipped, and the handler sees the state after
  the log with the code; the code \<open>RB_EXC_OK\<close> alone would reach it as another.\<close>

lemma throw_reaches_handler:
  "rb_try (flow_then (rb_throw lg code func line s) rest) handler =
     handler (if code = exception_value RB_EXC_OK then exception_value RB_EXC_ALLOC_FAIL else code)
       (lg LOG_ERR (rb_exc_message code) func line s)"
  by (simp add: rb_throw_def rb_try_def setjmp_value_def)

lemma first_throw_wins:
  "c \<Longrightarrow> rb_try (flow_then (throw_if c lg code func line s) rest) handler =
     rb_try (flow_then (rb_throw lg code func line s) rest') handler"
  by (simp add: throw_if_def rb_throw_def rb_try_def)

section \<open>Guarded functions\<close>

definition log_and_fail :: "'s logger \<Rightarrow> string \<Rightarrow> int \<Rightarrow> u32 \<Rightarrow> 's \<Rightarrow> bool \<times> 's" where
  "log_and_fail lg func line code s = (False, lg LOG_ERR (rb_exc_message code) func line s)"

definition guarded_new_server :: "cfg_daemon_server option \<Rightarrow> bool \<Rightarrow> server \<Rightarrow> bool \<times> server" where
  "guarded_new_server cfg allocated s =
     rb_try
       (flow_then (throw_if (cfg = None) push 2 ''new_dmmr_server'' 202 s) (\<lambda>_ s.
        flow_then (throw_if (\<not> allocated) push 1 ''new_dmmr_server'' 206 s) (\<lambda>_ s.
        Return True (push LOG_INFO ''Servidor DMMR criado'' ''new_dmmr_server'' 214
                      (s\<lparr>sv_cfg_daemon := cfg, sv_this := True\<rparr>)))))
       (log_and_fail push ''new_dmmr_server'' 218)"

lemma guarded_new_server_same: "guarded_new_server cfg allocated s = new_dmmr_server cfg allocated s"
  by (simp add: guarded_new_server_def new_dmmr_server_def throw_if_def rb_throw_def rb_try_def log_and_fail_def setjmp_value_def)

definition daemon_log :: "daemon logger" where
  "daemon_log level msg func line d = d\<lparr>dm_server := push level msg func line (dm_server d)\<rparr>"

definition guarded_new_daemon :: "cfg_daemon_server option \<Rightarrow> bool \<Rightarrow> daemon \<Rightarrow> bool \<times> daemon" where
  "guarded_new_daemon cfg allocated d =
     rb_try
       (flow_then (throw_if (cfg = None) daemon_log 2 ''new_dmmr_daemon'' 95 d) (\<lambda>_ d.
        flow_then (throw_if (\<not> allocated) daemon_log 1 ''new_dmmr_daemon'' 99 d) (\<lambda>_ d.
        Return True (daemon_log LOG_INFO ''Daemon configurado'' ''new_dmmr_daemon'' 108 (d\<lparr>dm_this := True, dm_cfg := cfg\<rparr>)))))
       (log_and_fail daemon_log ''new_dmmr_daemon'' 112)"

lemma guarded_new_daemon_same: "guarded_new_daemon cfg allocated d = new_dmmr_daemon cfg allocated d"
  by (simp add: guarded_new_daemon_def new_dmmr_daemon_def throw_if_def rb_throw_def rb_try_def log_and_fail_def
      setjmp_value_def daemon_log_def)

text \<open>\<open>daemonize\<close> throws to the mark of its caller; \<open>exit\<close> of the parent is a return here, with the status. The
  handler of \<open>daemon_start\<close> prints and returns 0.\<close>

definition guarded_daemonize :: "string option \<Rightarrow> int \<Rightarrow> int \<Rightarrow> int \<Rightarrow> daemon \<Rightarrow> (daemon, unit, int process) flow" where
  "guarded_daemonize strerror fork1 sid fork2 d =
     (if fork1 = EOF then rb_throw_errno daemon_log strerror ''daemonize'' 29 d
      else if fork1 \<noteq> 0 then Return (Exit 0) d
      else if sid = EOF then rb_throw_errno daemon_log strerror ''daemonize'' 36 d
      else if fork2 = 0 then Next () d
      else if fork2 = EOF then rb_throw_errno daemon_log strerror ''daemonize'' 55 d
      else Return (Exit 0) d)"

definition guarded_daemon_start :: "string option \<Rightarrow> int \<Rightarrow> int \<Rightarrow> int \<Rightarrow> bool \<Rightarrow> daemon \<Rightarrow> int process \<times> daemon" where
  "guarded_daemon_start strerror fork1 sid fork2 allocated d =
     (if \<not> dm_this d then (Cont EOF, d)
      else rb_try
        (flow_then (guarded_daemonize strerror fork1 sid fork2 d) (\<lambda>_ d.
         case new_dmmr_server (dm_cfg d) allocated (dm_server d) of (ok, s) \<Rightarrow>
           flow_then (throw_if (\<not> ok) daemon_log (exception_value RB_EXC_SERVER_INIT) ''daemon_start'' 74
                        (d\<lparr>dm_srv := ok, dm_server := s\<rparr>)) (\<lambda>_ d.
           Return (Cont 0) (daemon_log LOG_INFO ''DMMR orbiting.'' ''daemon_start'' 75 d))))
        (\<lambda>code d. (Cont 0, d)))"

text \<open>The daemon's start with its macros is the start of \<open>Orbit_Main\<close>: in every branch the same exit or value and the
  same state, the parents that exit leave the state to their child.\<close>

lemma guarded_daemon_start_same:
  "daemon_start (errno_text strerror) fork1 sid fork2 allocated d =
     (case guarded_daemon_start strerror fork1 sid fork2 allocated d of
        (Exit status, _) \<Rightarrow> Exit status
      | (Cont ret, d') \<Rightarrow> Cont (ret, d'))"
  by (cases "new_dmmr_server (dm_cfg d) allocated (dm_server d)"; cases "fst (new_dmmr_server (dm_cfg d) allocated (dm_server d))")
    (simp_all add: daemon_start_def guarded_daemon_start_def daemonize_def guarded_daemonize_def rb_throw_errno_def
      rb_try_def throw_if_def rb_throw_def daemon_log_def)

end
