(* ===== verification/Orbit_Input.thy ===== *)
theory Orbit_Input
  imports Orbit_Refill
begin

text \<open>
  \<open>YY_INPUT\<close> of \<^verbatim>\<open>src/parser/scanner.c\<close> in full: the branch for a terminal, which reads a line with \<open>getc\<close>,
  and the branch for a file, which repeats an interrupted \<open>fread\<close> and ends the program on any other error.
  \<open>Orbit_Flex\<close> takes the number of characters a read delivers as an answer of the system, \<open>en_read\<close>; here
  both branches are shown to give answers of that kind, when the program goes on at all.
\<close>

section \<open>The code\<close>

text \<open>\<open>yy_fatal_error\<close> prints and exits.\<close>

definition yy_fatal_error :: "string \<Rightarrow> 'a res" where
  "yy_fatal_error msg = Inl Exits"

text \<open>The loop over \<open>getc\<close>: characters are stored while there is room, the file goes on and the character is not
  a newline; the newline itself is stored after the loop. The input is what is left of the stream, and the
  second component says whether \<open>getc\<close> came to its end.\<close>

fun yy_getc_loop :: "nat \<Rightarrow> string \<Rightarrow> string \<times> bool \<times> bool" where
  "yy_getc_loop 0 s = ([], False, False)"
| "yy_getc_loop (Suc m) [] = ([], True, False)"
| "yy_getc_loop (Suc m) (c # s) =
     (if c = CHR 0x0A then ([], False, True)
      else case yy_getc_loop m s of (cs, ended, newline) \<Rightarrow> (c # cs, ended, newline))"

definition yy_input_terminal :: "bool \<Rightarrow> nat \<Rightarrow> string \<Rightarrow> string res" where
  "yy_input_terminal ferror max_size s =
     (case yy_getc_loop max_size s of (cs, ended, newline) \<Rightarrow>
        let buf = (if newline then cs @ [CHR 0x0A] else cs)
        in if ended \<and> ferror then yy_fatal_error ''input in flex scanner failed'' else Inr buf)"

text \<open>What one \<open>fread\<close> does: it delivers a number of characters (0 at the end of the file), or none with an error.\<close>

datatype fread_result = Delivers nat | Interrupted | Fails

text \<open>The loop over \<open>fread\<close>; the list is what the calls do, one after the other, and a run that is still
  repeating has no value.\<close>

fun yy_input_file :: "fread_result list \<Rightarrow> string \<Rightarrow> string res option" where
  "yy_input_file [] s = None"
| "yy_input_file (Delivers n # rs) s = Some (Inr (take n s))"
| "yy_input_file (Interrupted # rs) s = yy_input_file rs s"
| "yy_input_file (Fails # rs) s = Some (yy_fatal_error ''input in flex scanner failed'')"

section \<open>What the branches deliver\<close>

lemma yy_getc_loop_line:
  "yy_getc_loop m s =
     (let line = takeWhile (\<lambda>c. c \<noteq> CHR 0x0A) s
      in (take m line, length line < m \<and> length line = length s, length line < m \<and> length line < length s))"
  by (induction m s rule: yy_getc_loop.induct) (auto simp: Let_def split: prod.splits)

text \<open>A terminal delivers the first line with its newline, as far as there is room.\<close>

lemma yy_input_terminal_line:
  assumes "\<not> ferror"
  shows "yy_input_terminal ferror m s = Inr (take m (takeWhile (\<lambda>c. c \<noteq> CHR 0x0A) s @
     (if length (takeWhile (\<lambda>c. c \<noteq> CHR 0x0A) s) < length s then [CHR 0x0A] else [])))"
  using assms by (auto simp: yy_input_terminal_def yy_getc_loop_line Let_def)

definition line_length :: "nat \<Rightarrow> string \<Rightarrow> nat" where
  "line_length m s = min m (min (length s) (length (takeWhile (\<lambda>c. c \<noteq> CHR 0x0A) s) + 1))"

lemma terminal_takes_prefix:
  assumes "\<not> ferror"
  shows "yy_input_terminal ferror m s = Inr (take (line_length m s) s)"
proof -
  let ?line = "takeWhile (\<lambda>c. c \<noteq> CHR 0x0A) s"
  have prefix: "?line = take (length ?line) s" by (rule takeWhile_eq_take)
  have "?line @ [CHR 0x0A] = take (length ?line + 1) s" if "length ?line < length s"
  proof -
    have "s ! length ?line = CHR 0x0A" using nth_length_takeWhile [OF that] by simp
    then show ?thesis using that prefix by (metis Suc_eq_plus1 take_Suc_conv_app_nth)
  qed
  moreover have "length ?line \<le> length s" by (rule length_takeWhile_le)
  ultimately have "?line @ (if length ?line < length s then [CHR 0x0A] else []) = take (min (length s) (length ?line + 1)) s"
    using prefix by (auto simp: not_less)
  then show ?thesis using assms by (simp add: yy_input_terminal_line line_length_def min.commute)
qed

text \<open>So the answers of a terminal are answers as \<open>Orbit_Flex\<close> takes them: at least one character while the file
  goes on, and never more than there is room for.\<close>

lemma terminal_env_ok: "env_ok en \<Longrightarrow> env_ok (en\<lparr>en_read := line_length\<rparr>)"
  by (auto simp: env_ok_def line_length_def)

text \<open>Interruptions leave no trace; the first other error ends the program.\<close>

lemma yy_input_file_first:
  assumes "\<forall>r \<in> set rs. r = Interrupted"
  shows "yy_input_file (rs @ Delivers n # rest) s = Some (Inr (take n s))"
    and "yy_input_file (rs @ Fails # rest) s = Some (Inl Exits)"
  using assms by (induction rs) (auto simp: yy_fatal_error_def)

end
