(* ===== verification/Spec2Isabelle.thy ===== *)
theory Spec2Isabelle
  imports Orbit_Prelude Orbit_Mem Orbit_Crc Orbit_Types Orbit_Text Orbit_Config Orbit_Fifo Orbit_Recv Orbit_Log Orbit_Circle Orbit_Sort
    Orbit_Pool Orbit_Session Orbit_Sched Orbit_Net Orbit_Socket
    Orbit_Logging Orbit_Receivers Orbit_Sleep Orbit_Delivery Orbit_Follow Orbit_Sendpath Orbit_Scanner Orbit_Flex Orbit_Refill Orbit_Stream Orbit_Reader Orbit_Buffers Orbit_Plugin Orbit_Server Orbit_Main Orbit_Threads
    Orbit_Deadlines Orbit_Connection Orbit_Fields Orbit_Manager Orbit_Process Orbit_Except Orbit_Input
begin

text \<open>
  A verification development for DMMR Orbit, a network emulation daemon in C: it accepts TCP and UDP
  connections, collects what they receive in a ring, copies it into sessions and sends each session's
  packets on when their deadline is due. Paths are relative to \<^verbatim>\<open>src/\<close> of the repository.

  \<^bold>\<open>The program and how its parts are modelled.\<close> Every C module keeps its state in static variables; here
  that state is a record, and an operation is a function from the state to the new state. From the
  bottom up:

  \<^item> \<open>Orbit_Mem\<close>: \<^verbatim>\<open>include/funcs.h\<close> (\<open>__vcpy\<close>, \<open>__bcpy\<close>, \<open>__mset\<close>, \<open>__vcmp\<close>, \<open>__vlen\<close>) and
    \<^verbatim>\<open>utils/strlcpy.c\<close> over a byte memory, a function from addresses to bytes. \<open>__mset\<close> is the
    optimised version; the build defines \<^verbatim>\<open>ARCH_SAFE_MEMSET\<close>, which replaces it by \<open>memset\<close>, and the
    other models take it as such.
  \<^item> \<open>Orbit_Crc\<close>: the table-driven CRC-32 with which a changed configuration file is recognised.
  \<^item> \<open>Orbit_Types\<close>: \<^verbatim>\<open>include/structs.h\<close>, \<^verbatim>\<open>include/enums.h\<close>, \<^verbatim>\<open>include/mtu_config.h\<close> and
    \<^verbatim>\<open>include/maps\<close>: a \<open>struct\<close> is a record, an \<open>enum\<close> a datatype, a \<open>w\<close>-bit integer a word.
    \<open>Orbit_Fields\<close>: the mapper that fills a node from an array of tagged fields, whose element type the
    repository does not declare and which is a parameter.
  \<^item> \<open>Orbit_Text\<close> and \<open>Orbit_Config\<close>: URI and quote parsing; the lexer rules of \<^verbatim>\<open>parser/scanner.l\<close>,
    the token handler of \<^verbatim>\<open>parser/console.c\<close> and the parser object of \<^verbatim>\<open>parser/dmmr_parser.c\<close>.
    \<open>Orbit_Scanner\<close>: the lexer that is compiled, \<^verbatim>\<open>parser/scanner.c\<close>, with the compressed tables flex
    generated from the rules, its matching loop and its actions, on a text that is all there.
    \<open>Orbit_Flex\<close>: the rest of \<open>yylex\<close> and its buffer, which is filled from the file in pieces, moves the start
    of a token to its front and grows; \<open>Orbit_Refill\<close>, \<open>Orbit_Stream\<close> and \<open>Orbit_Reader\<close> show that it reads
    the same tokens, one refill, one token, one file and a sequence of files at a time. \<open>Orbit_Input\<close>: \<open>YY_INPUT\<close>
    with its errors and its branch for a terminal, whose reads are of the kind the buffer takes. \<open>Orbit_Buffers\<close>: the
    stack of buffers and the other functions of the generated file, which the program never calls.
  \<^item> \<open>Orbit_Recv\<close> (\<^verbatim>\<open>node/node_recv_manager.c\<close>) and \<open>Orbit_Log\<close> (\<^verbatim>\<open>log/rb_log.c\<close>): two bounded
    buffers; each operation holds the mutex for its whole body and is one step.
  \<^item> \<open>Orbit_Circle\<close> (\<^verbatim>\<open>circle_buffer/dmmr_circle_buffer.c\<close>): the ring of received nodes, its cursor and
    the worker that publishes into it.
  \<^item> \<open>Orbit_Pool\<close>: the allocator text that five functions of the program share; \<open>Orbit_Sort\<close>: the
    insertion sort that two share.
  \<^item> \<open>Orbit_Session\<close> (\<^verbatim>\<open>session/session_connection.c\<close>), \<open>Orbit_Sched\<close>
    (\<^verbatim>\<open>scheduler/dmmr_scheduler.c\<close>, \<^verbatim>\<open>session/dmmr_session_connection_manager.c\<close>): the session table,
    a session's turn, the scheduler's passes. A session is its index in the table, so two pointers are
    equal exactly when the indices are. \<open>Orbit_Threads\<close> interleaves the scheduler's threads,
    with an insertion in the parts that lie outside the mutex; \<open>Orbit_Deadlines\<close> follows the deadline of a slot through such a run, \<open>Orbit_Manager\<close> has the manager's forwarders,
    \<open>Orbit_Logging\<close> the pushes, the thread and the shutdown of the log. \<open>Orbit_Delivery\<close> follows the packets
    of a session through any run of its worker, \<open>Orbit_Follow\<close> interleaves that worker with the ring that feeds it,
    at each access to the cursor, and \<open>Orbit_Sendpath\<close> joins a session's pool to the send
    functions of the socket layer.
  \<^item> \<open>Orbit_Net\<close> (\<^verbatim>\<open>socket/socket_tcp.c\<close>, \<^verbatim>\<open>socket/socket_udp.c\<close>) and \<open>Orbit_Socket\<close>
    (\<^verbatim>\<open>socket/dmmr_socket.c\<close>): receiving, accepting, connecting and sending; \<open>Orbit_Receivers\<close>: the
    thread of a UDP receiver as a whole; \<open>Orbit_Connection\<close>: that of a TCP connection, with the program's own
    receive callback. \<open>Orbit_Sleep\<close>: the instant a pause ends at. A pointer to a protocol
    block is a \<open>cb_ptr\<close>, which names the pool or the session the block lies in.
  \<^item> \<open>Orbit_Plugin\<close> (\<^verbatim>\<open>plugin/dmmr_trunk_plugin.c\<close>): the callbacks that tie socket layer, sessions and
    scheduler together, over the state of all three.
  \<^item> \<open>Orbit_Server\<close> (\<^verbatim>\<open>server/dmmr_server.c\<close>) and \<open>Orbit_Main\<close> (\<^verbatim>\<open>daemon/dmmr_daemon.c\<close>,
    \<^verbatim>\<open>main.c\<close>): starting every component in order, rolling back, running, stopping; the command line,
    the foreground loop and the daemon. Each start step runs the model of the component it creates.
    \<open>Orbit_Process\<close>: the main thread of the foreground under signals, those with a handler and the others. \<open>Orbit_Except\<close>: the exception macros of
    \<^verbatim>\<open>log/include/rb_trycatch.h\<close>; the other theories have each guarded function as nested conditions, and
    three of them are shown here to be what the macros make of them.

  \<^bold>\<open>Faults, loops and the outside.\<close> An operation that can read through a null pointer, leave an array, lock
  a mutex it holds, use freed memory, not return, or use the value of a function that returned none, has a result in
  \<open>'a res\<close>: the fault (\<open>Inl\<close>) or the value (\<open>Inr\<close>). A loop is recursion, with a termination proof where
  it ends; \<open>vlen_loop\<close>, \<open>skip_nul\<close>, \<open>drain_log\<close>, \<open>yy_find\<close>, \<open>scanner_yylex\<close>, \<open>yy_grow\<close>, \<open>yy_goto\<close>, \<open>yylex_loop\<close>, \<open>flex_run_loop\<close>, \<open>destroy_buffers\<close>, \<open>receive_loop\<close> and \<open>get_current_node\<close> may run for ever
  and are \<open>partial_function\<close>s whose value is then \<open>None\<close>. There is no fuel. Threads that run for ever are
  their turn, a condition under which they wait, and, for the foreground loop, a run over a list of
  turns. What the system answers (allocations, threads, files, sockets, clocks, the resolver) is an
  argument of the operation that asks; what it is given, such as the vectors of \<open>writev\<close>, is part of
  the result.

  \<^bold>\<open>What is shown.\<close>

  \<^item> Optimised routines equal their references: flex's automaton and the longest match over the rules,
    \<open>__bcpy\<close> and \<open>memmove\<close>, the CRC table and the bit-serial CRC, the binary insertion of the scheduler and a stable sort.
  \<^item> Two interfaces are locales, each with two providers: \<open>bounded_fifo\<close> (extended by \<open>refusing_fifo\<close>) for
    the receive manager and the log, and \<open>stable_insertion\<close> for the two sorts; \<open>slot_allocator\<close> states
    what the growable pools promise while a slot is free. The refinement of any run of operations to a
    list is proved once, in the locale.
  \<^item> The configuration reader: keywords by longest match, whatever pieces the file arrives in; a printed
    configuration is read back; any file at all leaves a configuration of the declared types; and a
    run of at most four bytes replaced by another of the same length is noticed by the reload.
  \<^item> Over any run of a session's worker the packets it took are the ones it sent and the ones it holds,
    and in any interleaving with the ring the worker follows the cursor, up to a lap for every time it gets
    past the cursor between the two stores that wrap it; every line of the log is handed to its socket
    once and in order when that is connected, and is lost if the socket refuses it.
  \<^item> A session collects the packets of its connection and sends a prefix at the limit; a send pass sends
    exactly the sessions that are due; the scheduler never leaves its slot array, in any interleaving of
    its passes and the parts of its insertions in fewer than 2^31 - 1 steps (the bound keeps the 32-bit counters from wrapping). What the send pass leaves
    behind: a session once sent is due for ever after, so the deadlines are lost.
  \<^item> The server starts all components or none; a first start succeeds; the main thread of the foreground runs until a
    signal ends it. The error theorems state where the code does not do what it means to: faults that every run of
    an operation reaches, lost lines and packets, a restart that uses freed memory.

  \<^bold>\<open>Not modelled.\<close> The declarations of \<^verbatim>\<open>parser/scanner.h\<close>.
  \<^verbatim>\<open>include/calc_slot_sleep_us.h\<close> computes with doubles and is called nowhere; \<^verbatim>\<open>include/exception.h\<close>
  is included nowhere. That a thread pauses, thread attributes, the standard streams, the delivery of a signal to
  the own process by \<open>daemon_stop\<close> and the layout of memory beyond what
  the operations address are left out. The small headers of \<^verbatim>\<open>include\<close> that repeat a routine of
  \<^verbatim>\<open>funcs.h\<close> are shadowed by its include guards.

  \<^bold>\<open>What is not stated, and why.\<close> That the packets of a connection reach its peer is not a theorem of this program:
  the receive callback never hands a node to the ring, opening a session does not return, a batch goes back
  to its sender, and the deadlines are lost. Each of these is shown above where it happens. The parts of the
  path are specified up to those points: receive manager, ring, session, pool and send pass are each
  refined to a list or shown to conserve its packets, and a repaired program could join these statements to a
  queue per session.
\<close>

end
